(* ===== verification/Prelude.thy ===== *)
theory Prelude
  imports Main "HOL-Library.Word"
begin

unbundle bit_operations_syntax

section \<open>Prelude: machine types, crashes and shared lemmas\<close>

text \<open>
  What every component of the acached model shares: the C integer types at their width, the
  ways in which a C operation can go wrong (\<open>crash\<close>, the left side of \<open>result\<close>), the
  composition of fallible steps (\<open>rbind\<close>), the special characters of the text protocol, and
  generic lemmas on lists and words.
\<close>

type_synonym u8 = "8 word"
type_synonym u16 = "16 word"
type_synonym u32 = "32 word"
type_synonym u64 = "64 word"

text \<open>
  A run of a C function either returns a value or ends in one of these. \<open>AssertFail\<close> is a
  failed \<open>assert\<close> (the process aborts); the others are accesses the C standard leaves
  undefined: a null pointer, memory outside an object, memory that was freed, an indeterminate
  value, a division by zero. \<open>Exits n\<close> is a call of \<open>exit\<close> with the code \<open>n\<close>.
\<close>

datatype crash = AssertFail | NullDeref | OutOfBounds | UseAfterFree | Uninitialised | DivByZero
  | Exits int

type_synonym 'a result = "crash + 'a"

definition rbind :: "'a result \<Rightarrow> ('a \<Rightarrow> 'b result) \<Rightarrow> 'b result" where
  "rbind r f = (case r of Inl e \<Rightarrow> Inl e | Inr x \<Rightarrow> f x)"

lemma rbind_Inr [simp]: "rbind (Inr x) f = f x"
  by (simp add: rbind_def)

lemma rbind_Inl [simp]: "rbind (Inl e) f = Inl e"
  by (simp add: rbind_def)

lemma rbind_eq_Inr_iff: "rbind r f = Inr y \<longleftrightarrow> (\<exists>x. r = Inr x \<and> f x = Inr y)"
  by (cases r) simp_all

text \<open>
  A run that may also not end is a \<open>result option\<close>, \<open>None\<close> being no end; \<open>obind\<close> composes such runs.
  \<open>fetch\<close> reads an object at an address.
\<close>

definition obind :: "'a result option \<Rightarrow> ('a \<Rightarrow> 'b result option) \<Rightarrow> 'b result option" where
  "obind r f = (case r of None \<Rightarrow> None | Some (Inl e) \<Rightarrow> Some (Inl e) | Some (Inr x) \<Rightarrow> f x)"

lemma obind_simps [simp]:
  "obind None f = None" "obind (Some (Inl e)) f = Some (Inl e)" "obind (Some (Inr x)) f = f x"
  by (simp_all add: obind_def)

lemma obind_eq_Some_Inr_iff: "obind r f = Some (Inr y) \<longleftrightarrow> (\<exists>x. r = Some (Inr x) \<and> f x = Some (Inr y))"
  by (auto simp: obind_def split: option.splits sum.splits)

definition fetch :: "(nat \<rightharpoonup> 'a) \<Rightarrow> nat \<Rightarrow> 'a result" where
  "fetch m p = (case m p of Some x \<Rightarrow> Inr x | None \<Rightarrow> Inl (if p = 0 then NullDeref else Uninitialised))"

lemma fetch_Some [simp]: "m p = Some x \<Longrightarrow> fetch m p = Inr x"
  by (simp add: fetch_def)

text \<open>Collections of rewrite rules, one per group of proofs.\<close>

named_theorems word_bytes \<open>bytes of machine words\<close>
named_theorems queue_simps \<open>operations of the queues\<close>
named_theorems store_simps \<open>reads and writes of the store\<close>
named_theorems posts \<open>what holds after a step that returns\<close>

text \<open>
  What holds of the value when a run returns one: a postcondition is carried through a composition one
  step at a time.
\<close>

definition rpost :: "('a \<Rightarrow> bool) \<Rightarrow> 'a result \<Rightarrow> bool" where
  "rpost P r \<longleftrightarrow> (\<forall>x. r = Inr x \<longrightarrow> P x)"

definition opost :: "('a \<Rightarrow> bool) \<Rightarrow> 'a result option \<Rightarrow> bool" where
  "opost P r \<longleftrightarrow> (\<forall>x. r = Some (Inr x) \<longrightarrow> P x)"

lemma rpost_simps [simp]: "rpost P (Inl e)" "rpost P (Inr x) = P x"
  by (simp_all add: rpost_def)

lemma opost_simps [simp]: "opost P None" "opost P (Some r) = rpost P r"
  by (simp_all add: opost_def rpost_def)

lemma rpostD: "rpost P r \<Longrightarrow> r = Inr x \<Longrightarrow> P x"
  by (simp add: rpost_def)

lemma opostD: "opost P r \<Longrightarrow> r = Some (Inr x) \<Longrightarrow> P x"
  by (simp add: opost_def)

lemma rpost_mono: "rpost P r \<Longrightarrow> (\<And>x. P x \<Longrightarrow> Q x) \<Longrightarrow> rpost Q r"
  by (simp add: rpost_def)

lemma opost_mono: "opost P r \<Longrightarrow> (\<And>x. P x \<Longrightarrow> Q x) \<Longrightarrow> opost Q r"
  by (simp add: opost_def)

text \<open>A step with a postcondition of its own, and the steps through the forms of a definition.\<close>

lemma rpost_rbind: "rpost Q r \<Longrightarrow> (\<And>x. Q x \<Longrightarrow> rpost P (f x)) \<Longrightarrow> rpost P (rbind r f)"
  by (cases r) simp_all

lemma opost_obind: "opost Q r \<Longrightarrow> (\<And>x. Q x \<Longrightarrow> opost P (f x)) \<Longrightarrow> opost P (obind r f)"
  by (auto simp: obind_def opost_def split: option.splits sum.splits)

lemma rpost_posts [posts]:
  "(\<And>x. r = Inr x \<Longrightarrow> rpost P (f x)) \<Longrightarrow> rpost P (rbind r f)"
  "(b \<Longrightarrow> rpost P r1) \<Longrightarrow> (\<not> b \<Longrightarrow> rpost P r2) \<Longrightarrow> rpost P (if b then r1 else r2)"
  "(\<And>a b. y = (a, b) \<Longrightarrow> rpost P (g a b)) \<Longrightarrow> rpost P (case y of (a, b) \<Rightarrow> g a b)"
  "(z = None \<Longrightarrow> rpost P r1) \<Longrightarrow> (\<And>v. z = Some v \<Longrightarrow> rpost P (h v)) \<Longrightarrow> rpost P (case z of None \<Rightarrow> r1 | Some v \<Rightarrow> h v)"
  "rpost P (k v) \<Longrightarrow> rpost P (Let v k)"
  by (cases r; simp) (simp_all split: prod.splits option.splits)

lemma opost_posts [posts]:
  "(\<And>x. z = Some (Inr x) \<Longrightarrow> opost P (f x)) \<Longrightarrow> opost P (obind z f)"
  "(b \<Longrightarrow> opost P o1) \<Longrightarrow> (\<not> b \<Longrightarrow> opost P o2) \<Longrightarrow> opost P (if b then o1 else o2)"
  "(\<And>a b. y = (a, b) \<Longrightarrow> opost P (g a b)) \<Longrightarrow> opost P (case y of (a, b) \<Rightarrow> g a b)"
  "opost P (k v) \<Longrightarrow> opost P (Let v k)"
  "rpost P r \<Longrightarrow> opost P (Some r)"
  "(\<And>e. s = Inl e \<Longrightarrow> opost P (g1 e)) \<Longrightarrow> (\<And>x. s = Inr x \<Longrightarrow> opost P (g2 x)) \<Longrightarrow>
    opost P (case s of Inl e \<Rightarrow> g1 e | Inr x \<Rightarrow> g2 x)"
  by (auto simp: obind_def opost_def rpost_def split: option.splits sum.splits prod.splits)

lemma opost_map_option: "opost R z \<Longrightarrow> (\<And>x. R x \<Longrightarrow> rpost P (k x)) \<Longrightarrow> opost P (map_option (\<lambda>r. rbind r k) z)"
  by (auto simp: opost_def rpost_def rbind_eq_Inr_iff)

text \<open>Characters of the protocol.\<close>

abbreviation NUL :: char where "NUL \<equiv> CHR 0x00"
abbreviation CR :: char where "CR \<equiv> CHR 0x0D"
abbreviation LF :: char where "LF \<equiv> CHR 0x0A"
abbreviation SP :: char where "SP \<equiv> CHR 0x20"

subsection \<open>Lists\<close>

lemma map_upt_shift: "map (\<lambda>i. f (k + i)) [0..<n] = map f [k..<k + n]"
  by (rule nth_equalityI) auto

lemma drop_map_upt_shift:
  "d \<le> n \<Longrightarrow> drop d (map (\<lambda>i. f (k + i)) [0..<n]) = map (\<lambda>i. f (k + d + i)) [0..<n - d]"
  by (rule nth_equalityI) (auto simp: add.assoc)

lemma removeAll_swap: "removeAll x (removeAll y zs) = removeAll y (removeAll x zs)"
  by (induction zs) auto

lemma length_filter_update:
  "i < length xs \<Longrightarrow> length (filter P (xs[i := y])) + (if P (xs ! i) then 1 else 0) =
     length (filter P xs) + (if P y then 1 else 0)"
proof (induction xs arbitrary: i)
  case (Cons x xs)
  then show ?case by (cases i) (auto split: if_splits)
qed simp

subsection \<open>C strings\<close>

text \<open>The C string at the start of a memory area.\<close>

definition cstr :: "char list \<Rightarrow> string" where
  "cstr = takeWhile (\<lambda>c. c \<noteq> NUL)"

lemma cstr_append_NUL: "NUL \<notin> set s \<Longrightarrow> cstr (s @ NUL # t) = s"
  unfolding cstr_def by (subst takeWhile_append2) auto

lemma cstr_no_NUL: "NUL \<notin> set s \<Longrightarrow> cstr s = s"
  unfolding cstr_def by (auto simp: takeWhile_eq_all_conv)

lemma cstr_eqI: "k < length xs \<Longrightarrow> xs ! k = NUL \<Longrightarrow> take (Suc k) xs = take (Suc k) ys \<Longrightarrow> cstr xs = cstr ys"
proof (induction xs arbitrary: ys k)
  case (Cons a as)
  then obtain cs where ys: "ys = a # cs" by (cases ys) auto
  show ?case
  proof (cases k)
    case 0
    with Cons.prems ys show ?thesis by (simp add: cstr_def)
  next
    case (Suc i)
    with Cons.prems ys have "cstr as = cstr cs" by (intro Cons.IH [of i]) auto
    with ys show ?thesis by (simp add: cstr_def)
  qed
qed simp

lemma cstr_update:
  assumes "j < e" "j < length buf" "buf ! j = NUL" "off \<le> j"
  shows "cstr (drop off (buf[e := x])) = cstr (drop off buf)"
proof (rule cstr_eqI [symmetric])
  show "j - off < length (drop off buf)" "drop off buf ! (j - off) = NUL"
    using assms by simp_all
  show "take (Suc (j - off)) (drop off buf) = take (Suc (j - off)) (drop off (buf[e := x]))"
    using assms by (simp add: take_drop)
qed

text \<open>\<open>strncpy(dst, src, n)\<close> into an array; \<open>OutOfBounds\<close> when \<open>n\<close> exceeds it.\<close>

definition strncpy :: "char list \<Rightarrow> string \<Rightarrow> nat \<Rightarrow> char list result" where
  "strncpy dst src n = (if length dst < n then Inl OutOfBounds
     else Inr (take n (src @ replicate n NUL) @ drop n dst))"

text \<open>
  \<open>strncmp(a, b, n) == 0\<close>: the bytes are compared up to \<open>n\<close> or the first NUL; \<open>None\<close> when the
  comparison runs past the end of an object.
\<close>

fun strncmp_eq :: "nat \<Rightarrow> char list \<Rightarrow> char list \<Rightarrow> bool option" where
  "strncmp_eq n [] bs = (if n = 0 then Some True else None)"
| "strncmp_eq n (a # as) [] = (if n = 0 then Some True else None)"
| "strncmp_eq n (a # as) (b # bs) =
     (if n = 0 then Some True else if a \<noteq> b then Some False
      else if a = NUL then Some True else strncmp_eq (n - 1) as bs)"

lemma strncmp_eq_total:
  "n \<le> length as \<or> NUL \<in> set as \<Longrightarrow> n \<le> length bs \<or> NUL \<in> set bs \<Longrightarrow> strncmp_eq n as bs \<noteq> None"
proof (induction n as bs rule: strncmp_eq.induct)
  case (3 n a as b bs)
  then show ?case by (cases n) auto
qed auto

lemma strncmp_eq_refl: "n \<le> length as \<Longrightarrow> strncmp_eq n as as = Some True"
proof (induction as arbitrary: n)
  case (Cons a as)
  then show ?case by (cases n) auto
qed simp

lemma strncmp_eq_take: "n \<le> length as \<Longrightarrow> take n as = take n as' \<Longrightarrow>
    strncmp_eq n as' bs = strncmp_eq n as bs"
proof (induction n arbitrary: as as' bs)
  case 0
  show ?case by (cases as; cases as'; cases bs; simp)
next
  case (Suc k)
  then obtain a cs where as: "as = a # cs" by (cases as) auto
  with Suc.prems obtain cs' where as': "as' = a # cs'" "take k cs = take k cs'" by (cases as') auto
  show ?case
  proof (cases bs)
    case (Cons b ds)
    have "strncmp_eq k cs' ds = strncmp_eq k cs ds"
      using Suc.prems as as' by (intro Suc.IH) auto
    with Cons as as' show ?thesis by simp
  qed (simp add: as as')
qed

subsection \<open>Words as C integers\<close>

lemma sint_small:
  fixes w :: u32
  assumes "unat w < 2 ^ 31"
  shows "sint w = int (unat w)"
proof -
  have u: "uint w = int (unat w)" by simp
  have "uint w < 2 ^ 31" using assms unfolding u by (metis of_nat_less_iff of_nat_numeral of_nat_power)
  moreover have "- (2 ^ 31) \<le> uint w" by (rule order_trans [of _ 0]) simp_all
  ultimately have "signed_take_bit 31 (uint w) = uint w" by (intro signed_take_bit_int_eq_self)
  then show ?thesis by (simp add: sint_uint)
qed

lemma unat_of_nat_small: "n < 2 ^ 32 \<Longrightarrow> unat (of_nat n :: u32) = n"
  by (simp add: unat_of_nat take_bit_nat_eq_self)

lemma unat_plus_small:
  fixes a b :: u32
  assumes "unat a + unat b < 2 ^ 32"
  shows "unat (a + b) = unat a + unat b"
proof -
  have "a + b = of_nat (unat a + unat b)" by simp
  then show ?thesis using unat_of_nat_small [OF assms] by (metis)
qed

lemma unat_minus_small:
  fixes a b :: u32
  assumes "unat b \<le> unat a"
  shows "unat (a - b) = unat a - unat b"
proof -
  have "a - b = of_nat (unat a - unat b)" using assms by (simp add: of_nat_diff)
  moreover have "unat a < 2 ^ 32" using unsigned_less [of a, where 'a = nat] by simp
  then have "unat a - unat b < 2 ^ 32" by (rule less_imp_diff_less)
  ultimately show ?thesis using unat_of_nat_small by metis
qed

lemma word_of_int_nat: "word_of_int (int n) = (of_nat n :: u32)"
  by simp

lemma word_le_of_nat: "n < 2 ^ 32 \<Longrightarrow> m < 2 ^ 32 \<Longrightarrow> (of_nat n \<le> (of_nat m :: u32)) \<longleftrightarrow> n \<le> m"
  by (simp add: word_le_nat_alt unat_of_nat_small)

lemma word_less_of_nat: "n < 2 ^ 32 \<Longrightarrow> m < 2 ^ 32 \<Longrightarrow> (of_nat n < (of_nat m :: u32)) \<longleftrightarrow> n < m"
  by (simp add: word_less_nat_alt unat_of_nat_small)

end
