(* ===== verification/AdaptQ.thy ===== *)
theory AdaptQ
  imports Prelude
begin

section \<open>Queues and free/busy pools (adapt/)\<close>

text \<open>
  \<open>adaptQ\<close> (a \<open>std::list\<close> of pointers), \<open>adaptSharedQ\<close> (the same under a mutex) and the
  free/busy pairs \<open>adaptFBQ\<close>, \<open>adaptFBSharedQ\<close>. A pointer is a number, 0 is NULL. A class is
  a record; a method takes the object first and returns its value with the object after the call.
\<close>

type_synonym ptr = nat

abbreviation (input) NULL :: ptr where "NULL \<equiv> 0"

subsection \<open>adaptQ\<close>

record adaptQ =
  Q :: "ptr list"
  qtype :: int

definition adaptQ_new :: "int \<Rightarrow> adaptQ" where
  "adaptQ_new t = \<lparr>Q = [], qtype = t\<rparr>"

definition aQsetType :: "'a adaptQ_scheme \<Rightarrow> int \<Rightarrow> int \<times> 'a adaptQ_scheme" where
  "aQsetType q t = (t, q\<lparr>qtype := t\<rparr>)"

definition aQgetType :: "'a adaptQ_scheme \<Rightarrow> int" where
  "aQgetType q = qtype q"

definition aQput :: "'a adaptQ_scheme \<Rightarrow> ptr \<Rightarrow> int \<times> 'a adaptQ_scheme" where
  "aQput q p = (0, q\<lparr>Q := Q q @ [p]\<rparr>)"

definition aQget :: "'a adaptQ_scheme \<Rightarrow> ptr \<times> 'a adaptQ_scheme" where
  "aQget q = (case Q q of [] \<Rightarrow> (NULL, q) | p # ps \<Rightarrow> (p, q\<lparr>Q := ps\<rparr>))"

text \<open>\<open>std::list::remove\<close> erases every element equal to its argument.\<close>

definition aQremove :: "'a adaptQ_scheme \<Rightarrow> ptr \<Rightarrow> int \<times> 'a adaptQ_scheme" where
  "aQremove q p = (0, q\<lparr>Q := removeAll p (Q q)\<rparr>)"

fun find_loop :: "(ptr \<Rightarrow> int \<Rightarrow> bool) \<Rightarrow> int \<Rightarrow> ptr list \<Rightarrow> ptr" where
  "find_loop f x [] = NULL"
| "find_loop f x (p # ps) = (if f p x then p else find_loop f x ps)"

definition aQFindPtr :: "'a adaptQ_scheme \<Rightarrow> (ptr \<Rightarrow> int \<Rightarrow> bool) \<Rightarrow> int \<Rightarrow> ptr" where
  "aQFindPtr q f x = find_loop f x (Q q)"

subsection \<open>adaptSharedQ: every operation between lock and unlock\<close>

record adaptSharedQ = adaptQ +
  mutexQ :: bool

definition adaptSharedQ_new :: "int \<Rightarrow> adaptSharedQ" where
  "adaptSharedQ_new t = \<lparr>Q = [], qtype = t, mutexQ = False\<rparr>"

definition adaptLock :: "'a adaptSharedQ_scheme \<Rightarrow> 'a adaptSharedQ_scheme" where
  "adaptLock q = q\<lparr>mutexQ := True\<rparr>"

definition adaptUnLock :: "'a adaptSharedQ_scheme \<Rightarrow> 'a adaptSharedQ_scheme" where
  "adaptUnLock q = q\<lparr>mutexQ := False\<rparr>"

definition aSQsetType :: "'a adaptSharedQ_scheme \<Rightarrow> int \<Rightarrow> int \<times> 'a adaptSharedQ_scheme" where
  "aSQsetType q t = aQsetType q t"

definition aSQgetType :: "'a adaptSharedQ_scheme \<Rightarrow> int" where
  "aSQgetType q = aQgetType q"

definition aSQput :: "'a adaptSharedQ_scheme \<Rightarrow> ptr \<Rightarrow> int \<times> 'a adaptSharedQ_scheme" where
  "aSQput q p = (let q = adaptLock q; (_, q) = aQput q p; q = adaptUnLock q in (0, q))"

definition aSQget :: "'a adaptSharedQ_scheme \<Rightarrow> ptr \<times> 'a adaptSharedQ_scheme" where
  "aSQget q = (let q = adaptLock q; (p, q) = aQget q; q = adaptUnLock q in (p, q))"

definition aSQremove :: "'a adaptSharedQ_scheme \<Rightarrow> ptr \<Rightarrow> int \<times> 'a adaptSharedQ_scheme" where
  "aSQremove q p = (let q = adaptLock q; (_, q) = aQremove q p; q = adaptUnLock q in (0, q))"

definition aSQFindPtr :: "'a adaptSharedQ_scheme \<Rightarrow> (ptr \<Rightarrow> int \<Rightarrow> bool) \<Rightarrow> int \<Rightarrow>
    ptr \<times> 'a adaptSharedQ_scheme" where
  "aSQFindPtr q f x =
     (let q = adaptLock q; p = aQFindPtr q f x; q = adaptUnLock q in (p, q))"

definition aSQempty :: "'a adaptSharedQ_scheme \<Rightarrow> bool \<times> 'a adaptSharedQ_scheme" where
  "aSQempty q = (let q = adaptLock q; r = (Q q = []); q = adaptUnLock q in (r, q))"

lemmas sharedq_defs = aSQput_def aSQget_def aSQremove_def aSQFindPtr_def aSQempty_def
  aSQsetType_def aSQgetType_def adaptLock_def adaptUnLock_def
lemmas adaptq_defs = aQput_def aQget_def aQremove_def aQFindPtr_def aQsetType_def aQgetType_def

subsection \<open>The queue interface\<close>

locale fifo_queue =
  fixes put :: "'q \<Rightarrow> ptr \<Rightarrow> int \<times> 'q"
    and get :: "'q \<Rightarrow> ptr \<times> 'q"
    and remove :: "'q \<Rightarrow> ptr \<Rightarrow> int \<times> 'q"
    and items :: "'q \<Rightarrow> ptr list"
  assumes items_put: "items (snd (put q p)) = items q @ [p]"
    and get_empty: "items q = [] \<Longrightarrow> fst (get q) = NULL \<and> items (snd (get q)) = []"
    and get_cons: "items q = p # ps \<Longrightarrow> fst (get q) = p \<and> items (snd (get q)) = ps"
    and items_remove: "items (snd (remove q p)) = removeAll p (items q)"
begin

fun puts :: "'q \<Rightarrow> ptr list \<Rightarrow> 'q" where
  "puts q [] = q"
| "puts q (p # ps) = puts (snd (put q p)) ps"

fun gets :: "nat \<Rightarrow> 'q \<Rightarrow> ptr list \<times> 'q" where
  "gets 0 q = ([], q)"
| "gets (Suc n) q = (fst (get q) # fst (gets n (snd (get q))), snd (gets n (snd (get q))))"

lemma items_puts: "items (puts q ps) = items q @ ps"
  by (induction ps arbitrary: q) (auto simp: items_put)

lemma gets_items: "items q = ps @ rest \<Longrightarrow>
    fst (gets (length ps) q) = ps \<and> items (snd (gets (length ps) q)) = rest"
  by (induction ps arbitrary: q) (auto simp: get_cons)

lemma fifo: "items q = [] \<Longrightarrow> fst (gets (length ps) (puts q ps)) = ps"
  using gets_items [of "puts q ps" ps "[]"] by (simp add: items_puts)

end

interpretation adaptq: fifo_queue aQput aQget aQremove "Q :: 'a adaptQ_scheme \<Rightarrow> ptr list"
  by unfold_locales (auto simp: adaptq_defs)

interpretation sharedq: fifo_queue aSQput aSQget aSQremove "Q :: 'a adaptSharedQ_scheme \<Rightarrow> ptr list"
  by unfold_locales (auto simp: sharedq_defs adaptq_defs Let_def split: list.splits)

end
