(* ===== verification/ThreadedQ.thy ===== *)
theory ThreadedQ
  imports AdaptQ
begin

section \<open>The message queue between threads (adapt/adaptThreadedSharedQ)\<close>

text \<open>
  \<open>adaptThreadedSharedQ\<close> is a monitor: a queue, a mutex and a condition variable, shared by any
  number of threads. A thread is a program counter in \<open>aTSQgetMsg\<close> or \<open>aTSQputMsg\<close>; a step is one
  thread passing one of the source's calls (lock, wait, signal, unlock) or one of its accesses to
  the queue. A sleeping thread may also wake spuriously, as \<open>pthread_cond_wait\<close> allows.

  \<^item> \<open>Outside\<close>: in neither function; \<open>GetLoop\<close>: at \<open>adaptLock\<close> of \<open>aTSQgetMsg\<close>; \<open>GetLocked\<close>: at the
    test for an empty queue; \<open>GetSleep\<close>, \<open>GetWoken\<close>: inside \<open>pthread_cond_wait\<close>, asleep or signalled
    and about to take the mutex again; \<open>GetRelocked\<close>: after the wait; \<open>GetPopped p\<close>: at \<open>adaptUnLock\<close>
    with \<open>p\<close> taken off the queue; \<open>GetTest p\<close>: at \<open>while (ptr == NULL)\<close>;
  \<^item> \<open>PutLoop p\<close>: at \<open>adaptLock\<close> of \<open>aTSQputMsg\<close>; \<open>PutLocked p\<close>: at \<open>aQput\<close>; \<open>PutPushed\<close>: at
    \<open>pthread_cond_signal\<close>; \<open>PutSignalled\<close>: at \<open>adaptUnLock\<close>.
\<close>

datatype tpc = Outside | GetLoop | GetLocked | GetSleep | GetWoken | GetRelocked
  | GetPopped ptr | GetTest ptr | PutLoop ptr | PutLocked ptr | PutPushed | PutSignalled

text \<open>\<open>putlog\<close> and \<open>poplog\<close> record the messages in the order they enter and leave the queue.\<close>

record monitor =
  mq :: adaptQ
  owner :: "nat option"
  pcs :: "tpc list"
  putlog :: "ptr list"
  poplog :: "ptr list"

definition monitor_init :: "int \<Rightarrow> nat \<Rightarrow> monitor" where
  "monitor_init t n = \<lparr>mq = adaptQ_new t, owner = None, pcs = replicate n Outside,
     putlog = [], poplog = []\<rparr>"

inductive mstep :: "nat \<Rightarrow> monitor \<Rightarrow> monitor \<Rightarrow> bool" where
  call_get: "i < length (pcs s) \<Longrightarrow> pcs s ! i = Outside \<Longrightarrow>
     mstep i s (s\<lparr>pcs := (pcs s)[i := GetLoop]\<rparr>)"
| get_lock: "i < length (pcs s) \<Longrightarrow> pcs s ! i = GetLoop \<Longrightarrow> owner s = None \<Longrightarrow>
     mstep i s (s\<lparr>owner := Some i, pcs := (pcs s)[i := GetLocked]\<rparr>)"
| get_wait: "i < length (pcs s) \<Longrightarrow> pcs s ! i = GetLocked \<Longrightarrow> Q (mq s) = [] \<Longrightarrow>
     mstep i s (s\<lparr>owner := None, pcs := (pcs s)[i := GetSleep]\<rparr>)"
| get_pop: "i < length (pcs s) \<Longrightarrow> pcs s ! i = GetLocked \<Longrightarrow> Q (mq s) = p # ps \<Longrightarrow>
     mstep i s (s\<lparr>mq := (mq s)\<lparr>Q := ps\<rparr>, poplog := poplog s @ [p],
       pcs := (pcs s)[i := GetPopped p]\<rparr>)"
| get_unlock: "i < length (pcs s) \<Longrightarrow> pcs s ! i = GetPopped p \<Longrightarrow>
     mstep i s (s\<lparr>owner := None, pcs := (pcs s)[i := GetTest p]\<rparr>)"
| wake: "i < length (pcs s) \<Longrightarrow> pcs s ! i = GetSleep \<Longrightarrow>
     mstep i s (s\<lparr>pcs := (pcs s)[i := GetWoken]\<rparr>)"
| relock: "i < length (pcs s) \<Longrightarrow> pcs s ! i = GetWoken \<Longrightarrow> owner s = None \<Longrightarrow>
     mstep i s (s\<lparr>owner := Some i, pcs := (pcs s)[i := GetRelocked]\<rparr>)"
| get_unlock_null: "i < length (pcs s) \<Longrightarrow> pcs s ! i = GetRelocked \<Longrightarrow>
     mstep i s (s\<lparr>owner := None, pcs := (pcs s)[i := GetTest NULL]\<rparr>)"
| get_again: "i < length (pcs s) \<Longrightarrow> pcs s ! i = GetTest NULL \<Longrightarrow>
     mstep i s (s\<lparr>pcs := (pcs s)[i := GetLoop]\<rparr>)"
| get_return: "i < length (pcs s) \<Longrightarrow> pcs s ! i = GetTest p \<Longrightarrow> p \<noteq> NULL \<Longrightarrow>
     mstep i s (s\<lparr>pcs := (pcs s)[i := Outside]\<rparr>)"
| call_put: "i < length (pcs s) \<Longrightarrow> pcs s ! i = Outside \<Longrightarrow>
     mstep i s (s\<lparr>pcs := (pcs s)[i := PutLoop p]\<rparr>)"
| put_lock: "i < length (pcs s) \<Longrightarrow> pcs s ! i = PutLoop p \<Longrightarrow> owner s = None \<Longrightarrow>
     mstep i s (s\<lparr>owner := Some i, pcs := (pcs s)[i := PutLocked p]\<rparr>)"
| put_push: "i < length (pcs s) \<Longrightarrow> pcs s ! i = PutLocked p \<Longrightarrow>
     mstep i s (s\<lparr>mq := snd (aQput (mq s) p), putlog := putlog s @ [p],
       pcs := (pcs s)[i := PutPushed]\<rparr>)"
| put_signal: "i < length (pcs s) \<Longrightarrow> pcs s ! i = PutPushed \<Longrightarrow>
     j < length (pcs s) \<Longrightarrow> pcs s ! j = GetSleep \<Longrightarrow>
     mstep i s (s\<lparr>pcs := (pcs s)[i := PutSignalled, j := GetWoken]\<rparr>)"
| put_signal_none: "i < length (pcs s) \<Longrightarrow> pcs s ! i = PutPushed \<Longrightarrow> GetSleep \<notin> set (pcs s) \<Longrightarrow>
     mstep i s (s\<lparr>pcs := (pcs s)[i := PutSignalled]\<rparr>)"
| put_unlock: "i < length (pcs s) \<Longrightarrow> pcs s ! i = PutSignalled \<Longrightarrow>
     mstep i s (s\<lparr>owner := None, pcs := (pcs s)[i := Outside]\<rparr>)"

inductive mreach :: "int \<Rightarrow> nat \<Rightarrow> monitor \<Rightarrow> bool" for t n where
  start: "mreach t n (monitor_init t n)"
| step: "mreach t n s \<Longrightarrow> mstep i s s' \<Longrightarrow> mreach t n s'"

subsection \<open>The monitor invariant\<close>

text \<open>The program points between a lock and the matching unlock.\<close>

fun in_critical :: "tpc \<Rightarrow> bool" where
  "in_critical GetLocked = True"
| "in_critical GetRelocked = True"
| "in_critical (GetPopped p) = True"
| "in_critical (PutLocked p) = True"
| "in_critical PutPushed = True"
| "in_critical PutSignalled = True"
| "in_critical _ = False"

text \<open>The program points of a reader that will look at the queue (again) before it returns.\<close>

fun awake :: "tpc \<Rightarrow> bool" where
  "awake GetLoop = True"
| "awake GetLocked = True"
| "awake GetWoken = True"
| "awake GetRelocked = True"
| "awake (GetPopped p) = (p = NULL)"
| "awake (GetTest p) = (p = NULL)"
| "awake _ = False"

definition count :: "(tpc \<Rightarrow> bool) \<Rightarrow> tpc list \<Rightarrow> nat" where
  "count P xs = length (filter P xs)"

lemma count_update: "i < length xs \<Longrightarrow>
    count P (xs[i := y]) + (if P (xs ! i) then 1 else 0) = count P xs + (if P y then 1 else 0)"
  unfolding count_def by (rule length_filter_update)

lemma count_upd: "i < length xs \<Longrightarrow>
    count P (xs[i := y]) = count P xs + (if P y then 1 else 0) - (if P (xs ! i) then 1 else 0)"
  using count_update [of i xs P y] by (auto split: if_splits)

lemma count_pos: "0 < count P xs \<longleftrightarrow> (\<exists>i < length xs. P (xs ! i))"
  by (auto simp: count_def filter_empty_conv in_set_conv_nth) (metis nth_mem)

definition mutex_inv :: "monitor \<Rightarrow> bool" where
  "mutex_inv s \<longleftrightarrow> (\<forall>i < length (pcs s). in_critical (pcs s ! i) \<longleftrightarrow> owner s = Some i)
     \<and> (\<forall>i. owner s = Some i \<longrightarrow> i < length (pcs s))"

definition log_inv :: "monitor \<Rightarrow> bool" where
  "log_inv s \<longleftrightarrow> putlog s = poplog s @ Q (mq s)"

definition wake_inv :: "monitor \<Rightarrow> bool" where
  "wake_inv s \<longleftrightarrow> (GetSleep \<in> set (pcs s) \<longrightarrow>
     length (Q (mq s)) \<le> count awake (pcs s) + count (\<lambda>c. c = PutPushed) (pcs s))"

lemma init_invs: "mutex_inv (monitor_init t n) \<and> log_inv (monitor_init t n) \<and> wake_inv (monitor_init t n)"
  by (auto simp: mutex_inv_def log_inv_def wake_inv_def monitor_init_def adaptQ_new_def)

lemma mstep_mutex: "mstep i s s' \<Longrightarrow> mutex_inv s \<Longrightarrow> mutex_inv s'"
  by (induction rule: mstep.induct) (auto simp: mutex_inv_def nth_list_update split: if_splits)

lemma mstep_log: "mstep i s s' \<Longrightarrow> log_inv s \<Longrightarrow> log_inv s'"
  by (induction rule: mstep.induct) (auto simp: log_inv_def aQput_def)

lemma sleep_update: "y \<noteq> GetSleep \<Longrightarrow> GetSleep \<in> set (xs[i := y]) \<Longrightarrow> GetSleep \<in> set xs"
  using set_update_subset_insert [of xs i y] by auto

lemma mstep_wake: "mstep i s s' \<Longrightarrow> wake_inv s \<Longrightarrow> wake_inv s'"
proof (induction rule: mstep.induct)
  case (put_signal i s j)
  then have "i \<noteq> j" by auto
  with put_signal show ?case
    by (auto simp: wake_inv_def count_upd dest!: sleep_update [rotated] nth_mem [of j "pcs s"])
next
  case (wake i s)
  then have "GetSleep \<in> set (pcs s)" by (metis nth_mem)
  with wake show ?case by (auto simp: wake_inv_def count_upd)
qed (auto simp: wake_inv_def aQput_def count_upd dest!: sleep_update [rotated] split: if_splits)

definition monitor_inv :: "monitor \<Rightarrow> bool" where
  "monitor_inv s \<longleftrightarrow> mutex_inv s \<and> log_inv s \<and> wake_inv s"

lemma mreach_inv: "mreach t n s \<Longrightarrow> monitor_inv s"
  by (induction rule: mreach.induct)
    (auto simp: monitor_inv_def init_invs intro: mstep_mutex mstep_log mstep_wake)

text \<open>A thread between lock and unlock is never stuck.\<close>

lemma holder_steps:
  assumes "i < length (pcs s)" "in_critical (pcs s ! i)"
  shows "\<exists>s'. mstep i s s'"
proof (cases "pcs s ! i")
  case GetLocked
  with assms show ?thesis
    by (cases "Q (mq s)") (blast intro: mstep.get_wait mstep.get_pop)+
next
  case PutPushed
  show ?thesis
  proof (cases "GetSleep \<in> set (pcs s)")
    case True
    then obtain j where "j < length (pcs s)" "pcs s ! j = GetSleep"
      by (auto simp: in_set_conv_nth)
    with PutPushed assms show ?thesis by (blast intro: mstep.put_signal)
  next
    case False
    with PutPushed assms show ?thesis by (blast intro: mstep.put_signal_none)
  qed
qed (use assms in \<open>auto intro: mstep.intros\<close>)

lemma awake_steps:
  "i < length (pcs s) \<Longrightarrow> awake (pcs s ! i) \<Longrightarrow> owner s = None \<or> in_critical (pcs s ! i) \<Longrightarrow> \<exists>s'. mstep i s s'"
  by (cases "pcs s ! i") (auto intro: mstep.get_lock mstep.relock mstep.get_again holder_steps)

inductive_cases return_cases: "mstep i s (s\<lparr>pcs := (pcs s)[i := Outside]\<rparr>)"
inductive_simps mreach_start: "mreach t n (monitor_init t n)"

subsection \<open>Properties\<close>

text \<open>
  C11: In every reachable state of a threaded queue at most one thread is between lock and unlock,
  and the messages ever put are those taken so far, in the same order, followed by those still in
  the queue: none is lost, duplicated or overtaken.
\<close>
theorem monitor_safe:
  assumes "mreach t n s"
  shows "(\<forall>i < length (pcs s). \<forall>j < length (pcs s).
      in_critical (pcs s ! i) \<and> in_critical (pcs s ! j) \<longrightarrow> i = j)
    \<and> putlog s = poplog s @ Q (mq s)"
  using mreach_inv [OF assms] by (auto simp: monitor_inv_def mutex_inv_def log_inv_def)

text \<open>A run of two threads: thread 0 goes to sleep in the empty queue, thread 1 puts message 7.\<close>

definition mon :: "tpc list \<Rightarrow> nat option \<Rightarrow> ptr list \<Rightarrow> monitor" where
  "mon ps ow ms = \<lparr>mq = \<lparr>Q = ms, qtype = 1\<rparr>, owner = ow, pcs = ps, putlog = ms, poplog = []\<rparr>"

lemma mon_run:
  "mreach 1 2 (mon [GetSleep, PutPushed] (Some 1) [7])"
proof -
  have m0: "mreach 1 2 (mon [Outside, Outside] None [])"
    using mreach.start [of 1 2]
    by (simp add: mon_def monitor_init_def adaptQ_new_def numeral_2_eq_2)
  have m1: "mreach 1 2 (mon [GetLoop, Outside] None [])"
    by (rule mreach.step [OF m0, of 0]) (use mstep.call_get [of 0 "mon [Outside, Outside] None []"] in \<open>simp add: mon_def\<close>)
  have m2: "mreach 1 2 (mon [GetLocked, Outside] (Some 0) [])"
    by (rule mreach.step [OF m1, of 0]) (use mstep.get_lock [of 0 "mon [GetLoop, Outside] None []"] in \<open>simp add: mon_def\<close>)
  have m3: "mreach 1 2 (mon [GetSleep, Outside] None [])"
    by (rule mreach.step [OF m2, of 0]) (use mstep.get_wait [of 0 "mon [GetLocked, Outside] (Some 0) []"] in \<open>simp add: mon_def\<close>)
  have m4: "mreach 1 2 (mon [GetSleep, PutLoop 7] None [])"
    by (rule mreach.step [OF m3, of 1]) (use mstep.call_put [of 1 "mon [GetSleep, Outside] None []" 7] in \<open>simp add: mon_def\<close>)
  have m5: "mreach 1 2 (mon [GetSleep, PutLocked 7] (Some 1) [])"
    by (rule mreach.step [OF m4, of 1]) (use mstep.put_lock [of 1 "mon [GetSleep, PutLoop 7] None []" 7] in \<open>simp add: mon_def\<close>)
  show ?thesis
    by (rule mreach.step [OF m5, of 1])
      (use mstep.put_push [of 1 "mon [GetSleep, PutLocked 7] (Some 1) []" 7] in \<open>simp add: mon_def aQput_def\<close>)
qed

theorem monitor_safe_witness:
  "mreach 1 2 (mon [GetSleep, PutPushed] (Some 1) [7])
   \<and> putlog (mon [GetSleep, PutPushed] (Some 1) [7]) = poplog (mon [GetSleep, PutPushed] (Some 1) [7]) @ [7]"
  using monitor_safe [OF mon_run] mon_run by (simp add: mon_def)

text \<open>
  C19: No wake-up is lost: in every reachable state where a reader sleeps although the queue holds a
  message, some thread that is neither asleep nor outside the queue can take a step, and either a
  reader is on its way to the queue or a writer is about to signal.
\<close>
theorem no_lost_wakeup:
  assumes "mreach t n s" and "GetSleep \<in> set (pcs s)" and "Q (mq s) \<noteq> []"
  shows "(\<exists>i < length (pcs s). awake (pcs s ! i) \<or> pcs s ! i = PutPushed)
    \<and> (\<exists>i s'. i < length (pcs s) \<and> (awake (pcs s ! i) \<or> in_critical (pcs s ! i)) \<and> mstep i s s')"
proof
  have inv: "mutex_inv s" "wake_inv s"
    using mreach_inv [OF assms(1)] by (auto simp: monitor_inv_def)
  have "0 < count awake (pcs s) + count (\<lambda>c. c = PutPushed) (pcs s)"
    using inv(2) assms(2,3) by (cases "Q (mq s)") (auto simp: wake_inv_def)
  then show ex: "\<exists>i < length (pcs s). awake (pcs s ! i) \<or> pcs s ! i = PutPushed"
    by (auto simp: count_pos)
  show "\<exists>i s'. i < length (pcs s) \<and> (awake (pcs s ! i) \<or> in_critical (pcs s ! i)) \<and> mstep i s s'"
  proof (cases "owner s")
    case None
    obtain i where i: "i < length (pcs s)" "awake (pcs s ! i) \<or> pcs s ! i = PutPushed"
      using ex by blast
    with inv(1) None have "awake (pcs s ! i)" by (auto simp: mutex_inv_def)
    with i(1) None awake_steps [of i s] show ?thesis by blast
  next
    case (Some k)
    with inv(1) have "k < length (pcs s)" "in_critical (pcs s ! k)" by (auto simp: mutex_inv_def)
    with holder_steps [of k s] show ?thesis by blast
  qed
qed

theorem no_lost_wakeup_witness:
  "\<exists>i s'. i < 2 \<and> mstep i (mon [GetSleep, PutPushed] (Some 1) [7]) s'"
proof -
  let ?s = "mon [GetSleep, PutPushed] (Some 1) [7]"
  have h: "GetSleep \<in> set (pcs ?s)" "Q (mq ?s) \<noteq> []" "length (pcs ?s) = 2"
    by (simp_all add: mon_def)
  show ?thesis using no_lost_wakeup [OF mon_run h(1,2)] h(3) by auto
qed

text \<open>
  \<open>aTSQgetMsg\<close> never returns NULL: a thread leaves the loop of \<open>aTSQgetMsg\<close> only with a message
  that is not NULL, and that message was taken off the queue under the mutex.
\<close>
theorem getMsg_returns_message:
  assumes "mstep i s s'" and "pcs s ! i = GetTest p" and "pcs s' ! i = Outside"
  shows "p \<noteq> NULL"
  using assms by (cases rule: mstep.cases) (auto split: if_splits)

theorem getMsg_returns_message_witness:
  "mstep 0 (mon [GetTest 7] None []) (mon [Outside] None []) \<and> (7 :: ptr) \<noteq> NULL"
proof -
  have step: "mstep 0 (mon [GetTest 7] None []) (mon [Outside] None [])"
    using mstep.get_return [of 0 "mon [GetTest 7] None []" 7] by (simp add: mon_def)
  with getMsg_returns_message [OF step, of 7] show ?thesis by (simp add: mon_def)
qed

end
