(* ===== verification/KVTable.thy ===== *)
theory KVTable
  imports AdaptQ "HOL-Library.Log_Nat"
begin

section \<open>The key/value hash table (ahashtable.h, ahashtable.cpp)\<close>

text \<open>
  Entries are \<open>malloc\<close>ed blocks: a \<open>KVdata\<close> header and, from \<open>data\<close> on, the key bytes, the value
  bytes and some slack. \<open>kvbytes\<close> is everything from \<open>data\<close> to the end of the block, so that a read
  past the block is visible. The store maps the address of a live block to its contents; a freed
  block is not in it.
\<close>

record KVdata =
  nxt :: ptr
  prv :: ptr
  kv_keylen :: u32
  kv_vallen :: u32
  kvbytes :: "char list"

type_synonym store = "ptr \<rightharpoonup> KVdata"

record aMsgHdrIN_t =
  hdr_key :: "char list"
  hdr_keylen :: int
  hdr_hashval :: u32
  hdr_KVdataptr :: ptr

record ahashtable =
  hashsize :: nat
  hashsize_power :: nat
  hashmask :: u32
  hash_lock_ratio :: nat
  hash_lock_ratio_power :: nat
  hash_lock_count :: nat
  hash_lock_mask :: u32
  hashtable :: "ptr list"
  hashtablelock :: "bool list"
  mem :: store

text \<open>\<open>(int) floor(log((float) n) / log(2.0))\<close>, in exact arithmetic.\<close>

definition floor_log2 :: "nat \<Rightarrow> nat" where
  "floor_log2 n = floorlog 2 n - 1"

definition ahashtable_new :: "nat \<Rightarrow> nat \<Rightarrow> ahashtable" where
  "ahashtable_new n ratio =
     (let power = floor_log2 n; ratio_power = floor_log2 ratio;
          lock_count = 2 ^ (power - ratio_power)
      in \<lparr>hashsize = n, hashsize_power = power, hashmask = of_nat n - 1,
          hash_lock_ratio = ratio, hash_lock_ratio_power = ratio_power,
          hash_lock_count = lock_count, hash_lock_mask = of_nat lock_count - 1,
          hashtable = replicate n NULL, hashtablelock = replicate lock_count False,
          mem = Map.empty\<rparr>)"

subsection \<open>Memory accesses\<close>

definition load :: "store \<Rightarrow> ptr \<Rightarrow> KVdata result" where
  "load m p = (case m p of Some n \<Rightarrow> Inr n
     | None \<Rightarrow> Inl (if p = NULL then NullDeref else UseAfterFree))"

definition update :: "store \<Rightarrow> ptr \<Rightarrow> (KVdata \<Rightarrow> KVdata) \<Rightarrow> store result" where
  "update m p f = rbind (load m p) (\<lambda>n. Inr (m(p \<mapsto> f n)))"

definition size_t_of_int :: "int \<Rightarrow> nat" where
  "size_t_of_int i = nat (i mod 2 ^ 64)"

subsection \<open>set\<close>

datatype walk = Found ptr | Last ptr

text \<open>The \<open>do ... while\<close> loop of \<open>set\<close>: an entry that matches, or the last entry of the bucket.\<close>

partial_function (option) set_walk :: "store \<Rightarrow> ptr \<Rightarrow> ptr \<Rightarrow> walk result option" where
  "set_walk m kv tmphead =
     (case load m kv of Inl e \<Rightarrow> Some (Inl e) | Inr k \<Rightarrow>
      (case load m tmphead of Inl e \<Rightarrow> Some (Inl e) | Inr t \<Rightarrow>
       (case strncmp_eq (unat (kv_keylen k)) (kvbytes k) (kvbytes t) of
          None \<Rightarrow> Some (Inl OutOfBounds)
        | Some b \<Rightarrow>
          (if b then Some (Inr (Found tmphead))
           else if nxt t \<noteq> NULL then set_walk m kv (nxt t)
           else Some (Inr (Last tmphead))))))"

text \<open>The duplicate branch: \<open>kv\<close> takes the place of \<open>old\<close> in the list, \<open>old\<close> is freed.\<close>

definition set_replace :: "ahashtable \<Rightarrow> nat \<Rightarrow> ptr \<Rightarrow> ptr \<Rightarrow> ptr \<Rightarrow> ahashtable result" where
  "set_replace h bucket head kv old =
     rbind (load (mem h) old) (\<lambda>t.
     rbind (update (mem h) kv (\<lambda>n. n\<lparr>prv := prv t, nxt := nxt t\<rparr>)) (\<lambda>m.
     rbind (if prv t \<noteq> NULL then update m (prv t) (\<lambda>n. n\<lparr>nxt := kv\<rparr>) else Inr m) (\<lambda>m.
     rbind (if nxt t \<noteq> NULL then update m (nxt t) (\<lambda>n. n\<lparr>prv := kv\<rparr>) else Inr m) (\<lambda>m.
     Inr (h\<lparr>hashtable := (if old = head then (hashtable h)[bucket := kv] else hashtable h),
            mem := m(old := None)\<rparr>)))))"

text \<open>The end of the list: \<open>kv\<close> is linked behind \<open>lst\<close>.\<close>

definition set_append :: "ahashtable \<Rightarrow> ptr \<Rightarrow> ptr \<Rightarrow> ahashtable result" where
  "set_append h kv lst =
     rbind (update (mem h) lst (\<lambda>n. n\<lparr>nxt := kv\<rparr>)) (\<lambda>m.
     rbind (update m kv (\<lambda>n. n\<lparr>prv := lst, nxt := NULL\<rparr>)) (\<lambda>m.
     Inr (h\<lparr>mem := m\<rparr>)))"

text \<open>The empty bucket.\<close>

definition set_head :: "ahashtable \<Rightarrow> nat \<Rightarrow> ptr \<Rightarrow> ahashtable result" where
  "set_head h bucket kv =
     rbind (update (mem h) kv (\<lambda>n. n\<lparr>nxt := NULL, prv := NULL\<rparr>)) (\<lambda>m.
     Inr (h\<lparr>hashtable := (hashtable h)[bucket := kv], mem := m\<rparr>))"

definition lock_bucket :: "ahashtable \<Rightarrow> nat \<Rightarrow> ahashtable result" where
  "lock_bucket h lock = (if lock < length (hashtablelock h)
     then Inr (h\<lparr>hashtablelock := (hashtablelock h)[lock := True]\<rparr>) else Inl OutOfBounds)"

definition unlock_bucket :: "nat \<Rightarrow> ahashtable \<Rightarrow> ahashtable" where
  "unlock_bucket lock h = h\<lparr>hashtablelock := (hashtablelock h)[lock := False]\<rparr>"

definition bucket_of :: "ahashtable \<Rightarrow> u32 \<Rightarrow> nat" where
  "bucket_of h hv = unat (hv AND hashmask h)"

definition lock_of :: "ahashtable \<Rightarrow> nat \<Rightarrow> nat" where
  "lock_of h bucket = unat (of_nat bucket AND hash_lock_mask h)"

text \<open>
  \<open>set\<close> as a whole. The head of the bucket is read before the lock is taken, as in the code.
  \<open>None\<close> means that the walk does not end.
\<close>

definition ahashtable_set :: "ahashtable \<Rightarrow> u32 \<Rightarrow> ptr \<Rightarrow> (int \<times> ahashtable) result option" where
  "ahashtable_set h hv kv =
     (let bucket = bucket_of h hv; lock = lock_of h bucket in
      if length (hashtable h) \<le> bucket then Some (Inl OutOfBounds)
      else (let head = hashtable h ! bucket in
       case lock_bucket h lock of Inl e \<Rightarrow> Some (Inl e) | Inr h \<Rightarrow>
       (if head \<noteq> NULL then
          (case set_walk (mem h) kv head of None \<Rightarrow> None
           | Some (Inl e) \<Rightarrow> Some (Inl e)
           | Some (Inr (Found old)) \<Rightarrow>
               Some (rbind (set_replace h bucket head kv old) (\<lambda>h. Inr (0, unlock_bucket lock h)))
           | Some (Inr (Last lst)) \<Rightarrow>
               Some (rbind (set_append h kv lst) (\<lambda>h. Inr (0, unlock_bucket lock h))))
        else Some (rbind (set_head h bucket kv) (\<lambda>h. Inr (0, unlock_bucket lock h))))))"

subsection \<open>get\<close>

partial_function (option) get_walk :: "store \<Rightarrow> aMsgHdrIN_t \<Rightarrow> ptr \<Rightarrow> ptr result option" where
  "get_walk m hdr tmphead =
     (case load m tmphead of Inl e \<Rightarrow> Some (Inl e) | Inr t \<Rightarrow>
      (case strncmp_eq (size_t_of_int (hdr_keylen hdr)) (hdr_key hdr) (kvbytes t) of
         None \<Rightarrow> Some (Inl OutOfBounds)
       | Some b \<Rightarrow>
         (if b then Some (Inr tmphead)
          else if nxt t \<noteq> NULL then get_walk m hdr (nxt t)
          else Some (Inr NULL))))"

text \<open>
  \<open>get\<close>: 0 and the entry in the message header, or -1. The table changes only in its lock, which is
  taken and released.
\<close>

definition ahashtable_get :: "ahashtable \<Rightarrow> aMsgHdrIN_t \<Rightarrow>
    (int \<times> aMsgHdrIN_t \<times> ahashtable) result option" where
  "ahashtable_get h hdr =
     (let bucket = bucket_of h (hdr_hashval hdr); lock = lock_of h bucket in
      if length (hashtable h) \<le> bucket then Some (Inl OutOfBounds)
      else (let head = hashtable h ! bucket in
       case lock_bucket h lock of Inl e \<Rightarrow> Some (Inl e) | Inr h \<Rightarrow>
       (if head \<noteq> NULL then
          (case get_walk (mem h) hdr head of None \<Rightarrow> None
           | Some (Inl e) \<Rightarrow> Some (Inl e)
           | Some (Inr p) \<Rightarrow>
               (if p \<noteq> NULL then Some (Inr (0, hdr\<lparr>hdr_KVdataptr := p\<rparr>, unlock_bucket lock h))
                else Some (Inr (- 1, hdr, unlock_bucket lock h))))
        else Some (Inr (- 1, hdr, unlock_bucket lock h)))))"

subsection \<open>The list in a bucket\<close>

text \<open>
  \<open>dll m ps\<close>: the blocks \<open>ps\<close> are live, distinct, and doubly linked in this order, from NULL to
  NULL.
\<close>

definition dll :: "store \<Rightarrow> ptr list \<Rightarrow> bool" where
  "dll m ps \<longleftrightarrow> distinct ps \<and> NULL \<notin> set ps \<and>
     (\<forall>i < length ps. \<exists>n. m (ps ! i) = Some n
        \<and> prv n = (if i = 0 then NULL else ps ! (i - 1))
        \<and> nxt n = (if Suc i < length ps then ps ! Suc i else NULL))"

lemma dllD:
  assumes "dll m ps" "i < length ps"
  obtains n where "m (ps ! i) = Some n" "ps ! i \<noteq> NULL"
    "prv n = (if i = 0 then NULL else ps ! (i - 1))"
    "nxt n = (if Suc i < length ps then ps ! Suc i else NULL)"
  using assms unfolding dll_def by (metis nth_mem)

lemma dll_cong: "(\<And>p. p \<in> set ps \<Longrightarrow> m p = m' p) \<Longrightarrow> dll m ps \<Longrightarrow> dll m' ps"
  unfolding dll_def by (metis nth_mem)

lemma dll_nth_pos: "dll m ps \<Longrightarrow> i < length ps \<Longrightarrow> 0 < ps ! i"
  unfolding dll_def by (metis gr0I nth_mem)

lemma nth_eq_last: "Suc j = length ps \<Longrightarrow> ps ! j = last ps"
  by (metis One_nat_def Zero_not_Suc diff_Suc_1 last_conv_nth list.size(3))

definition head_of :: "ptr list \<Rightarrow> ptr" where
  "head_of ps = (case ps of [] \<Rightarrow> NULL | p # _ \<Rightarrow> p)"

text \<open>What a block holds for the table, links apart.\<close>

type_synonym entry = "u32 \<times> u32 \<times> char list"

definition entry_of :: "KVdata \<Rightarrow> entry" where
  "entry_of n = (kv_keylen n, kv_vallen n, kvbytes n)"

definition entries :: "store \<Rightarrow> ptr list \<Rightarrow> entry list" where
  "entries m ps = map (\<lambda>p. entry_of (the (m p))) ps"

text \<open>
  A block is well formed when its data region holds the key and ends in a NUL somewhere, so that no
  comparison runs past it.
\<close>

fun entry_ok :: "entry \<Rightarrow> bool" where
  "entry_ok (kl, vl, bs) \<longleftrightarrow> unat kl \<le> length bs \<and> NUL \<in> set bs"

fun matches :: "nat \<Rightarrow> char list \<Rightarrow> entry \<Rightarrow> bool" where
  "matches n key (kl, vl, bs) \<longleftrightarrow> strncmp_eq n key bs = Some True"

subsection \<open>The walks\<close>

text \<open>The first position from \<open>j\<close> on whose entry satisfies \<open>P\<close>.\<close>

fun first_from :: "(entry \<Rightarrow> bool) \<Rightarrow> nat \<Rightarrow> entry list \<Rightarrow> nat option" where
  "first_from P j [] = None"
| "first_from P j (e # es) = (if P e then Some j else first_from P (Suc j) es)"

lemma first_from_SomeD: "first_from P j es = Some i \<Longrightarrow> j \<le> i \<and> i < j + length es \<and> P (es ! (i - j))
    \<and> (\<forall>k. j \<le> k \<and> k < i \<longrightarrow> \<not> P (es ! (k - j)))"
proof (induction es arbitrary: j)
  case (Cons e es)
  show ?case
  proof (cases "P e")
    case True
    with Cons.prems show ?thesis by auto
  next
    case False
    with Cons.prems Cons.IH [of "Suc j"] show ?thesis
      by (auto simp: nth_Cons' Suc_le_eq)
  qed
qed simp

lemma first_from_NoneD: "first_from P j es = None \<longleftrightarrow> (\<forall>e \<in> set es. \<not> P e)"
  by (induction es arbitrary: j) auto

lemma load_Some [store_simps]: "m p = Some n \<Longrightarrow> load m p = Inr n"
  by (simp add: load_def)

lemma update_Some [store_simps]: "m p = Some n \<Longrightarrow> update m p f = Inr (m(p \<mapsto> f n))"
  by (simp add: update_def load_def)

lemma drop_entries: "entries m (drop j ps) = drop j (entries m ps)"
  by (simp add: entries_def drop_map)

lemma get_walk_dll:
  assumes "dll m ps" "\<forall>e \<in> set (entries m ps). entry_ok e"
    and "size_t_of_int (hdr_keylen hdr) \<le> length (hdr_key hdr) \<or> NUL \<in> set (hdr_key hdr)"
    and "j < length ps"
  shows "get_walk m hdr (ps ! j) = Some (Inr
    (case first_from (matches (size_t_of_int (hdr_keylen hdr)) (hdr_key hdr)) j (drop j (entries m ps)) of
       None \<Rightarrow> NULL | Some i \<Rightarrow> ps ! i))"
  using assms(4)
proof (induction "length ps - j" arbitrary: j)
  case 0
  then show ?case by simp
next
  case (Suc x)
  obtain n where n: "m (ps ! j) = Some n" "ps ! j \<noteq> NULL"
    "nxt n = (if Suc j < length ps then ps ! Suc j else NULL)"
    using dllD [OF assms(1) Suc.prems] by metis
  have e: "drop j (entries m ps) = entry_of n # drop (Suc j) (entries m ps)"
    using Suc.prems n by (simp add: entries_def drop_map Cons_nth_drop_Suc [symmetric])
  have "entry_of n \<in> set (entries m ps)"
    using e by (metis in_set_dropD list.set_intros(1))
  with assms(2) have ok: "NUL \<in> set (kvbytes n)" by (auto simp: entry_of_def)
  obtain b where b: "strncmp_eq (size_t_of_int (hdr_keylen hdr)) (hdr_key hdr) (kvbytes n) = Some b"
    using strncmp_eq_total [OF assms(3)] ok by blast
  show ?case
  proof (cases "b \<or> \<not> Suc j < length ps")
    case True
    then have "\<not> b \<Longrightarrow> drop (Suc j) (entries m ps) = []" by (simp add: entries_def)
    with True show ?thesis using n b e
      by (subst get_walk.simps) (auto simp: store_simps entry_of_def)
  next
    case False
    moreover have "ps ! Suc j \<noteq> NULL" using False dll_nth_pos [OF assms(1)] by simp
    ultimately show ?thesis using n b e Suc.hyps(1) [of "Suc j"] Suc.hyps(2)
      by (subst get_walk.simps) (auto simp: store_simps entry_of_def)
  qed
qed

lemma set_walk_dll:
  assumes "dll m ps" "\<forall>e \<in> set (entries m ps). entry_ok e"
    and "m kv = Some k" "entry_ok (entry_of k)" and "j < length ps"
  shows "set_walk m kv (ps ! j) = Some (Inr
    (case first_from (matches (unat (kv_keylen k)) (kvbytes k)) j (drop j (entries m ps)) of
       None \<Rightarrow> Last (last ps) | Some i \<Rightarrow> Found (ps ! i)))"
  using assms(5)
proof (induction "length ps - j" arbitrary: j)
  case 0
  then show ?case by simp
next
  case (Suc x)
  obtain n where n: "m (ps ! j) = Some n" "ps ! j \<noteq> NULL"
    "nxt n = (if Suc j < length ps then ps ! Suc j else NULL)"
    using dllD [OF assms(1) Suc.prems] by metis
  have e: "drop j (entries m ps) = entry_of n # drop (Suc j) (entries m ps)"
    using Suc.prems n by (simp add: entries_def drop_map Cons_nth_drop_Suc [symmetric])
  have "entry_of n \<in> set (entries m ps)"
    using e by (metis in_set_dropD list.set_intros(1))
  with assms(2) have ok: "NUL \<in> set (kvbytes n)" by (auto simp: entry_of_def)
  obtain b where b: "strncmp_eq (unat (kv_keylen k)) (kvbytes k) (kvbytes n) = Some b"
    using strncmp_eq_total [of "unat (kv_keylen k)" "kvbytes k" "kvbytes n"] ok assms(4)
    by (auto simp: entry_of_def)
  show ?case
  proof (cases "b \<or> \<not> Suc j < length ps")
    case True
    then have "\<not> b \<Longrightarrow> ps ! j = last ps \<and> drop (Suc j) (entries m ps) = []"
      using Suc.prems by (cases "Suc j = length ps") (auto simp: nth_eq_last entries_def)
    then show ?thesis using n b e assms(3) True
      by (subst set_walk.simps) (auto simp: store_simps entry_of_def)
  next
    case False
    moreover have "ps ! Suc j \<noteq> NULL" using False dll_nth_pos [OF assms(1)] by simp
    ultimately show ?thesis using n b e assms(3) Suc.hyps(1) [of "Suc j"] Suc.hyps(2)
      by (subst set_walk.simps) (auto simp: store_simps entry_of_def)
  qed
qed

end
