(* ===== verification/KVRefine.thy ===== *)
theory KVRefine
  imports KVTable
begin

section \<open>The hash table refines a map from buckets to entry lists\<close>

text \<open>
  The three ways in which \<open>set\<close> changes a bucket (take the place of an entry, go behind the last
  one, start the list) keep the bucket a doubly linked list and leave every other block as it
  was. From these facts: \<open>set\<close> and \<open>get\<close> implement \<open>bucket_put\<close> and the search for the first match,
  the contract \<open>bucket_store\<close>, under which a \<open>get\<close> after a \<open>set\<close> returns what was stored.
\<close>

subsection \<open>Relinking\<close>

definition relinked :: "store \<Rightarrow> ptr list \<Rightarrow> nat \<Rightarrow> ptr \<Rightarrow> KVdata \<Rightarrow> store" where
  "relinked m ps j kv k = (\<lambda>p.
     if p = ps ! j then None
     else if p = kv then Some (k\<lparr>prv := (if j = 0 then NULL else ps ! (j - 1)),
                                 nxt := (if Suc j < length ps then ps ! Suc j else NULL)\<rparr>)
     else if 0 < j \<and> p = ps ! (j - 1) then map_option (nxt_update (\<lambda>_. kv)) (m p)
     else if Suc j < length ps \<and> p = ps ! Suc j then map_option (prv_update (\<lambda>_. kv)) (m p)
     else m p)"

lemma head_of_nth: "j < length ps \<Longrightarrow> distinct ps \<Longrightarrow> ps ! j = head_of ps \<longleftrightarrow> j = 0"
  by (cases ps; cases j) (auto simp: head_of_def)

text \<open>The pointer assignments of the duplicate branch, for links that do not alias.\<close>

lemma set_replace_run:
  assumes "mem h old = Some t" "mem h kv = Some k" "old \<noteq> kv"
    and "prv t \<noteq> 0 \<Longrightarrow> \<exists>a. mem h (prv t) = Some a \<and> prv t \<noteq> kv \<and> prv t \<noteq> old \<and> prv t \<noteq> nxt t"
    and "nxt t \<noteq> 0 \<Longrightarrow> \<exists>a. mem h (nxt t) = Some a \<and> nxt t \<noteq> kv \<and> nxt t \<noteq> old"
  shows "set_replace h b head kv old =
    Inr (h\<lparr>hashtable := (if old = head then (hashtable h)[b := kv] else hashtable h),
       mem := (\<lambda>p. if p = old then None else if p = kv then Some (k\<lparr>prv := prv t, nxt := nxt t\<rparr>)
         else if prv t \<noteq> 0 \<and> p = prv t then map_option (nxt_update (\<lambda>_. kv)) (mem h p)
         else if nxt t \<noteq> 0 \<and> p = nxt t then map_option (prv_update (\<lambda>_. kv)) (mem h p)
         else mem h p)\<rparr>)"
proof (cases "prv t = 0"; cases "nxt t = 0")
  assume "prv t = 0" "nxt t = 0"
  with assms(1-3) show ?thesis
    by (simp add: set_replace_def load_Some update_Some) (simp add: fun_eq_iff)
next
  assume c: "prv t = 0" "nxt t \<noteq> 0"
  then obtain a where "mem h (nxt t) = Some a" "nxt t \<noteq> kv" "nxt t \<noteq> old" using assms(5) by blast
  with c assms(1-3) show ?thesis
    by (simp add: set_replace_def load_Some update_Some) (auto simp: fun_eq_iff)
next
  assume c: "prv t \<noteq> 0" "nxt t = 0"
  then obtain a where "mem h (prv t) = Some a" "prv t \<noteq> kv" "prv t \<noteq> old" using assms(4) by blast
  with c assms(1-3) show ?thesis
    by (simp add: set_replace_def load_Some update_Some) (auto simp: fun_eq_iff)
next
  assume c: "prv t \<noteq> 0" "nxt t \<noteq> 0"
  then obtain a a' where "mem h (prv t) = Some a" "prv t \<noteq> kv" "prv t \<noteq> old" "prv t \<noteq> nxt t"
    "mem h (nxt t) = Some a'" "nxt t \<noteq> kv" "nxt t \<noteq> old" using assms(4,5) by blast
  with c assms(1-3) show ?thesis
    by (simp add: set_replace_def load_Some update_Some) (auto simp: fun_eq_iff)
qed

lemma set_replace_eq:
  assumes "dll (mem h) ps" "j < length ps" "mem h kv = Some k" "kv \<notin> set ps"
  shows "set_replace h b (head_of ps) kv (ps ! j) =
    Inr (h\<lparr>hashtable := (if j = 0 then (hashtable h)[b := kv] else hashtable h),
           mem := relinked (mem h) ps j kv k\<rparr>)"
proof -
  have d: "distinct ps" using assms(1) by (simp add: dll_def)
  obtain t where t: "mem h (ps ! j) = Some t" "prv t = (if j = 0 then NULL else ps ! (j - 1))"
    "nxt t = (if Suc j < length ps then ps ! Suc j else NULL)"
    using dllD [OF assms(1,2)] by metis
  have kv: "ps ! i \<noteq> kv" if "i < length ps" for i using assms(4) that nth_mem by metis
  have live: "\<exists>n. mem h (ps ! i) = Some n" if "i < length ps" for i using dllD [OF assms(1) that] by metis
  have p: "prv t \<noteq> 0 \<longleftrightarrow> 0 < j" using t(2) assms(2) dll_nth_pos [OF assms(1), of "j - 1"] by auto
  have n: "nxt t \<noteq> 0 \<longleftrightarrow> Suc j < length ps" using t(3) dll_nth_pos [OF assms(1), of "Suc j"] by auto
  have "set_replace h b (head_of ps) kv (ps ! j) =
    Inr (h\<lparr>hashtable := (if ps ! j = head_of ps then (hashtable h)[b := kv] else hashtable h),
       mem := (\<lambda>p. if p = ps ! j then None else if p = kv then Some (k\<lparr>prv := prv t, nxt := nxt t\<rparr>)
         else if prv t \<noteq> 0 \<and> p = prv t then map_option (nxt_update (\<lambda>_. kv)) (mem h p)
         else if nxt t \<noteq> 0 \<and> p = nxt t then map_option (prv_update (\<lambda>_. kv)) (mem h p)
         else mem h p)\<rparr>)"
  proof (rule set_replace_run [OF t(1) assms(3) kv [OF assms(2)]])
    assume "prv t \<noteq> 0"
    with p t(2) have i: "prv t = ps ! (j - 1)" "j - 1 < length ps" "0 < j" using assms(2) by auto
    then show "\<exists>a. mem h (prv t) = Some a \<and> prv t \<noteq> kv \<and> prv t \<noteq> ps ! j \<and> prv t \<noteq> nxt t"
      using live kv t(3) d assms(2) n p by (auto simp: nth_eq_iff_index_eq)
  next
    assume "nxt t \<noteq> 0"
    with n t(3) have i: "nxt t = ps ! Suc j" "Suc j < length ps" by auto
    then show "\<exists>a. mem h (nxt t) = Some a \<and> nxt t \<noteq> kv \<and> nxt t \<noteq> ps ! j"
      using live kv d by (auto simp: nth_eq_iff_index_eq)
  qed
  also have "(\<lambda>p. if p = ps ! j then None else if p = kv then Some (k\<lparr>prv := prv t, nxt := nxt t\<rparr>)
         else if prv t \<noteq> 0 \<and> p = prv t then map_option (nxt_update (\<lambda>_. kv)) (mem h p)
         else if nxt t \<noteq> 0 \<and> p = nxt t then map_option (prv_update (\<lambda>_. kv)) (mem h p)
         else mem h p) = relinked (mem h) ps j kv k"
    unfolding relinked_def p n using t(2,3) by (auto simp: fun_eq_iff)
  finally show ?thesis by (simp add: head_of_nth [OF assms(2) d])
qed

lemma relinked_nth:
  assumes "dll m ps" "j < length ps" "kv \<notin> set ps" "i < length ps" "i \<noteq> j" "m (ps ! i) = Some n"
  shows "relinked m ps j kv k (ps ! i) =
    Some (if Suc i = j then n\<lparr>nxt := kv\<rparr> else if i = Suc j then n\<lparr>prv := kv\<rparr> else n)"
proof -
  have d: "distinct ps" using assms(1) by (simp add: dll_def)
  have "ps ! i \<noteq> kv" using assms(3,4) nth_mem by metis
  then show ?thesis
    using assms(2,4-6) d
    by (auto simp: relinked_def nth_eq_iff_index_eq)
qed

lemma relinked_dll:
  assumes "dll m ps" "j < length ps" "kv \<notin> set ps" "0 < kv"
  shows "dll (relinked m ps j kv k) (ps[j := kv])"
  unfolding dll_def
proof (intro conjI allI impI)
  show "distinct (ps[j := kv])"
    using assms by (simp add: dll_def distinct_list_update)
  show "NULL \<notin> set (ps[j := kv])"
    using assms set_update_subset_insert [of ps j kv] by (auto simp: dll_def)
  fix i assume i: "i < length (ps[j := kv])"
  show "\<exists>n. relinked m ps j kv k (ps[j := kv] ! i) = Some n
      \<and> prv n = (if i = 0 then NULL else ps[j := kv] ! (i - 1))
      \<and> nxt n = (if Suc i < length (ps[j := kv]) then ps[j := kv] ! Suc i else NULL)"
  proof (cases "i = j")
    case True
    have "kv \<noteq> ps ! j" using assms(2,3) nth_mem by metis
    with True i show ?thesis by (auto simp: relinked_def)
  next
    case False
    obtain n where n: "m (ps ! i) = Some n" "prv n = (if i = 0 then NULL else ps ! (i - 1))"
      "nxt n = (if Suc i < length ps then ps ! Suc i else NULL)"
      using dllD [OF assms(1)] i by (metis length_list_update)
    have "relinked m ps j kv k (ps ! i) =
        Some (if Suc i = j then n\<lparr>nxt := kv\<rparr> else if i = Suc j then n\<lparr>prv := kv\<rparr> else n)"
      using relinked_nth [OF assms(1-3) _ False n(1)] i by simp
    moreover have "Suc i = j \<Longrightarrow> Suc i < length ps" using assms(2) by simp
    ultimately show ?thesis using False i n(2,3) by (auto simp: nth_list_update)
  qed
qed

lemma entry_of_links [simp]: "entry_of (n\<lparr>prv := p\<rparr>) = entry_of n" "entry_of (n\<lparr>nxt := p\<rparr>) = entry_of n"
  by (simp_all add: entry_of_def)

lemma relinked_entries:
  assumes "dll m ps" "j < length ps" "kv \<notin> set ps"
  shows "entries (relinked m ps j kv k) (ps[j := kv]) = (entries m ps)[j := entry_of k]"
proof (rule nth_equalityI)
  fix i assume "i < length (entries (relinked m ps j kv k) (ps[j := kv]))"
  then have i: "i < length ps" by (simp add: entries_def)
  show "entries (relinked m ps j kv k) (ps[j := kv]) ! i = (entries m ps)[j := entry_of k] ! i"
  proof (cases "i = j")
    case True
    have "kv \<noteq> ps ! j" using assms(2,3) nth_mem by metis
    with True i show ?thesis by (simp add: entries_def relinked_def)
  next
    case False
    obtain n where n: "m (ps ! i) = Some n" using dllD [OF assms(1) i] by metis
    with relinked_nth [OF assms i False n] False i show ?thesis
      by (auto simp: entries_def)
  qed
qed (simp add: entries_def)

lemma relinked_other:
  assumes "j < length ps" "p \<notin> set ps" "p \<noteq> kv"
  shows "relinked m ps j kv k p = m p"
proof -
  have "p \<noteq> ps ! i" if "i < length ps" for i using assms(2) that nth_mem by metis
  from this [of j] this [of "j - 1"] this [of "Suc j"] assms(1,3) show ?thesis
    by (auto simp: relinked_def)
qed

subsection \<open>Appending\<close>

definition appended :: "store \<Rightarrow> ptr list \<Rightarrow> ptr \<Rightarrow> KVdata \<Rightarrow> store" where
  "appended m ps kv k = (if ps = [] then m(kv \<mapsto> k\<lparr>nxt := NULL, prv := NULL\<rparr>)
     else m(last ps \<mapsto> (the (m (last ps)))\<lparr>nxt := kv\<rparr>, kv \<mapsto> k\<lparr>prv := last ps, nxt := NULL\<rparr>))"

lemma set_append_eq:
  assumes "dll (mem h) ps" "ps \<noteq> []" "mem h kv = Some k" "kv \<notin> set ps"
  shows "set_append h kv (last ps) = Inr (h\<lparr>mem := appended (mem h) ps kv k\<rparr>)"
proof -
  have "length ps - 1 < length ps" using assms(2) by simp
  from dllD [OF assms(1) this] obtain n where n: "mem h (last ps) = Some n"
    using assms(2) by (metis last_conv_nth)
  moreover have "last ps \<noteq> kv" using assms(2,4) last_in_set by metis
  ultimately show ?thesis
    using assms(2,3) by (simp add: set_append_def appended_def store_simps)
qed

lemma set_head_eq:
  "mem h kv = Some k \<Longrightarrow> set_head h b kv =
     Inr (h\<lparr>hashtable := (hashtable h)[b := kv], mem := appended (mem h) [] kv k\<rparr>)"
  by (simp add: set_head_def appended_def store_simps)

lemma appended_nth:
  assumes "dll m ps" "kv \<notin> set ps" "i < length ps" "m (ps ! i) = Some n"
  shows "appended m ps kv k (ps ! i) = Some (if Suc i = length ps then n\<lparr>nxt := kv\<rparr> else n)"
proof -
  have l: "last ps = ps ! (length ps - 1)" using assms(3) by (cases ps) (auto simp: last_conv_nth)
  have "ps ! i = last ps \<longleftrightarrow> Suc i = length ps"
    using assms(1,3) unfolding l by (auto simp: dll_def nth_eq_iff_index_eq)
  moreover have "ps ! i \<noteq> kv" using assms(2,3) nth_mem by metis
  ultimately show ?thesis using assms(3,4) by (auto simp: appended_def)
qed

lemma appended_dll:
  assumes "dll m ps" "kv \<notin> set ps" "0 < kv"
  shows "dll (appended m ps kv k) (ps @ [kv])"
  unfolding dll_def
proof (intro conjI allI impI)
  show "distinct (ps @ [kv])" "NULL \<notin> set (ps @ [kv])" using assms by (auto simp: dll_def)
  fix i assume i: "i < length (ps @ [kv])"
  show "\<exists>n. appended m ps kv k ((ps @ [kv]) ! i) = Some n
      \<and> prv n = (if i = 0 then NULL else (ps @ [kv]) ! (i - 1))
      \<and> nxt n = (if Suc i < length (ps @ [kv]) then (ps @ [kv]) ! Suc i else NULL)"
  proof (cases "i < length ps")
    case True
    obtain n where n: "m (ps ! i) = Some n" "prv n = (if i = 0 then NULL else ps ! (i - 1))"
      "nxt n = (if Suc i < length ps then ps ! Suc i else NULL)"
      using dllD [OF assms(1) True] by metis
    from appended_nth [OF assms(1,2) True n(1)] n(2,3) True show ?thesis
      by (auto simp: nth_append)
  next
    case False
    with i have "i = length ps" by simp
    then show ?thesis by (cases "ps = []") (auto simp: appended_def nth_append last_conv_nth)
  qed
qed

lemma appended_entries:
  assumes "dll m ps" "kv \<notin> set ps"
  shows "entries (appended m ps kv k) (ps @ [kv]) = entries m ps @ [entry_of k]"
proof (rule nth_equalityI)
  fix i assume "i < length (entries (appended m ps kv k) (ps @ [kv]))"
  then have i: "i < Suc (length ps)" by (simp add: entries_def)
  show "entries (appended m ps kv k) (ps @ [kv]) ! i = (entries m ps @ [entry_of k]) ! i"
  proof (cases "i < length ps")
    case True
    obtain n where n: "m (ps ! i) = Some n" using dllD [OF assms(1) True] by metis
    from appended_nth [OF assms True n] n True show ?thesis
      by (auto simp: entries_def nth_append)
  next
    case False
    with i have "i = length ps" by simp
    then show ?thesis by (simp add: entries_def nth_append appended_def)
  qed
qed (simp add: entries_def)

lemma appended_other: "p \<notin> set ps \<Longrightarrow> p \<noteq> kv \<Longrightarrow> appended m ps kv k p = m p"
  using last_in_set [of ps] by (auto simp: appended_def)

subsection \<open>The contract\<close>

text \<open>
  An abstract bucket is the list of its blocks with what they hold. \<open>set\<close> puts a block in the
  place of the first entry that matches, or behind the last; \<open>get\<close> finds the first that matches.
\<close>

type_synonym bucket = "(ptr \<times> entry) list"

fun bucket_put :: "(entry \<Rightarrow> bool) \<Rightarrow> ptr \<times> entry \<Rightarrow> bucket \<Rightarrow> bucket" where
  "bucket_put P x [] = [x]"
| "bucket_put P x (y # ys) = (if P (snd y) then x # ys else y # bucket_put P x ys)"

fun bucket_get :: "(entry \<Rightarrow> bool) \<Rightarrow> bucket \<Rightarrow> ptr" where
  "bucket_get P [] = NULL"
| "bucket_get P (y # ys) = (if P (snd y) then fst y else bucket_get P ys)"

fun set_key :: "entry \<Rightarrow> entry \<Rightarrow> bool" where
  "set_key (kl, vl, bs) = matches (unat kl) bs"

definition get_key :: "aMsgHdrIN_t \<Rightarrow> entry \<Rightarrow> bool" where
  "get_key hdr = matches (size_t_of_int (hdr_keylen hdr)) (hdr_key hdr)"

definition key_readable :: "aMsgHdrIN_t \<Rightarrow> bool" where
  "key_readable hdr \<longleftrightarrow>
     size_t_of_int (hdr_keylen hdr) \<le> length (hdr_key hdr) \<or> NUL \<in> set (hdr_key hdr)"

lemma bucket_put_first_from:
  "bucket_put P x ys = (case first_from P 0 (map snd ys) of None \<Rightarrow> ys @ [x] | Some i \<Rightarrow> ys[i := x])"
proof -
  have "first_from P (Suc j) es = map_option Suc (first_from P j es)" for j es
    by (induction es arbitrary: j) auto
  then show ?thesis by (induction ys) (auto split: option.splits)
qed

lemma bucket_get_first_from:
  "bucket_get P ys = (case first_from P 0 (map snd ys) of None \<Rightarrow> NULL | Some i \<Rightarrow> fst (ys ! i))"
proof -
  have "first_from P (Suc j) es = map_option Suc (first_from P j es)" for j es
    by (induction es arbitrary: j) auto
  then show ?thesis by (induction ys) (auto split: option.splits)
qed

lemma bucket_get_put_same: "P (snd x) \<Longrightarrow> bucket_get P (bucket_put P x ys) = fst x"
  by (induction ys) auto

lemma bucket_get_put_other:
  "\<not> P' (snd x) \<Longrightarrow> (\<And>e. P e \<Longrightarrow> \<not> P' e) \<Longrightarrow> bucket_get P' (bucket_put P x ys) = bucket_get P' ys"
  by (induction ys) auto

lemma set_bucket_put: "set (bucket_put P x ys) \<subseteq> insert x (set ys)"
  by (induction ys) auto

definition get_result :: "aMsgHdrIN_t \<Rightarrow> ptr \<Rightarrow> 'h \<Rightarrow> int \<times> aMsgHdrIN_t \<times> 'h" where
  "get_result hdr q h = (if q = NULL then (- 1, hdr, h) else (0, hdr\<lparr>hdr_KVdataptr := q\<rparr>, h))"

locale bucket_store =
  fixes rel :: "'h \<Rightarrow> (nat \<Rightarrow> bucket) \<Rightarrow> bool"
    and block :: "'h \<Rightarrow> ptr \<Rightarrow> entry option"
    and bkt :: "'h \<Rightarrow> u32 \<Rightarrow> nat"
    and put :: "'h \<Rightarrow> u32 \<Rightarrow> ptr \<Rightarrow> (int \<times> 'h) result option"
    and get :: "'h \<Rightarrow> aMsgHdrIN_t \<Rightarrow> (int \<times> aMsgHdrIN_t \<times> 'h) result option"
  assumes put_law: "rel h A \<Longrightarrow> block h p = Some e \<Longrightarrow> entry_ok e \<Longrightarrow> p \<noteq> NULL \<Longrightarrow>
      (\<And>b. p \<notin> fst ` set (A b)) \<Longrightarrow> \<exists>h'. put h hv p = Some (Inr (0, h'))
        \<and> rel h' (A(bkt h hv := bucket_put (set_key e) (p, e) (A (bkt h hv)))) \<and> bkt h' = bkt h"
    and get_law: "rel h A \<Longrightarrow> key_readable hdr \<Longrightarrow> \<exists>h'. get h hdr = Some (Inr
          (get_result hdr (bucket_get (get_key hdr) (A (bkt h (hdr_hashval hdr)))) h'))
        \<and> rel h' A \<and> bkt h' = bkt h"
begin

lemma read_your_write:
  assumes "rel h A" "block h p = Some e" "entry_ok e" "p \<noteq> NULL" "\<And>b. p \<notin> fst ` set (A b)"
    and "put h (hdr_hashval hdr) p = Some (Inr (r, h'))"
    and "key_readable hdr" "get_key hdr = set_key e" "set_key e e"
  shows "\<exists>h''. get h' hdr = Some (Inr (0, hdr\<lparr>hdr_KVdataptr := p\<rparr>, h''))"
proof -
  let ?b = "bkt h (hdr_hashval hdr)"
  from put_law [OF assms(1-5), of "hdr_hashval hdr"] assms(6)
  have "rel h' (A(?b := bucket_put (set_key e) (p, e) (A ?b)))" and b: "bkt h' = bkt h" by auto
  from get_law [OF this(1) assms(7)] show ?thesis
    using assms(4,8,9) bucket_get_put_same [of "set_key e" "(p, e)" "A ?b"]
    by (auto simp: b get_result_def)
qed

lemma other_key:
  assumes "rel h A" "block h p = Some e" "entry_ok e" "p \<noteq> NULL" "\<And>b. p \<notin> fst ` set (A b)"
    and "put h hv p = Some (Inr (r, h'))" "key_readable hdr"
    and "bkt h hv \<noteq> bkt h (hdr_hashval hdr) \<or> \<not> get_key hdr e \<and> (\<forall>e'. set_key e e' \<longrightarrow> \<not> get_key hdr e')"
    and "get h hdr = Some (Inr (q, hdr', g))"
  shows "\<exists>h''. get h' hdr = Some (Inr (q, hdr', h''))"
proof -
  let ?A = "A(bkt h hv := bucket_put (set_key e) (p, e) (A (bkt h hv)))"
  from put_law [OF assms(1-5), of hv] assms(6)
  have r: "rel h' ?A" and b: "bkt h' = bkt h" by auto
  have same: "bucket_get (get_key hdr) (?A (bkt h (hdr_hashval hdr))) =
      bucket_get (get_key hdr) (A (bkt h (hdr_hashval hdr)))"
    using assms(8) bucket_get_put_other [of "get_key hdr" "(p, e)" "set_key e"]
    by auto
  from get_law [OF r assms(7)] get_law [OF assms(1,7)] assms(9) show ?thesis
    unfolding b same by (auto simp: get_result_def)
qed

end

subsection \<open>The code meets the contract\<close>

definition table_shape :: "ahashtable \<Rightarrow> bool" where
  "table_shape h \<longleftrightarrow> 0 < length (hashtable h) \<and> length (hashtable h) \<le> 2 ^ 32
     \<and> hashmask h = of_nat (length (hashtable h)) - 1
     \<and> 0 < length (hashtablelock h) \<and> length (hashtablelock h) \<le> 2 ^ 32
     \<and> hash_lock_mask h = of_nat (length (hashtablelock h)) - 1"

definition bucket_ok :: "ahashtable \<Rightarrow> bucket \<Rightarrow> nat \<Rightarrow> bool" where
  "bucket_ok h xs b \<longleftrightarrow> hashtable h ! b = head_of (map fst xs) \<and> dll (mem h) (map fst xs)
     \<and> map snd xs = entries (mem h) (map fst xs) \<and> (\<forall>x \<in> set xs. entry_ok (snd x))"

definition table_rel :: "ahashtable \<Rightarrow> (nat \<Rightarrow> bucket) \<Rightarrow> bool" where
  "table_rel h A \<longleftrightarrow> table_shape h \<and> (\<forall>b < length (hashtable h). bucket_ok h (A b) b)
     \<and> (\<forall>b \<ge> length (hashtable h). A b = [])
     \<and> (\<forall>b b'. b \<noteq> b' \<longrightarrow> fst ` set (A b) \<inter> fst ` set (A b') = {})"

definition block_of :: "ahashtable \<Rightarrow> ptr \<Rightarrow> entry option" where
  "block_of h p = map_option entry_of (mem h p)"

lemma and_mask_less:
  fixes x :: u32
  assumes "0 < n" "n \<le> 2 ^ 32"
  shows "unat (x AND (of_nat n - 1)) < n"
proof -
  obtain k where n: "n = Suc k" using assms(1) gr0_implies_Suc by blast
  have "unat (x AND of_nat k) \<le> unat (of_nat k :: u32)"
    using word_and_le1 word_le_nat_alt by blast
  also have "\<dots> = k" using assms(2) n by (simp add: unsigned_of_nat take_bit_nat_eq_self)
  finally show ?thesis using n by simp
qed

lemma bucket_of_less: "table_shape h \<Longrightarrow> bucket_of h hv < length (hashtable h)"
  using and_mask_less [of "length (hashtable h)" hv] by (simp add: table_shape_def bucket_of_def)

lemma lock_of_less: "table_shape h \<Longrightarrow> lock_of h b < length (hashtablelock h)"
  using and_mask_less [of "length (hashtablelock h)" "of_nat b"] by (simp add: table_shape_def lock_of_def)

lemma head_of_pos: "dll m ps \<Longrightarrow> head_of ps \<noteq> NULL \<longleftrightarrow> ps \<noteq> []"
  by (cases ps) (auto simp: dll_def head_of_def)

lemma head_of_nth0: "ps \<noteq> [] \<Longrightarrow> head_of ps = ps ! 0"
  by (cases ps) (auto simp: head_of_def)

text \<open>What \<open>set\<close> does to the store and to its bucket.\<close>

definition stored :: "store \<Rightarrow> bucket \<Rightarrow> bucket \<Rightarrow> ptr \<Rightarrow> store \<Rightarrow> bool" where
  "stored m xs ys kv m' \<longleftrightarrow> dll m' (map fst ys) \<and> entries m' (map fst ys) = map snd ys
     \<and> (\<forall>p. p \<notin> fst ` set xs \<and> p \<noteq> kv \<longrightarrow> m' p = m p)
     \<and> (\<forall>p \<in> fst ` set xs - fst ` set ys. m' p = None)"

lemma stored_replace:
  assumes "dll m (map fst xs)" "map snd xs = entries m (map fst xs)" "i < length xs"
    "kv \<notin> fst ` set xs" "0 < kv"
  shows "stored m xs (xs[i := (kv, entry_of k)]) kv (relinked m (map fst xs) i kv k)"
proof -
  have "fst ` set xs - fst ` set (xs[i := (kv, entry_of k)]) \<subseteq> {fst (xs ! i)}"
  proof
    fix p assume p: "p \<in> fst ` set xs - fst ` set (xs[i := (kv, entry_of k)])"
    then obtain j where j: "j < length xs" "p = fst (xs ! j)" by (auto simp: in_set_conv_nth)
    have "j = i"
    proof (rule ccontr)
      assume "j \<noteq> i"
      then have "xs ! j = xs[i := (kv, entry_of k)] ! j" by simp
      then have "xs ! j \<in> set (xs[i := (kv, entry_of k)])" using j(1) nth_mem
        by (metis length_list_update)
      with p j(2) show False by auto
    qed
    with j show "p \<in> {fst (xs ! i)}" by simp
  qed
  moreover have "relinked m (map fst xs) i kv k (fst (xs ! i)) = None"
    using assms(3) by (simp add: relinked_def)
  ultimately have "\<forall>p \<in> fst ` set xs - fst ` set (xs[i := (kv, entry_of k)]).
      relinked m (map fst xs) i kv k p = None" by auto
  then show ?thesis
    using relinked_dll [of m "map fst xs" i kv k] relinked_entries [of m "map fst xs" i kv k]
      relinked_other [of i "map fst xs" _ kv m k] assms
    unfolding stored_def map_update by simp
qed

lemma stored_append:
  assumes "dll m (map fst xs)" "map snd xs = entries m (map fst xs)"
    "kv \<notin> fst ` set xs" "0 < kv"
  shows "stored m xs (xs @ [(kv, entry_of k)]) kv (appended m (map fst xs) kv k)"
  using appended_dll [of m "map fst xs" kv k] appended_entries [of m "map fst xs" kv k]
    appended_other [of _ "map fst xs" kv m k] assms
  by (auto simp: stored_def)

lemma set_key_entry_of: "set_key (entry_of k) = matches (unat (kv_keylen k)) (kvbytes k)"
  by (simp add: entry_of_def)

lemma set_stored:
  assumes shape: "table_shape h" and ok: "bucket_ok h xs (bucket_of h hv)"
    and k: "mem h kv = Some k" "entry_ok (entry_of k)" "0 < kv" "kv \<notin> fst ` set xs"
  defines "ys \<equiv> bucket_put (set_key (entry_of k)) (kv, entry_of k) xs"
  shows "\<exists>m'. stored (mem h) xs ys kv m' \<and> ahashtable_set h hv kv = Some (Inr (0,
    h\<lparr>hashtable := (hashtable h)[bucket_of h hv := head_of (map fst ys)], mem := m',
      hashtablelock := (hashtablelock h)[lock_of h (bucket_of h hv) := False]\<rparr>))"
proof -
  let ?b = "bucket_of h hv" and ?ps = "map fst xs"
  let ?l = "lock_of h ?b"
  let ?h = "h\<lparr>hashtablelock := (hashtablelock h)[?l := True]\<rparr>"
  note b = bucket_of_less [OF shape, of hv] and l = lock_of_less [OF shape, of ?b]
  have d: "dll (mem h) ?ps" and es: "map snd xs = entries (mem h) ?ps"
    and hd: "hashtable h ! ?b = head_of ?ps" and "\<forall>x \<in> set xs. entry_ok (snd x)"
    using ok by (simp_all add: bucket_ok_def)
  then have eok: "\<forall>e \<in> set (entries (mem h) ?ps). entry_ok e"
    unfolding es [symmetric] by simp
  have kn: "kv \<notin> set ?ps" using k(4) by simp
  show ?thesis
  proof (cases "xs = []")
    case True
    then show ?thesis
      using stored_append [OF d es k(4,3), of k] b l hd set_head_eq [of ?h kv k ?b] k(1)
      by (intro exI [of _ "appended (mem h) [] kv k"])
        (simp add: ahashtable_set_def lock_bucket_def unlock_bucket_def ys_def head_of_def Let_def)
  next
    case False
    then have ne: "?ps \<noteq> []" by simp
    then have n: "head_of ?ps \<noteq> NULL" "head_of ?ps = ?ps ! 0" "0 < length ?ps"
      using head_of_pos [OF d] head_of_nth0 [OF ne] by blast+
    note w = set_walk_dll [OF d eok k(1,2) n(3), folded n(2)]
    show ?thesis
    proof (cases "first_from (set_key (entry_of k)) 0 (map snd xs)")
      case None
      have y: "ys = xs @ [(kv, entry_of k)]" using None by (simp add: ys_def bucket_put_first_from)
      have "set_walk (mem h) kv (head_of ?ps) = Some (Inr (Last (last ?ps)))"
        using w None by (simp add: es set_key_entry_of)
      moreover have "head_of (map fst ys) = head_of ?ps" using False y by (cases xs) (auto simp: head_of_def)
      ultimately show ?thesis
        using stored_append [OF d es k(4,3), of k] b l hd n(1) k(1)
          set_append_eq [of ?h ?ps kv k] d kn False
        by (intro exI [of _ "appended (mem h) ?ps kv k"])
          (simp add: ahashtable_set_def lock_bucket_def unlock_bucket_def y Let_def
            list_update_id [of "hashtable h" ?b, unfolded hd])
    next
      case (Some i)
      have i: "i < length xs" using first_from_SomeD [OF Some] by simp
      have y: "ys = xs[i := (kv, entry_of k)]" using Some by (simp add: ys_def bucket_put_first_from)
      have "set_walk (mem h) kv (head_of ?ps) = Some (Inr (Found (?ps ! i)))"
        using w Some i by (simp add: es set_key_entry_of)
      moreover have "head_of (map fst ys) = (if i = 0 then kv else head_of ?ps)"
        using i y by (cases xs; cases i) (auto simp: head_of_def)
      ultimately show ?thesis
        using stored_replace [OF d es i k(4,3), of k] b l hd n(1)
          set_replace_eq [of ?h ?ps i kv k ?b] d kn i k(1)
        by (intro exI [of _ "relinked (mem h) ?ps i kv k"])
          (simp add: ahashtable_set_def lock_bucket_def unlock_bucket_def y Let_def
            list_update_id [of "hashtable h" ?b, unfolded hd])
    qed
  qed
qed

lemma bucket_ok_cong:
  assumes "bucket_ok h xs b" "hashtable h' ! b = hashtable h ! b"
    "\<And>p. p \<in> fst ` set xs \<Longrightarrow> mem h' p = mem h p"
  shows "bucket_ok h' xs b"
proof -
  have "dll (mem h') (map fst xs)"
    using assms by (intro dll_cong [of "map fst xs" "mem h" "mem h'"]) (auto simp: bucket_ok_def)
  moreover have "entries (mem h') (map fst xs) = entries (mem h) (map fst xs)"
    using assms(3) by (simp add: entries_def)
  ultimately show ?thesis using assms(1,2) by (simp add: bucket_ok_def)
qed

lemma disjoint_insert_mono: "Y \<subseteq> insert k X \<Longrightarrow> k \<notin> Z \<Longrightarrow> X \<inter> Z = {} \<Longrightarrow> Y \<inter> Z = {}"
  by blast

lemma set_rel:
  fixes hv :: u32
  assumes rel: "table_rel h A" and e: "block_of h kv = Some e" "entry_ok e" "kv \<noteq> NULL"
    and fresh: "\<And>b. kv \<notin> fst ` set (A b)"
  defines "b \<equiv> bucket_of h hv"
  defines "ys \<equiv> bucket_put (set_key e) (kv, e) (A b)"
  shows "\<exists>h'. ahashtable_set h hv kv = Some (Inr (0, h')) \<and> table_rel h' (A(b := ys))
    \<and> bucket_of h' = bucket_of h \<and> hashtablelock h' = (hashtablelock h)[lock_of h b := False]
    \<and> (\<forall>p \<in> fst ` set (A b) - fst ` set ys. mem h' p = None)
    \<and> (\<forall>p. p \<notin> fst ` set (A b) \<and> p \<noteq> kv \<longrightarrow> mem h' p = mem h p)"
proof -
  have shape: "table_shape h" and oks: "\<And>b. b < length (hashtable h) \<Longrightarrow> bucket_ok h (A b) b"
    and disj: "\<And>b b'. b \<noteq> b' \<Longrightarrow> fst ` set (A b) \<inter> fst ` set (A b') = {}"
    and nil: "\<And>b. length (hashtable h) \<le> b \<Longrightarrow> A b = []"
    using rel by (auto simp: table_rel_def)
  have bl: "b < length (hashtable h)" using bucket_of_less [OF shape] by (simp add: b_def)
  obtain k where k: "mem h kv = Some k" "e = entry_of k" using e(1) by (auto simp: block_of_def)
  from set_stored [OF shape oks [OF bl, unfolded b_def] k(1) _ _ fresh] e k
  obtain m' where m': "stored (mem h) (A b) ys kv m'"
    and run: "ahashtable_set h hv kv = Some (Inr (0, h\<lparr>hashtable := (hashtable h)[b := head_of (map fst ys)],
      mem := m', hashtablelock := (hashtablelock h)[lock_of h b := False]\<rparr>))"
    by (auto simp: b_def ys_def)
  let ?h' = "h\<lparr>hashtable := (hashtable h)[b := head_of (map fst ys)], mem := m',
      hashtablelock := (hashtablelock h)[lock_of h b := False]\<rparr>"
  have ys: "set ys \<subseteq> insert (kv, e) (set (A b))" by (simp add: ys_def set_bucket_put)
  have "bucket_ok ?h' ys b"
  proof -
    have "\<forall>x \<in> set ys. entry_ok (snd x)"
      using ys e(2) oks [OF bl] by (auto simp: bucket_ok_def)
    with m' bl show ?thesis by (simp add: bucket_ok_def stored_def)
  qed
  moreover have "bucket_ok ?h' (A b') b'" if b': "b' < length (hashtable h)" "b' \<noteq> b" for b'
  proof (rule bucket_ok_cong [OF oks [OF b'(1)]])
    fix p assume "p \<in> fst ` set (A b')"
    with disj [OF b'(2)] fresh [of b'] have "p \<notin> fst ` set (A b)" "p \<noteq> kv" by auto
    with m' show "mem ?h' p = mem h p" by (simp add: stored_def)
  qed (use b' in simp)
  moreover have "table_shape ?h'" using shape by (simp add: table_shape_def)
  moreover have "fst ` set ((A(b := ys)) b1) \<inter> fst ` set ((A(b := ys)) b2) = {}" if "b1 \<noteq> b2" for b1 b2
  proof -
    have "fst ` set ys \<subseteq> insert kv (fst ` set (A b))" using ys by auto
    moreover have "kv \<notin> fst ` set (A b1)" "kv \<notin> fst ` set (A b2)" using fresh by auto
    ultimately show ?thesis
      using that disj [OF that] disjoint_insert_mono [OF _ _ disj [of b b1]]
        disjoint_insert_mono [OF _ _ disj [of b b2]]
      by (cases "b1 = b"; cases "b2 = b") (simp_all add: Int_commute)
  qed
  ultimately have "table_rel ?h' (A(b := ys))"
    using nil bl by (auto simp: table_rel_def)
  moreover have "bucket_of ?h' = bucket_of h" by (simp add: bucket_of_def fun_eq_iff)
  ultimately show ?thesis using run m' by (auto simp: stored_def)
qed

lemma get_rel:
  assumes rel: "table_rel h A" and hdr: "key_readable hdr"
  defines "b \<equiv> bucket_of h (hdr_hashval hdr)"
  shows "ahashtable_get h hdr = Some (Inr (get_result hdr (bucket_get (get_key hdr) (A b))
    (h\<lparr>hashtablelock := (hashtablelock h)[lock_of h b := False]\<rparr>)))"
proof -
  let ?h' = "h\<lparr>hashtablelock := (hashtablelock h)[lock_of h b := False]\<rparr>"
  have shape: "table_shape h" using rel by (simp add: table_rel_def)
  have bl: "b < length (hashtable h)" using bucket_of_less [OF shape] by (simp add: b_def)
  note l = lock_of_less [OF shape, of b]
  let ?ps = "map fst (A b)"
  have d: "dll (mem h) ?ps" and es: "map snd (A b) = entries (mem h) ?ps"
    and hd: "hashtable h ! b = head_of ?ps" and "\<forall>x \<in> set (A b). entry_ok (snd x)"
    using rel bl by (simp_all add: table_rel_def bucket_ok_def)
  then have eok: "\<forall>e \<in> set (entries (mem h) ?ps). entry_ok e"
    unfolding es [symmetric] by simp
  show ?thesis
  proof (cases "A b = []")
    case True
    with bl l hd show ?thesis
      by (simp add: ahashtable_get_def lock_bucket_def unlock_bucket_def head_of_def Let_def
        get_result_def flip: b_def)
  next
    case False
    then have ne: "?ps \<noteq> []" by simp
    then have n: "head_of ?ps \<noteq> NULL" "head_of ?ps = ?ps ! 0" "0 < length ?ps"
      using head_of_pos [OF d] head_of_nth0 [OF ne] by blast+
    let ?f = "first_from (get_key hdr) 0 (map snd (A b))"
    have "bucket_get (get_key hdr) (A b) = (case ?f of None \<Rightarrow> NULL | Some i \<Rightarrow> ?ps ! i)"
      using first_from_SomeD [of "get_key hdr" 0 "map snd (A b)"]
      by (auto simp: bucket_get_first_from split: option.splits)
    then have "get_walk (mem h) hdr (head_of ?ps) = Some (Inr (bucket_get (get_key hdr) (A b)))"
      using get_walk_dll [OF d eok hdr [unfolded key_readable_def] n(3), folded n(2)]
      by (simp add: es get_key_def)
    with bl l hd n(1) show ?thesis
      by (simp add: ahashtable_get_def lock_bucket_def unlock_bucket_def Let_def get_result_def
        flip: b_def)
  qed
qed

lemma get_rel_table: "table_rel h A \<Longrightarrow> table_rel (h\<lparr>hashtablelock := (hashtablelock h)[l := False]\<rparr>) A"
  by (simp add: table_rel_def table_shape_def bucket_ok_def)

lemma bucket_of_lock [simp]: "bucket_of (h\<lparr>hashtablelock := ls\<rparr>) = bucket_of h"
  by (simp add: bucket_of_def fun_eq_iff)

interpretation kv: bucket_store table_rel block_of bucket_of ahashtable_set ahashtable_get
proof unfold_locales
  fix h A p e hv
  assume "table_rel h A" "block_of h p = Some e" "entry_ok e" "p \<noteq> NULL" "\<And>b. p \<notin> fst ` set (A b)"
  from set_rel [OF this] show "\<exists>h'. ahashtable_set h hv p = Some (Inr (0, h'))
      \<and> table_rel h' (A(bucket_of h hv := bucket_put (set_key e) (p, e) (A (bucket_of h hv))))
      \<and> bucket_of h' = bucket_of h" by blast
next
  fix h A hdr
  assume "table_rel h A" "key_readable hdr"
  then show "\<exists>h'. ahashtable_get h hdr = Some (Inr
      (get_result hdr (bucket_get (get_key hdr) (A (bucket_of h (hdr_hashval hdr)))) h'))
      \<and> table_rel h' A \<and> bucket_of h' = bucket_of h"
    by (auto simp: get_rel get_rel_table)
qed

subsection \<open>The table that acached builds\<close>

lemma take_bit_and: "unat ((x :: u32) AND (of_nat (2 ^ k) - 1)) = unat x mod 2 ^ k"
proof -
  have "(of_nat (2 ^ k) - 1 :: u32) = mask k" by (simp add: mask_eq_exp_minus_1)
  then have "unat (x AND (of_nat (2 ^ k) - 1)) = unat (take_bit k x)" by (simp only: take_bit_eq_mask)
  also have "\<dots> = take_bit k (unat x)" by (rule unsigned_take_bit_eq)
  also have "\<dots> = unat x mod 2 ^ k" by (rule take_bit_eq_mod)
  finally show ?thesis .
qed

lemma new_rel:
  assumes "0 < n" "n \<le> 2 ^ 32"
  shows "table_rel (ahashtable_new n r\<lparr>mem := m\<rparr>) (\<lambda>_. [])"
proof -
  have "2 ^ floor_log2 n \<le> n"
    using floorlog_bounds [of n 2] assms(1) by (simp add: floor_log2_def)
  moreover have "2 ^ (floor_log2 n - floor_log2 r) \<le> (2 :: nat) ^ floor_log2 n"
    by (rule power_increasing) simp_all
  ultimately have "2 ^ (floor_log2 n - floor_log2 r) \<le> (2 :: nat) ^ 32" using assms(2) by linarith
  then show ?thesis
    using assms
    by (simp add: table_rel_def table_shape_def bucket_ok_def ahashtable_new_def Let_def head_of_def
      dll_def entries_def)
qed

lemma floor_log2_code: "floor_log2 65536 = 16" "floor_log2 7 = 2"
proof -
  have "floorlog 2 (65536 :: nat) = 17" by (simp add: compute_floorlog)
  then show "floor_log2 65536 = 16" by (simp add: floor_log2_def)
  have "floorlog 2 (7 :: nat) = 3" by (simp add: compute_floorlog)
  then show "floor_log2 7 = 2" by (simp add: floor_log2_def)
qed

text \<open>
  C31: the table acached builds (64K buckets, and the ratio power 7 that its constructor passes as the
  ratio) is empty and well formed, an entry goes to the bucket given by the low 16 bits of its
  hash value, and 16384 locks guard the buckets, each the buckets equal to its index modulo 16384.
\<close>

theorem acached_table_shape:
  "table_rel (ahashtable_new 65536 7) (\<lambda>_. [])
   \<and> bucket_of (ahashtable_new 65536 7) hv = unat hv mod 65536
   \<and> length (hashtablelock (ahashtable_new 65536 7)) = 16384
   \<and> lock_of (ahashtable_new 65536 7) b = b mod 16384"
proof (intro conjI)
  show "table_rel (ahashtable_new 65536 7) (\<lambda>_. [])"
    using new_rel [of 65536 Map.empty 7] by (simp add: ahashtable_new_def Let_def)
  show "bucket_of (ahashtable_new 65536 7) hv = unat hv mod 65536"
    using take_bit_and [of hv 16] by (simp add: bucket_of_def ahashtable_new_def Let_def)
  show "length (hashtablelock (ahashtable_new 65536 7)) = 16384"
    by (simp add: ahashtable_new_def Let_def floor_log2_code)
  show "lock_of (ahashtable_new 65536 7) b = b mod 16384"
    using take_bit_and [of "of_nat b" 14]
    by (simp add: lock_of_def ahashtable_new_def Let_def floor_log2_code unsigned_of_nat
      take_bit_eq_mod mod_mod_cancel)
qed

text \<open>
  C8: \<open>set\<close> terminates, returns 0, and puts the block in the place of the first entry of its bucket
  that matches its key, or behind the last; the replaced block is freed, every block of the other
  buckets is unchanged, the buckets stay doubly linked lists without sharing, and the lock of the
  bucket is free again. No access leaves the table or touches freed memory.
\<close>

theorem set_refines_bucket_put:
  assumes "table_rel h A" "block_of h kv = Some e" "entry_ok e" "kv \<noteq> NULL"
    and "\<forall>b. kv \<notin> fst ` set (A b)"
  shows "\<exists>h'. ahashtable_set h hv kv = Some (Inr (0, h'))
    \<and> table_rel h' (A(bucket_of h hv := bucket_put (set_key e) (kv, e) (A (bucket_of h hv))))
    \<and> hashtablelock h' = (hashtablelock h)[lock_of h (bucket_of h hv) := False]
    \<and> (\<forall>p \<in> fst ` set (A (bucket_of h hv))
          - fst ` set (bucket_put (set_key e) (kv, e) (A (bucket_of h hv))). mem h' p = None)
    \<and> (\<forall>p. p \<notin> fst ` set (A (bucket_of h hv)) \<and> p \<noteq> kv \<longrightarrow> mem h' p = mem h p)"
  using set_rel [OF assms(1-4), of hv] assms(5) by blast

definition sample_block :: KVdata where
  "sample_block = \<lparr>nxt = NULL, prv = NULL, kv_keylen = 2, kv_vallen = 1, kvbytes = [CHR ''a'', CHR ''b'', CHR ''x'', NUL, NUL]\<rparr>"

definition sample_table :: ahashtable where
  "sample_table = ahashtable_new 4 2\<lparr>mem := [5 \<mapsto> sample_block]\<rparr>"

lemma sample_facts: "table_rel sample_table (\<lambda>_. [])" "block_of sample_table 5 = Some (entry_of sample_block)"
    "entry_ok (entry_of sample_block)"
  by (simp_all add: sample_table_def new_rel block_of_def sample_block_def entry_of_def)

lemma set_refines_bucket_put_witness:
  "\<exists>h'. ahashtable_set sample_table 9 5 = Some (Inr (0, h'))
     \<and> table_rel h' ((\<lambda>_. [])(bucket_of sample_table 9 := [(5, entry_of sample_block)]))"
  using set_refines_bucket_put [OF sample_facts, of 9] by auto

text \<open>
  C9: \<open>get\<close> terminates and returns the first entry of the bucket that matches, or -1 and the message
  header as it was; the table is the same afterwards, with the lock of the bucket free.
\<close>

theorem get_finds_first_match:
  assumes "table_rel h A" "key_readable hdr"
  shows "ahashtable_get h hdr = Some (Inr
    (let b = bucket_of h (hdr_hashval hdr); q = bucket_get (get_key hdr) (A b);
         h' = h\<lparr>hashtablelock := (hashtablelock h)[lock_of h b := False]\<rparr>
     in if q = NULL then (- 1, hdr, h') else (0, hdr\<lparr>hdr_KVdataptr := q\<rparr>, h')))"
  using get_rel [OF assms] by (simp add: get_result_def Let_def)

definition sample_hdr :: aMsgHdrIN_t where
  "sample_hdr = \<lparr>hdr_key = [CHR ''a'', CHR ''b'', NUL], hdr_keylen = 2, hdr_hashval = 9, hdr_KVdataptr = NULL\<rparr>"

lemma sample_hdr_facts: "key_readable sample_hdr" "get_key sample_hdr = set_key (entry_of sample_block)"
    "set_key (entry_of sample_block) (entry_of sample_block)"
proof -
  show "key_readable sample_hdr" by (simp add: key_readable_def sample_hdr_def)
  have "matches 2 [CHR ''a'', CHR ''b'', NUL] = matches 2 (kvbytes sample_block)"
    using strncmp_eq_take [of 2 "kvbytes sample_block" "[CHR ''a'', CHR ''b'', NUL]"]
    by (simp add: fun_eq_iff sample_block_def)
  then show "get_key sample_hdr = set_key (entry_of sample_block)"
    by (simp add: get_key_def sample_hdr_def size_t_of_int_def set_key_entry_of)
      (simp add: sample_block_def)
  show "set_key (entry_of sample_block) (entry_of sample_block)"
    by (simp add: entry_of_def sample_block_def)
qed

lemma get_finds_first_match_witness:
  "\<exists>h'. ahashtable_get sample_table sample_hdr = Some (Inr (- 1, sample_hdr, h'))"
  using get_finds_first_match [OF sample_facts(1) sample_hdr_facts(1)] by (simp add: Let_def)

text \<open>
  What was set is found: after a \<open>set\<close> under some hash value, a \<open>get\<close> with the same hash value
  and the same key bytes and key length returns 0 and that very block.
\<close>

theorem get_after_set:
  assumes "table_rel h A" "mem h kv = Some k" "entry_ok (entry_of k)" "kv \<noteq> NULL"
    and "\<forall>b. kv \<notin> fst ` set (A b)"
    and "ahashtable_set h (hdr_hashval hdr) kv = Some (Inr (r, h'))"
    and "size_t_of_int (hdr_keylen hdr) = unat (kv_keylen k)"
    and "take (unat (kv_keylen k)) (hdr_key hdr) = take (unat (kv_keylen k)) (kvbytes k)"
  shows "\<exists>h''. ahashtable_get h' hdr = Some (Inr (0, hdr\<lparr>hdr_KVdataptr := kv\<rparr>, h''))"
proof (rule kv.read_your_write [OF assms(1) _ assms(3,4) _ assms(6)])
  have len: "unat (kv_keylen k) \<le> length (kvbytes k)" using assms(3) by (simp add: entry_of_def)
  show "block_of h kv = Some (entry_of k)" using assms(2) by (simp add: block_of_def)
  show "kv \<notin> fst ` set (A b)" for b using assms(5) by blast
  have "unat (kv_keylen k) \<le> length (hdr_key hdr)"
    using arg_cong [OF assms(8), of length] len by simp
  then show "key_readable hdr" using assms(7) by (simp add: key_readable_def)
  show "get_key hdr = set_key (entry_of k)"
    using strncmp_eq_take [OF len assms(8) [symmetric]] assms(7)
    by (simp add: get_key_def set_key_entry_of fun_eq_iff)
  show "set_key (entry_of k) (entry_of k)"
    unfolding set_key_entry_of using len by (simp add: entry_of_def strncmp_eq_refl)
qed

lemma sample_set: "ahashtable_set sample_table 9 5 = Some (Inr (0,
    sample_table\<lparr>hashtable := [0, 5, 0, 0]\<rparr>))"
  by (simp add: ahashtable_set_def sample_table_def ahashtable_new_def Let_def bucket_of_def lock_of_def
    lock_bucket_def set_head_def store_simps unlock_bucket_def floor_log2_def compute_floorlog
    sample_block_def) (simp add: eval_nat_numeral)

lemma get_after_set_witness:
  "\<exists>h''. ahashtable_get (sample_table\<lparr>hashtable := [0, 5, 0, 0]\<rparr>) sample_hdr =
     Some (Inr (0, sample_hdr\<lparr>hdr_KVdataptr := 5\<rparr>, h''))"
  by (rule get_after_set [OF sample_facts(1) _ sample_facts(3), of 5 sample_hdr 0])
    (simp_all add: sample_set sample_hdr_def sample_table_def sample_block_def size_t_of_int_def
      sample_set [unfolded sample_table_def sample_block_def])

text \<open>
  A \<open>set\<close> does not disturb other keys: when the two hash values give different buckets, or when
  nothing that the set key matches is matched by the other key, a \<open>get\<close> of the other key returns
  what it returned before.
\<close>

theorem set_keeps_other_keys:
  assumes "table_rel h A" "block_of h kv = Some e" "entry_ok e" "kv \<noteq> NULL"
    and "\<forall>b. kv \<notin> fst ` set (A b)" "ahashtable_set h hv kv = Some (Inr (r, h'))"
    and "key_readable hdr"
    and "bucket_of h hv \<noteq> bucket_of h (hdr_hashval hdr)
      \<or> \<not> get_key hdr e \<and> (\<forall>e'. set_key e e' \<longrightarrow> \<not> get_key hdr e')"
    and "ahashtable_get h hdr = Some (Inr (q, hdr', g))"
  shows "\<exists>h''. ahashtable_get h' hdr = Some (Inr (q, hdr', h''))"
  using kv.other_key [OF assms(1-4) _ assms(6-9)] assms(5) by blast

definition other_hdr :: aMsgHdrIN_t where
  "other_hdr = sample_hdr\<lparr>hdr_hashval := 10\<rparr>"

lemma other_get: "\<exists>g. ahashtable_get sample_table other_hdr = Some (Inr (- 1, other_hdr, g))"
  using get_rel [OF sample_facts(1), of other_hdr] sample_hdr_facts(1)
  by (simp add: get_result_def key_readable_def other_hdr_def)

lemma set_keeps_other_keys_witness:
  "\<exists>h''. ahashtable_get (sample_table\<lparr>hashtable := [0, 5, 0, 0]\<rparr>) other_hdr =
     Some (Inr (- 1, other_hdr, h''))"
proof -
  obtain g where g: "ahashtable_get sample_table other_hdr = Some (Inr (- 1, other_hdr, g))"
    using other_get by blast
  have "key_readable other_hdr" using sample_hdr_facts(1) by (simp add: key_readable_def other_hdr_def)
  moreover have "bucket_of sample_table 9 \<noteq> bucket_of sample_table (hdr_hashval other_hdr)"
    by (simp add: bucket_of_def sample_table_def ahashtable_new_def Let_def other_hdr_def)
  ultimately show ?thesis
    by (intro set_keeps_other_keys [OF sample_facts _ _ sample_set _ _ g]) simp_all
qed

text \<open>
  C30: the key comparison looks at the searching key's length only. A \<open>get\<close> whose key bytes are the
  first bytes of the block at the head of the bucket returns that block, whatever the length of the
  key stored there, so a search for \<open>ab\<close> finds an entry whose key is \<open>abc\<close>.
\<close>

theorem get_ignores_stored_key_length:
  assumes "table_rel h A" "A (bucket_of h (hdr_hashval hdr)) = (p, (kl, vl, bs)) # xs"
    and "size_t_of_int (hdr_keylen hdr) \<le> length bs"
    and "take (size_t_of_int (hdr_keylen hdr)) (hdr_key hdr) = take (size_t_of_int (hdr_keylen hdr)) bs"
  shows "\<exists>h'. ahashtable_get h hdr = Some (Inr (0, hdr\<lparr>hdr_KVdataptr := p\<rparr>, h'))"
proof -
  let ?n = "size_t_of_int (hdr_keylen hdr)" and ?b = "bucket_of h (hdr_hashval hdr)"
  have "table_shape h" using assms(1) by (simp add: table_rel_def)
  from bucket_of_less [OF this] have "bucket_ok h (A ?b) ?b" using assms(1) by (auto simp: table_rel_def)
  then have "p \<noteq> NULL" using assms(2) by (auto simp: bucket_ok_def dll_def)
  moreover have "?n \<le> length (hdr_key hdr)"
    using arg_cong [OF assms(4), of length] assms(3) by simp
  then have "key_readable hdr" by (simp add: key_readable_def)
  moreover have "get_key hdr (kl, vl, bs)"
    using strncmp_eq_take [OF assms(3) assms(4) [symmetric]] assms(3)
    by (simp add: get_key_def strncmp_eq_refl)
  ultimately show ?thesis using get_rel [OF assms(1)] assms(2) by (simp add: get_result_def)
qed

definition long_block_table :: ahashtable where
  "long_block_table = sample_table\<lparr>hashtable := [0, 5, 0, 0],
     mem := [5 \<mapsto> sample_block\<lparr>kv_keylen := 3, kv_vallen := 0\<rparr>]\<rparr>"

lemma long_block_rel: "table_rel long_block_table ((\<lambda>_. [])(1 := [(5, (3, 0, kvbytes sample_block))]))"
proof -
  have "table_shape sample_table" "length (hashtable sample_table) = 4"
    using sample_facts(1) by (simp_all add: table_rel_def sample_table_def ahashtable_new_def Let_def)
  then have "table_shape long_block_table"
    by (simp add: table_shape_def long_block_table_def)
  moreover have "bucket_ok long_block_table [(5, (3, 0, kvbytes sample_block))] 1"
    by (simp add: bucket_ok_def long_block_table_def head_of_def dll_def entries_def entry_of_def
      sample_block_def)
  moreover have "bucket_ok long_block_table [] b" if "b < 4" "b \<noteq> 1" for b
  proof -
    have "b = 0 \<or> b = 2 \<or> b = 3" using that by arith
    then show ?thesis
      by (auto simp: bucket_ok_def long_block_table_def head_of_def dll_def entries_def)
  qed
  ultimately show ?thesis
    by (auto simp: table_rel_def long_block_table_def)
qed

lemma get_ignores_stored_key_length_witness:
  "\<exists>h'. ahashtable_get long_block_table sample_hdr =
    Some (Inr (0, sample_hdr\<lparr>hdr_KVdataptr := 5\<rparr>, h'))"
  by (rule get_ignores_stored_key_length [OF long_block_rel, of _ 5 3 0 "kvbytes sample_block" "[]"])
    (simp_all add: sample_hdr_def bucket_of_def long_block_table_def sample_table_def ahashtable_new_def
      Let_def size_t_of_int_def sample_block_def)

end
