(* ===== verification/GetsEnd.thy ===== *)
theory GetsEnd
  imports Main
begin

section \<open>Who sends END (threadKVdata.cpp, aConnReq.cpp)\<close>

text \<open>
  The keys of one GET go to the workers by their hash, so that several workers answer the same
  command. They agree on who sends \<open>END\<close> over the counters of the connection: \<open>reqCount\<close>, the keys
  posted so far, \<open>replyCount\<close>, the keys answered, and \<open>concPending\<close>, which is set while keys are still
  to be posted. Here each access to these is a step of its own, of the comm thread that posts the \<open>n\<close>
  keys or of the worker that has key \<open>i\<close> (the worker \<open>wk i\<close>), in any interleaving. A line has
  fewer than \<open>2 ^ 32\<close> keys, so that the counters do not wrap.
\<close>

text \<open>Where the comm thread is in its loop: at the key \<open>k\<close>.\<close>

datatype cpc = Begin | Count nat | ResetPending nat | Post nat | Stop

text \<open>Where a worker is with a key.\<close>

datatype kpc = Waiting | Handling | Queued | Counted | Checked | Loaded nat | Swapped nat | Clearing | Ending | Done

record gstate =
  comm :: cpc
  keypc :: "nat \<Rightarrow> kpc"
  reqs :: nat
  replies :: nat
  concp :: bool
  nposted :: nat
  ends :: nat

definition ginit :: gstate where
  "ginit = \<lparr>comm = Begin, keypc = (\<lambda>_. Waiting), reqs = 0, replies = 0, concp = False, nposted = 0, ends = 0\<rparr>"

definition at_key :: "nat \<Rightarrow> kpc \<Rightarrow> gstate \<Rightarrow> gstate" where
  "at_key i p s = s\<lparr>keypc := (keypc s)(i := p)\<rparr>"

inductive gstep :: "nat \<Rightarrow> (nat \<Rightarrow> nat) \<Rightarrow> gstate \<Rightarrow> gstate \<Rightarrow> bool" for n wk where
  set_pending: "comm s = Begin \<Longrightarrow> gstep n wk s (s\<lparr>concp := True, comm := if n = 0 then Stop else Count 0\<rparr>)"
| count_key: "comm s = Count k \<Longrightarrow>
    gstep n wk s (s\<lparr>reqs := reqs s + 1, comm := if Suc k = n then ResetPending k else Post k\<rparr>)"
| reset_pending: "comm s = ResetPending k \<Longrightarrow> gstep n wk s (s\<lparr>concp := False, comm := Post k\<rparr>)"
| post_key: "comm s = Post k \<Longrightarrow>
    gstep n wk s (s\<lparr>nposted := Suc k, comm := if Suc k = n then Stop else Count (Suc k)\<rparr>)"
| take_key: "i < nposted s \<Longrightarrow> keypc s i = Waiting \<Longrightarrow> \<forall>j < i. wk j = wk i \<longrightarrow> keypc s j = Done \<Longrightarrow>
    gstep n wk s (at_key i Handling s)"
| queue_value: "keypc s i = Handling \<Longrightarrow> gstep n wk s (at_key i Queued s)"
| count_reply: "keypc s i = Queued \<Longrightarrow> gstep n wk s (at_key i Counted (s\<lparr>replies := replies s + 1\<rparr>))"
| check_pending: "keypc s i = Counted \<Longrightarrow> gstep n wk s (at_key i (if concp s then Done else Checked) s)"
| load_reqs: "keypc s i = Checked \<Longrightarrow> gstep n wk s (at_key i (Loaded (reqs s)) s)"
| swap_replies: "keypc s i = Loaded r \<Longrightarrow>
    gstep n wk s (at_key i (Swapped (replies s)) (s\<lparr>replies := if replies s = r then 0 else replies s\<rparr>))"
| compare: "keypc s i = Swapped v \<Longrightarrow> gstep n wk s (at_key i (if v = reqs s then Clearing else Done) s)"
| clear_reqs: "keypc s i = Clearing \<Longrightarrow> gstep n wk s (at_key i Ending (s\<lparr>reqs := 0\<rparr>))"
| send_end: "keypc s i = Ending \<Longrightarrow> gstep n wk s (at_key i Done (s\<lparr>ends := ends s + 1, replies := 0\<rparr>))"

inductive greach :: "nat \<Rightarrow> (nat \<Rightarrow> nat) \<Rightarrow> gstate \<Rightarrow> bool" for n wk where
  init: "greach n wk ginit"
| step: "greach n wk s \<Longrightarrow> gstep n wk s s' \<Longrightarrow> greach n wk s'"

lemma at_key_simps [simp]: "comm (at_key i p s) = comm s" "reqs (at_key i p s) = reqs s"
  "replies (at_key i p s) = replies s" "concp (at_key i p s) = concp s" "nposted (at_key i p s) = nposted s"
  "ends (at_key i p s) = ends s" "keypc (at_key i p s) = (keypc s)(i := p)"
  by (simp_all add: at_key_def)

subsection \<open>What holds in every interleaving\<close>

fun answered :: "kpc \<Rightarrow> bool" where
  "answered Waiting = False"
| "answered Handling = False"
| "answered Queued = False"
| "answered _ = True"

definition answered_keys :: "nat \<Rightarrow> gstate \<Rightarrow> nat set" where
  "answered_keys n s = {i. i < n \<and> answered (keypc s i)}"

text \<open>The comm thread's side: how far it is shows in the counters.\<close>

fun comm_ok :: "nat \<Rightarrow> cpc \<Rightarrow> nat \<Rightarrow> nat \<Rightarrow> bool \<Rightarrow> bool" where
  "comm_ok n Begin r p c \<longleftrightarrow> r = 0 \<and> p = 0 \<and> \<not> c"
| "comm_ok n (Count k) r p c \<longleftrightarrow> r = k \<and> p = k \<and> c \<and> k < n"
| "comm_ok n (ResetPending k) r p c \<longleftrightarrow> r = n \<and> p = k \<and> c \<and> Suc k = n"
| "comm_ok n (Post k) r p c \<longleftrightarrow> r = Suc k \<and> p = k \<and> c = (Suc k \<noteq> n) \<and> k < n"
| "comm_ok n Stop r p c \<longleftrightarrow> r = n \<and> p = n \<and> \<not> c"

text \<open>
  No worker has swapped the count of the replies yet. A worker that is past its check knows that all keys
  were posted; one that has swapped saw a key missing.
\<close>

fun open_key :: "nat \<Rightarrow> nat \<Rightarrow> bool \<Rightarrow> kpc \<Rightarrow> bool" where
  "open_key n r c Checked \<longleftrightarrow> r = n \<and> \<not> c"
| "open_key n r c (Loaded x) \<longleftrightarrow> x = n \<and> r = n \<and> \<not> c"
| "open_key n r c (Swapped v) \<longleftrightarrow> v \<noteq> n \<and> r = n \<and> \<not> c"
| "open_key n r c Clearing \<longleftrightarrow> False"
| "open_key n r c Ending \<longleftrightarrow> False"
| "open_key n r c _ \<longleftrightarrow> True"

text \<open>A worker that will find the count complete.\<close>

fun will_swap :: "nat \<Rightarrow> kpc \<Rightarrow> bool" where
  "will_swap n Counted = True"
| "will_swap n Checked = True"
| "will_swap n (Loaded r) = (r = n)"
| "will_swap n _ = False"

definition open_phase :: "nat \<Rightarrow> gstate \<Rightarrow> bool" where
  "open_phase n s \<longleftrightarrow> comm_ok n (comm s) (reqs s) (nposted s) (concp s) \<and> ends s = 0
     \<and> replies s = card (answered_keys n s) \<and> (\<forall>i. nposted s \<le> i \<longrightarrow> keypc s i = Waiting)
     \<and> (\<forall>i. open_key n (reqs s) (concp s) (keypc s i))
     \<and> (card (answered_keys n s) = n \<longrightarrow> (\<exists>i < n. will_swap n (keypc s i)))"

text \<open>All keys were answered; the worker \<open>w\<close> has swapped the count.\<close>

definition all_answered :: "nat \<Rightarrow> gstate \<Rightarrow> bool" where
  "all_answered n s \<longleftrightarrow> comm s = Stop \<and> \<not> concp s \<and> nposted s = n \<and> (\<forall>i < n. answered (keypc s i))
     \<and> (\<forall>i \<ge> n. keypc s i = Waiting)"

definition swapped_phase :: "nat \<Rightarrow> gstate \<Rightarrow> bool" where
  "swapped_phase n s \<longleftrightarrow> all_answered n s \<and> replies s = 0 \<and> reqs s = n \<and> ends s = 0
     \<and> (\<forall>i. keypc s i \<noteq> Ending) \<and> (\<forall>i r. keypc s i = Loaded r \<longrightarrow> r = n)
     \<and> (\<exists>i < n. keypc s i \<in> {Swapped n, Clearing})"

text \<open>The count of the requests was cleared.\<close>

definition closed_phase :: "nat \<Rightarrow> gstate \<Rightarrow> bool" where
  "closed_phase n s \<longleftrightarrow> all_answered n s \<and> replies s = 0 \<and> reqs s = 0 \<and> (0 < ends s \<or> (\<exists>i < n. keypc s i = Ending))"

lemma answered_keys_at [simp]:
  "i < n \<Longrightarrow> answered_keys n (at_key i p s) =
    (if answered p then insert i (answered_keys n s) else answered_keys n s - {i})"
  "answered_keys n (s\<lparr>comm := c\<rparr>) = answered_keys n s" "answered_keys n (s\<lparr>reqs := r\<rparr>) = answered_keys n s"
  "answered_keys n (s\<lparr>replies := r\<rparr>) = answered_keys n s" "answered_keys n (s\<lparr>concp := b\<rparr>) = answered_keys n s"
  "answered_keys n (s\<lparr>nposted := r\<rparr>) = answered_keys n s" "answered_keys n (s\<lparr>ends := r\<rparr>) = answered_keys n s"
  by (auto simp: answered_keys_def)

lemma answered_keys_fin [simp]: "finite (answered_keys n s)" and answered_keys_le: "card (answered_keys n s) \<le> n"
proof -
  show "finite (answered_keys n s)" by (simp add: answered_keys_def)
  have "card (answered_keys n s) \<le> card {..<n}" by (rule card_mono) (auto simp: answered_keys_def)
  then show "card (answered_keys n s) \<le> n" by simp
qed

lemma answered_keys_all: "card (answered_keys n s) = n \<Longrightarrow> i < n \<Longrightarrow> answered (keypc s i)"
proof -
  assume c: "card (answered_keys n s) = n" and i: "i < n"
  have "answered_keys n s = {..<n}" by (rule card_subset_eq) (auto simp: answered_keys_def c [unfolded answered_keys_def])
  with i show ?thesis by (auto simp: answered_keys_def)
qed

lemma comm_ok_posted: "comm_ok n c r p b \<Longrightarrow> p \<le> n" "comm_ok n c r n b \<Longrightarrow> 0 < n \<Longrightarrow> c = Stop"
  "comm_ok n c r p False \<Longrightarrow> 0 < p \<Longrightarrow> r = n"
  by (cases c; auto)+

lemma open_lt: "open_phase n s \<Longrightarrow> keypc s i \<noteq> Waiting \<Longrightarrow> i < nposted s \<and> i < n"
  unfolding open_phase_def by (metis comm_ok_posted(1) not_le order_less_le_trans)

text \<open>When all keys are answered, all were posted.\<close>

lemma open_full:
  assumes "open_phase n s" "card (answered_keys n s) = n" "0 < n"
  shows "nposted s = n" "comm s = Stop" "\<not> concp s" "reqs s = n"
proof -
  have ok: "comm_ok n (comm s) (reqs s) (nposted s) (concp s)" using assms(1) by (simp add: open_phase_def)
  have "keypc s (n - 1) \<noteq> Waiting" using answered_keys_all [OF assms(2), of "n - 1"] assms(3) by auto
  then have "n - 1 < nposted s" using open_lt [OF assms(1)] by blast
  with comm_ok_posted(1) [OF ok] assms(3) show p: "nposted s = n" by simp
  show c: "comm s = Stop" using comm_ok_posted(2) [OF ok [unfolded p] assms(3)] .
  show "\<not> concp s" "reqs s = n" using ok by (simp_all add: c)
qed

lemma open_move:
  assumes "open_phase n s" "keypc s i \<noteq> Waiting \<or> i < nposted s" "answered p = answered (keypc s i)"
    and "open_key n (reqs s) (concp s) p"
    and "card (answered_keys n s) = n \<longrightarrow> will_swap n p \<or> \<not> will_swap n (keypc s i)"
  shows "open_phase n (at_key i p s)"
proof -
  have i: "i < nposted s" using assms(2) open_lt [OF assms(1)] by blast
  have "comm_ok n (comm s) (reqs s) (nposted s) (concp s)" using assms(1) by (simp add: open_phase_def)
  from comm_ok_posted(1) [OF this] i have n: "i < n" by simp
  have same: "answered_keys n (at_key i p s) = answered_keys n s"
    using assms(3) n by (auto simp: answered_keys_def)
  have "card (answered_keys n s) = n \<longrightarrow> (\<exists>j < n. will_swap n (if j = i then p else keypc s j))"
    using assms(1,5) n unfolding open_phase_def by metis
  then show ?thesis
    using assms(1,4) i unfolding open_phase_def same at_key_simps fun_upd_apply by simp
qed

lemma open_key_of: "open_phase n s \<Longrightarrow> keypc s i = p \<Longrightarrow> open_key n (reqs s) (concp s) p"
  by (auto simp: open_phase_def)

text \<open>Before the comm thread is done, no worker is past its check.\<close>

lemma open_key_any: "open_key n r True p \<Longrightarrow> open_key n r' c' p"
  by (cases p) auto

lemma open_step:
  assumes "gstep n wk s s'" "open_phase n s" "0 < n"
  shows "open_phase n s' \<or> swapped_phase n s'"
  using assms(1)
proof cases
  case set_pending
  then have "\<forall>i. keypc s i = Waiting" using assms(2) by (auto simp: open_phase_def)
  with set_pending show ?thesis using assms(2,3) by (auto simp: open_phase_def)
next
  case (count_key k)
  then show ?thesis using assms(2) open_key_any by (fastforce simp: open_phase_def)
next
  case (reset_pending k)
  then show ?thesis using assms(2) open_key_any by (fastforce simp: open_phase_def)
next
  case (post_key k)
  then show ?thesis using assms(2) by (auto simp: open_phase_def)
next
  case (take_key i)
  then show ?thesis using open_move [OF assms(2), of i Handling] by simp
next
  case (queue_value i)
  then show ?thesis using open_move [OF assms(2), of i Queued] by simp
next
  case (count_reply i)
  have i: "i < nposted s" "i < n" using open_lt [OF assms(2), of i] count_reply(2) by simp_all
  have "i \<notin> answered_keys n s" using count_reply(2) by (simp add: answered_keys_def)
  then show ?thesis using assms(2) i unfolding count_reply(1) open_phase_def by auto
next
  case (check_pending i)
  have i: "0 < nposted s" using open_lt [OF assms(2), of i] check_pending(2) by simp
  have ok: "comm_ok n (comm s) (reqs s) (nposted s) (concp s)" using assms(2) by (simp add: open_phase_def)
  have "\<not> concp s \<Longrightarrow> reqs s = n" using comm_ok_posted(3) [of n "comm s" "reqs s" "nposted s"] ok i by simp
  then show ?thesis
    using open_move [OF assms(2), of i "if concp s then Done else Checked"] check_pending
      open_full(3) [OF assms(2) _ assms(3)] by auto
next
  case (load_reqs i)
  have "reqs s = n" "\<not> concp s" using open_key_of [OF assms(2) load_reqs(2)] by simp_all
  then show ?thesis using open_move [OF assms(2), of i "Loaded n"] load_reqs by simp
next
  case (swap_replies i r)
  have r: "r = n" "replies s = card (answered_keys n s)" "reqs s = n" "\<not> concp s" "ends s = 0"
    using assms(2) open_key_of [OF assms(2) swap_replies(2)] by (simp_all add: open_phase_def)
  have i: "i < n" using open_lt [OF assms(2), of i] swap_replies(2) by simp
  show ?thesis
  proof (cases "replies s = n")
    case True
    then have all: "answered (keypc s j)" if "j < n" for j using answered_keys_all that r(2) by simp
    have "\<forall>j \<ge> n. keypc s j = Waiting" using open_lt [OF assms(2)] by (meson not_le)
    moreover have "comm s = Stop" "nposted s = n"
      using open_full [OF assms(2) _ assms(3)] True r(2) by simp_all
    moreover have "keypc s j \<noteq> Ending" "keypc s j = Loaded x \<Longrightarrow> x = n" for j x
      using open_key_of [OF assms(2), of j] by auto
    ultimately have "swapped_phase n s'"
      unfolding swap_replies(1) swapped_phase_def all_answered_def
      using all i r True by auto
    then show ?thesis ..
  next
    case False
    then have "s\<lparr>replies := if replies s = r then 0 else replies s\<rparr> = s" using r(1) by simp
    then have "s' = at_key i (Swapped (replies s)) s" unfolding swap_replies(1) by (simp only:)
    with False show ?thesis
      using open_move [OF assms(2), of i "Swapped (replies s)"] swap_replies(2) r by simp
  qed
next
  case (compare i v)
  have "v \<noteq> n" "reqs s = n" using open_key_of [OF assms(2) compare(2)] by simp_all
  then show ?thesis using open_move [OF assms(2), of i Done] compare by auto
next
  case (clear_reqs i)
  then show ?thesis using open_key_of [OF assms(2) clear_reqs(2)] by simp
next
  case (send_end i)
  then show ?thesis using open_key_of [OF assms(2) send_end(2)] by simp
qed

text \<open>Once all keys are answered, only the last steps of the workers are left.\<close>

lemma all_answeredD: "all_answered n s \<Longrightarrow> keypc s i \<noteq> Handling \<and> keypc s i \<noteq> Queued"
    "all_answered n s \<Longrightarrow> i < nposted s \<Longrightarrow> keypc s i \<noteq> Waiting"
    "all_answered n s \<Longrightarrow> keypc s i \<noteq> Waiting \<Longrightarrow> i < n"
proof -
  assume s: "all_answered n s"
  show "keypc s i \<noteq> Handling \<and> keypc s i \<noteq> Queued"
    using s by (cases "i < n"; cases "keypc s i") (auto simp: all_answered_def)
  show "i < nposted s \<Longrightarrow> keypc s i \<noteq> Waiting" using s by (metis all_answered_def answered.simps(1))
  show "keypc s i \<noteq> Waiting \<Longrightarrow> i < n" using s unfolding all_answered_def by (meson not_le)
qed

lemma all_answered_move: "all_answered n s \<Longrightarrow> keypc s i \<noteq> Waiting \<Longrightarrow> answered p \<Longrightarrow> all_answered n (at_key i p s)"
  by (auto simp: all_answered_def)

lemma all_answered_frame [simp]: "all_answered n (s\<lparr>replies := r\<rparr>) = all_answered n s"
  "all_answered n (s\<lparr>reqs := r\<rparr>) = all_answered n s" "all_answered n (s\<lparr>ends := r\<rparr>) = all_answered n s"
  by (simp_all add: all_answered_def)

lemma all_answered_comm: "all_answered n s \<Longrightarrow> comm s = Stop \<and> \<not> concp s"
  by (simp add: all_answered_def)

lemma swapped_step:
  assumes "gstep n wk s s'" "swapped_phase n s"
  shows "swapped_phase n s' \<or> closed_phase n s'"
proof -
  have a: "all_answered n s" and s: "replies s = 0" "reqs s = n" "ends s = 0" "\<forall>i. keypc s i \<noteq> Ending"
    "\<forall>i r. keypc s i = Loaded r \<longrightarrow> r = n" "\<exists>i < n. keypc s i \<in> {Swapped n, Clearing}"
    using assms(2) by (simp_all add: swapped_phase_def)
  note comm = all_answered_comm [OF a]
  have move: "swapped_phase n (at_key i p s)"
    if "keypc s i \<noteq> Waiting" "answered p" "p \<noteq> Ending" "\<forall>r. p = Loaded r \<longrightarrow> r = n"
      "keypc s i \<in> {Swapped n, Clearing} \<longrightarrow> p \<in> {Swapped n, Clearing}" for i p
    using all_answered_move [OF a that(1,2)] s that(3-5) unfolding swapped_phase_def by (auto split: if_splits)
  show ?thesis
    using assms(1)
  proof cases
    case (check_pending i)
    then show ?thesis using comm move [of i Checked] by simp
  next
    case (load_reqs i)
    then show ?thesis using s(2) move [of i "Loaded n"] by simp
  next
    case (swap_replies i r)
    have "s\<lparr>replies := if replies s = r then 0 else replies s\<rparr> = s" using s(1) by simp
    then have "s' = at_key i (Swapped 0) s" unfolding swap_replies(1) using s(1) by (simp only:)
    with swap_replies(2) show ?thesis using move [of i "Swapped 0"] by simp
  next
    case (compare i v)
    then show ?thesis using s(2) move [of i Clearing] move [of i Done] by (cases "v = n") auto
  next
    case (clear_reqs i)
    have "i < n" using all_answeredD(3) [OF a, of i] clear_reqs(2) by simp
    then show ?thesis
      using clear_reqs s(1) all_answered_move [of n "s\<lparr>reqs := 0\<rparr>" i Ending] a
      by (auto simp: closed_phase_def)
  qed (use comm s(4) all_answeredD [OF a] in auto)
qed

lemma closed_step:
  assumes "gstep n wk s s'" "closed_phase n s"
  shows "closed_phase n s'"
proof -
  have a: "all_answered n s" and s: "replies s = 0" "reqs s = 0" "0 < ends s \<or> (\<exists>i < n. keypc s i = Ending)"
    using assms(2) by (simp_all add: closed_phase_def)
  note comm = all_answered_comm [OF a]
  have move: "closed_phase n (at_key i p s)" if "keypc s i \<noteq> Waiting" "answered p" "keypc s i \<noteq> Ending" for i p
    using all_answered_move [OF a that(1,2)] s that(3) unfolding closed_phase_def by auto
  show ?thesis
    using assms(1)
  proof cases
    case (swap_replies i r)
    have "s\<lparr>replies := if replies s = r then 0 else replies s\<rparr> = s" using s(1) by simp
    then have "s' = at_key i (Swapped 0) s" unfolding swap_replies(1) using s(1) by (simp only:)
    with swap_replies(2) show ?thesis using move [of i "Swapped 0"] by simp
  next
    case (clear_reqs i)
    have "s\<lparr>reqs := 0\<rparr> = s" using s(2) by simp
    then have "s' = at_key i Ending s" unfolding clear_reqs(1) by (simp only:)
    with clear_reqs(2) show ?thesis using move [of i Ending] by simp
  next
    case (send_end i)
    then show ?thesis
      using a s(2) all_answered_move [of n "s\<lparr>ends := ends s + 1, replies := 0\<rparr>" i Done]
      by (simp add: closed_phase_def)
  qed (use comm move all_answeredD [OF a] in auto)
qed

definition ginv :: "nat \<Rightarrow> gstate \<Rightarrow> bool" where
  "ginv n s \<longleftrightarrow> open_phase n s \<or> swapped_phase n s \<or> closed_phase n s"

lemma reach_inv:
  assumes "greach n wk s" "0 < n"
  shows "ginv n s"
  using assms(1)
proof induction
  case init
  have "answered_keys n ginit = {}" by (auto simp: answered_keys_def ginit_def)
  then have "open_phase n ginit" using assms(2) by (simp add: open_phase_def) (simp add: ginit_def)
  then show ?case by (simp add: ginv_def)
next
  case (step s s')
  then show ?case
    using open_step [OF step(2) _ assms(2)] swapped_step [OF step(2)] closed_step [OF step(2)]
    unfolding ginv_def by blast
qed

subsection \<open>Progress\<close>

fun krank :: "kpc \<Rightarrow> nat" where
  "krank Waiting = 9" | "krank Handling = 8" | "krank Queued = 7" | "krank Counted = 6" | "krank Checked = 5"
| "krank (Loaded r) = 4" | "krank (Swapped v) = 3" | "krank Clearing = 2" | "krank Ending = 1" | "krank Done = 0"

fun crank :: "nat \<Rightarrow> cpc \<Rightarrow> nat" where
  "crank n Begin = 3 * n + 1" | "crank n (Count k) = 3 * (n - k)" | "crank n (ResetPending k) = 3 * (n - k) - 1"
| "crank n (Post k) = 3 * (n - k) - 2" | "crank n Stop = 0"

definition grank :: "nat \<Rightarrow> gstate \<Rightarrow> nat" where
  "grank n s = crank n (comm s) + (\<Sum>i < n. krank (keypc s i))"

definition finished :: "nat \<Rightarrow> gstate \<Rightarrow> bool" where
  "finished n s \<longleftrightarrow> comm s = Stop \<and> (\<forall>i < n. keypc s i = Done)"

text \<open>Keys that were not posted wait, and the comm thread is inside its loop.\<close>

lemma ginv_comm:
  assumes "ginv n s"
  shows "nposted s \<le> n" "keypc s i \<noteq> Waiting \<Longrightarrow> i < n" "comm s \<in> {Count k, ResetPending k, Post k} \<Longrightarrow> k < n"
    "comm s = ResetPending k \<Longrightarrow> Suc k = n" "comm s = Stop \<Longrightarrow> nposted s = n"
proof -
  have o: "nposted s \<le> n \<and> (comm s \<in> {Count k, ResetPending k, Post k} \<longrightarrow> k < n)
      \<and> (comm s = ResetPending k \<longrightarrow> Suc k = n) \<and> (comm s = Stop \<longrightarrow> nposted s = n)" if "open_phase n s"
    using that comm_ok_posted(1) [of n "comm s" "reqs s" "nposted s" "concp s"] unfolding open_phase_def by auto
  have a: "all_answered n s" if "\<not> open_phase n s"
    using assms that by (auto simp: ginv_def swapped_phase_def closed_phase_def)
  have "nposted s \<le> n \<and> (keypc s i \<noteq> Waiting \<longrightarrow> i < n) \<and> (comm s \<in> {Count k, ResetPending k, Post k} \<longrightarrow> k < n)
      \<and> (comm s = ResetPending k \<longrightarrow> Suc k = n) \<and> (comm s = Stop \<longrightarrow> nposted s = n)"
  proof (cases "open_phase n s")
    case True
    with o open_lt [OF True, of i] show ?thesis by blast
  next
    case False
    from a [OF False] all_answeredD(3) [OF a [OF False], of i] show ?thesis by (auto simp: all_answered_def)
  qed
  then show "nposted s \<le> n" "keypc s i \<noteq> Waiting \<Longrightarrow> i < n" "comm s \<in> {Count k, ResetPending k, Post k} \<Longrightarrow> k < n"
    "comm s = ResetPending k \<Longrightarrow> Suc k = n" "comm s = Stop \<Longrightarrow> nposted s = n" by blast+
qed

lemma sum_krank_at:
  fixes n :: nat
  assumes "i < n" "krank p < krank (f i)"
  shows "(\<Sum>j < n. krank ((f(i := p)) j)) < (\<Sum>j < n. krank (f j))"
  by (rule sum_strict_mono_ex1) (use assms in auto)

lemma grank_at: "i < n \<Longrightarrow> krank p < krank (keypc s i) \<Longrightarrow> comm s' = comm s \<Longrightarrow> keypc s' = keypc s \<Longrightarrow>
    grank n (at_key i p s') < grank n s"
  using sum_krank_at [of i n p "keypc s"] by (simp add: grank_def)

lemma gstep_rank:
  assumes "gstep n wk s s'" "ginv n s" "0 < n"
  shows "grank n s' < grank n s"
proof -
  note lt = ginv_comm(2) [OF assms(2)]
  show ?thesis
    using assms(1)
  proof cases
    case set_pending
    then show ?thesis using assms(3) by (simp add: grank_def)
  next
    case (count_key k)
    then show ?thesis using ginv_comm(3) [OF assms(2), of k] by (simp add: grank_def)
  next
    case (reset_pending k)
    then show ?thesis using ginv_comm(3) [OF assms(2), of k] by (simp add: grank_def)
  next
    case (post_key k)
    then have "k < n" using ginv_comm(3) [OF assms(2), of k] by simp
    then obtain d where "n = Suc (k + d)" using less_imp_Suc_add by blast
    with post_key show ?thesis by (auto simp: grank_def)
  next
    case (take_key i)
    then have "i < n" using ginv_comm(1) [OF assms(2)] by simp
    with take_key show ?thesis by (simp add: grank_at)
  qed (use lt in \<open>simp_all add: grank_at\<close>)
qed

lemma gstep_exists:
  assumes "ginv n s" "\<not> finished n s"
  shows "\<exists>s'. gstep n wk s s'"
proof (cases "comm s")
  case Stop
  then have p: "nposted s = n" using ginv_comm(5) [OF assms(1)] by simp
  obtain i where i: "i < n" "keypc s i \<noteq> Done" using assms(2) Stop by (auto simp: finished_def)
  define j where "j = (LEAST j. keypc s j \<noteq> Done)"
  have j: "keypc s j \<noteq> Done" "j \<le> i" "\<forall>k < j. keypc s k = Done"
    unfolding j_def using LeastI [of "\<lambda>j. keypc s j \<noteq> Done", OF i(2)]
      Least_le [of "\<lambda>j. keypc s j \<noteq> Done", OF i(2)] not_less_Least [of _ "\<lambda>j. keypc s j \<noteq> Done"] by blast+
  show ?thesis
  proof (cases "keypc s j")
    case Waiting
    have "j < nposted s" using j(2) i(1) p by simp
    from gstep.take_key [OF this Waiting, of wk n] j(3) show ?thesis by blast
  qed (use j(1) in \<open>auto intro: gstep.intros\<close>)
qed (auto intro: gstep.intros)

lemma run_finishes:
  assumes "greach n wk s" "0 < n"
  shows "\<exists>s'. (gstep n wk)\<^sup>*\<^sup>* s s' \<and> finished n s'"
  using assms(1)
proof (induction "grank n s" arbitrary: s rule: less_induct)
  case less
  show ?case
  proof (cases "finished n s")
    case False
    have inv: "ginv n s" by (rule reach_inv [OF less(2) assms(2)])
    from gstep_exists [OF inv False] obtain s1 where s1: "gstep n wk s s1" by blast
    from less(1) [OF gstep_rank [OF s1 inv assms(2)] greach.step [OF less(2) s1]]
    obtain s2 where "(gstep n wk)\<^sup>*\<^sup>* s1 s2" "finished n s2" by blast
    with s1 show ?thesis by (meson converse_rtranclp_into_rtranclp)
  qed blast
qed

lemma finished_ended:
  assumes "greach n wk s" "0 < n" "finished n s"
  shows "0 < ends s"
proof -
  have "\<not> open_phase n s"
  proof
    assume o: "open_phase n s"
    have "answered_keys n s = {..<n}" using assms(3) by (auto simp: answered_keys_def finished_def)
    then obtain i where "i < n" "will_swap n (keypc s i)" using o by (auto simp: open_phase_def)
    with assms(3) show False by (auto simp: finished_def)
  qed
  moreover have "\<not> swapped_phase n s" using assms(3) by (auto simp: finished_def swapped_phase_def)
  ultimately show "0 < ends s"
    using reach_inv [OF assms(1,2)] assms(3) by (auto simp: ginv_def closed_phase_def finished_def)
qed

lemma greach_rtranclp: "(gstep n wk)\<^sup>*\<^sup>* s s' \<Longrightarrow> greach n wk s \<Longrightarrow> greach n wk s'"
  by (induction rule: rtranclp_induct) (auto intro: greach.step)

lemma end_reachable: "0 < n \<Longrightarrow> \<exists>s. greach n wk s \<and> finished n s \<and> 0 < ends s"
  using run_finishes [OF greach.init, of n wk] greach_rtranclp [OF _ greach.init] finished_ended by blast

text \<open>With one worker the keys are answered in their order, one at a time.\<close>

definition serial :: "gstate \<Rightarrow> bool" where
  "serial s \<longleftrightarrow> (\<forall>i j. i < j \<and> keypc s j \<noteq> Waiting \<longrightarrow> keypc s i = Done)"

definition one_end :: "nat \<Rightarrow> gstate \<Rightarrow> bool" where
  "one_end n s \<longleftrightarrow> serial s \<and> ends s \<le> 1 \<and> (ends s = 1 \<longrightarrow> (\<forall>i < n. keypc s i = Done))"

lemma serial_at: "serial s \<Longrightarrow> keypc s i \<noteq> Waiting \<Longrightarrow> keypc s i \<noteq> Done \<Longrightarrow> keypc s' = keypc s \<Longrightarrow> serial (at_key i p s')"
  by (auto simp: serial_def)

lemma one_end_at:
  assumes "one_end n s" "keypc s i \<noteq> Waiting" "keypc s i \<noteq> Done" "i < n" "keypc s' = keypc s" "ends s' = ends s"
  shows "one_end n (at_key i p s')"
  using assms serial_at [of s i s' p] by (auto simp: one_end_def)

lemma one_end_comm: "one_end n s \<Longrightarrow> keypc s' = keypc s \<Longrightarrow> ends s' = ends s \<Longrightarrow> one_end n s'"
  by (simp add: one_end_def serial_def)

lemma one_end_step:
  assumes "gstep n wk s s'" "\<forall>i. wk i = w" "ginv n s" "one_end n s"
  shows "one_end n s'"
proof -
  have s: "serial s" "ends s \<le> 1" "ends s = 1 \<Longrightarrow> i < n \<Longrightarrow> keypc s i = Done" for i
    using assms(4) by (simp_all add: one_end_def)
  note lt = ginv_comm(1,2) [OF assms(3)]
  show ?thesis
    using assms(1)
  proof cases
    case (take_key i)
    have d: "\<forall>j < i. keypc s j = Done" using take_key assms(2) by simp
    have w: "\<not> (i < j \<and> keypc s j \<noteq> Waiting)" for j using s(1) take_key(3) unfolding serial_def by fastforce
    have "serial s'" using s(1) d w unfolding take_key(1) serial_def by auto
    moreover have "ends s \<noteq> 1" using s(3) [of i] take_key lt(1) by auto
    ultimately show ?thesis using s(2) take_key(1) by (simp add: one_end_def)
  next
    case (send_end i)
    have i: "i < n" using lt(2) send_end(2) by simp
    have "\<not> open_phase n s" using open_key_of [OF _ send_end(2)] by auto
    moreover have "\<not> swapped_phase n s" using send_end(2) by (auto simp: swapped_phase_def)
    ultimately have "all_answered n s" using assms(3) by (simp add: ginv_def closed_phase_def)
    then have wait: "keypc s j \<noteq> Waiting" if "j < n" for j
      using that all_answeredD(2) [of n s j] by (simp add: all_answered_def)
    have "keypc s j = Done" if "j < n" "j \<noteq> i" for j
    proof (cases "j < i")
      case True
      with s(1) send_end(2) show ?thesis unfolding serial_def by fastforce
    next
      case False
      then have "i < j" using that(2) by simp
      with s(1) wait [OF that(1)] send_end(2) show ?thesis unfolding serial_def by fastforce
    qed
    moreover have "ends s = 0" using s(2) s(3) [of i] i send_end(2) by (cases "ends s = 1") auto
    ultimately show ?thesis
      using serial_at [OF s(1), of i "s\<lparr>ends := ends s + 1, replies := 0\<rparr>" Done] send_end by (simp add: one_end_def)
  qed (use assms(4) lt(2) in \<open>simp_all add: one_end_at one_end_comm\<close>)
qed

lemma one_worker:
  assumes "greach n wk s" "\<forall>i. wk i = w" "0 < n"
  shows "one_end n s"
  using assms(1)
proof induction
  case init
  show ?case by (simp add: one_end_def serial_def ginit_def)
next
  case (step s s')
  then show ?case using one_end_step assms(2) reach_inv assms(3) by blast
qed

text \<open>A state of a GET of two keys.\<close>

definition two_keys :: "cpc \<Rightarrow> kpc \<Rightarrow> kpc \<Rightarrow> nat \<Rightarrow> nat \<Rightarrow> bool \<Rightarrow> nat \<Rightarrow> nat \<Rightarrow> gstate" where
  "two_keys c p0 p1 r a b k e = \<lparr>comm = c, keypc = (\<lambda>i. if i = 0 then p0 else if i = 1 then p1 else Waiting),
     reqs = r, replies = a, concp = b, nposted = k, ends = e\<rparr>"

lemma two_keys_simps [simp]:
  "comm (two_keys c p0 p1 r a b k e) = c" "reqs (two_keys c p0 p1 r a b k e) = r"
  "replies (two_keys c p0 p1 r a b k e) = a" "concp (two_keys c p0 p1 r a b k e) = b"
  "nposted (two_keys c p0 p1 r a b k e) = k" "ends (two_keys c p0 p1 r a b k e) = e"
  "keypc (two_keys c p0 p1 r a b k e) 0 = p0" "keypc (two_keys c p0 p1 r a b k e) (Suc 0) = p1"
  "two_keys c p0 p1 r a b k e\<lparr>comm := c'\<rparr> = two_keys c' p0 p1 r a b k e"
  "two_keys c p0 p1 r a b k e\<lparr>reqs := r'\<rparr> = two_keys c p0 p1 r' a b k e"
  "two_keys c p0 p1 r a b k e\<lparr>replies := a'\<rparr> = two_keys c p0 p1 r a' b k e"
  "two_keys c p0 p1 r a b k e\<lparr>concp := b'\<rparr> = two_keys c p0 p1 r a b' k e"
  "two_keys c p0 p1 r a b k e\<lparr>nposted := k'\<rparr> = two_keys c p0 p1 r a b k' e"
  "two_keys c p0 p1 r a b k e\<lparr>ends := e'\<rparr> = two_keys c p0 p1 r a b k e'"
  "at_key 0 p (two_keys c p0 p1 r a b k e) = two_keys c p p1 r a b k e"
  "at_key (Suc 0) p (two_keys c p0 p1 r a b k e) = two_keys c p0 p r a b k e"
  by (auto simp: two_keys_def at_key_def)

subsection \<open>Properties\<close>







text \<open>
  C36: two workers can both send \<open>END\<close> for one GET: a worker that comes to compare the counts after the
  other one has cleared both finds zero equal to zero.
\<close>

theorem two_workers_two_ENDs: "\<exists>s. greach 2 (\<lambda>i. i) s \<and> finished 2 s \<and> ends s = 2"
proof -
  let ?r = "greach 2 (\<lambda>i :: nat. i)"
  have "?r (two_keys Begin Waiting Waiting 0 0 False 0 0)"
    using greach.init [of 2 "\<lambda>i. i"] by (simp add: ginit_def two_keys_def if_distrib cong: if_cong)
  from greach.step [OF this gstep.set_pending] have "?r (two_keys (Count 0) Waiting Waiting 0 0 True 0 0)" by simp
  from greach.step [OF this gstep.count_key] have "?r (two_keys (Post 0) Waiting Waiting 1 0 True 0 0)" by simp
  from greach.step [OF this gstep.post_key] have "?r (two_keys (Count 1) Waiting Waiting 1 0 True 1 0)" by simp
  from greach.step [OF this gstep.count_key] have "?r (two_keys (ResetPending 1) Waiting Waiting 2 0 True 1 0)"
    by (simp add: numeral_2_eq_2)
  from greach.step [OF this gstep.reset_pending] have "?r (two_keys (Post 1) Waiting Waiting 2 0 False 1 0)" by simp
  from greach.step [OF this gstep.post_key] have "?r (two_keys Stop Waiting Waiting 2 0 False 2 0)"
    by (simp add: numeral_2_eq_2)
  from greach.step [OF this gstep.take_key, of 0] have "?r (two_keys Stop Handling Waiting 2 0 False 2 0)" by simp
  from greach.step [OF this gstep.take_key, of 1] have "?r (two_keys Stop Handling Handling 2 0 False 2 0)" by simp
  from greach.step [OF this gstep.queue_value, of 0] have "?r (two_keys Stop Queued Handling 2 0 False 2 0)" by simp
  from greach.step [OF this gstep.queue_value, of 1] have "?r (two_keys Stop Queued Queued 2 0 False 2 0)" by simp
  from greach.step [OF this gstep.count_reply, of 0] have "?r (two_keys Stop Counted Queued 2 1 False 2 0)" by simp
  from greach.step [OF this gstep.count_reply, of 1] have "?r (two_keys Stop Counted Counted 2 2 False 2 0)"
    by (simp add: numeral_2_eq_2)
  from greach.step [OF this gstep.check_pending, of 0] have "?r (two_keys Stop Checked Counted 2 2 False 2 0)" by simp
  from greach.step [OF this gstep.check_pending, of 1] have "?r (two_keys Stop Checked Checked 2 2 False 2 0)" by simp
  from greach.step [OF this gstep.load_reqs, of 0] have "?r (two_keys Stop (Loaded 2) Checked 2 2 False 2 0)" by simp
  from greach.step [OF this gstep.load_reqs, of 1] have "?r (two_keys Stop (Loaded 2) (Loaded 2) 2 2 False 2 0)" by simp
  from greach.step [OF this gstep.swap_replies, of 0] have "?r (two_keys Stop (Swapped 2) (Loaded 2) 2 0 False 2 0)" by simp
  from greach.step [OF this gstep.swap_replies, of 1] have "?r (two_keys Stop (Swapped 2) (Swapped 0) 2 0 False 2 0)" by simp
  from greach.step [OF this gstep.compare, of 0] have "?r (two_keys Stop Clearing (Swapped 0) 2 0 False 2 0)" by simp
  from greach.step [OF this gstep.clear_reqs, of 0] have "?r (two_keys Stop Ending (Swapped 0) 0 0 False 2 0)" by simp
  from greach.step [OF this gstep.compare, of 1] have "?r (two_keys Stop Ending Clearing 0 0 False 2 0)" by simp
  from greach.step [OF this gstep.clear_reqs, of 1] have "?r (two_keys Stop Ending Ending 0 0 False 2 0)" by simp
  from greach.step [OF this gstep.send_end, of 0] have "?r (two_keys Stop Done Ending 0 0 False 2 1)" by simp
  from greach.step [OF this gstep.send_end, of 1] have "?r (two_keys Stop Done Done 0 0 False 2 2)"
    by (simp add: numeral_2_eq_2)
  moreover have "finished 2 (two_keys Stop Done Done 0 0 False 2 2)"
    by (auto simp: finished_def less_2_cases_iff)
  ultimately show ?thesis by (metis two_keys_simps(6))
qed

end
