(* ===== verification/BusyRace.thy ===== *)
theory BusyRace
  imports Main
begin

section \<open>Free, busy, and the commands that wait (aConnReq.cpp, threadKVdata.cpp, threadComm.cpp)\<close>

text \<open>
  \<open>Busy\<close> and \<open>PendingCmdQ\<close> of one connection, between its comm thread, which runs \<open>Post2KVdataTSQ\<close> for
  each command that was read and for each signal on its pipe, and the workers, which free the connection
  at the end of a command, then look whether commands wait, and send the signal. Each access to
  \<open>Busy\<close> or to the queue is a step of its own. Commands are numbered as they arrive; of a command in
  progress only its end matters here.
\<close>

text \<open>
  The comm thread between its steps: it has set \<open>Busy\<close> for a new command or for a signal, or it has found
  the connection busy and has the command still to queue.
\<close>

datatype tsq_pc = Ready | GotBusy "nat option" | FoundBusy nat

record bstate =
  tsq :: tsq_pc
  busy :: bool
  waiting :: "nat list"
  started :: "nat list"
  arrived :: nat
  working :: bool
  looking :: nat
  signals :: nat
  crashed :: bool

definition binit :: bstate where
  "binit = \<lparr>tsq = Ready, busy = False, waiting = [], started = [], arrived = 0, working = False, looking = 0,
     signals = 0, crashed = False\<rparr>"

definition start :: "nat \<Rightarrow> nat list \<Rightarrow> bstate \<Rightarrow> bstate" where
  "start k ks s = s\<lparr>waiting := ks, started := started s @ [k], working := True, tsq := Ready\<rparr>"

inductive bstep :: "bstate \<Rightarrow> bstate \<Rightarrow> bool" where
  arrive: "\<not> crashed s \<Longrightarrow> tsq s = Ready \<Longrightarrow>
    bstep s (s\<lparr>arrived := arrived s + 1, busy := True,
      tsq := if busy s then FoundBusy (arrived s) else GotBusy (Some (arrived s))\<rparr>)"
| signal: "\<not> crashed s \<Longrightarrow> tsq s = Ready \<Longrightarrow> 0 < signals s \<Longrightarrow>
    bstep s (if busy s then s\<lparr>crashed := True\<rparr> else s\<lparr>signals := signals s - 1, busy := True, tsq := GotBusy None\<rparr>)"
| nothing: "\<not> crashed s \<Longrightarrow> tsq s = GotBusy None \<Longrightarrow> waiting s = [] \<Longrightarrow> bstep s (s\<lparr>busy := False, tsq := Ready\<rparr>)"
| start_new: "\<not> crashed s \<Longrightarrow> tsq s = GotBusy (Some k) \<Longrightarrow> waiting s = [] \<Longrightarrow> bstep s (start k [] s)"
| start_waiting: "\<not> crashed s \<Longrightarrow> tsq s = GotBusy x \<Longrightarrow> waiting s = j # js \<Longrightarrow>
    bstep s (start j (js @ (case x of None \<Rightarrow> [] | Some k \<Rightarrow> [k])) s)"
| enqueue: "\<not> crashed s \<Longrightarrow> tsq s = FoundBusy k \<Longrightarrow> bstep s (s\<lparr>waiting := waiting s @ [k], tsq := Ready\<rparr>)"
| finish: "\<not> crashed s \<Longrightarrow> working s \<Longrightarrow> bstep s (s\<lparr>working := False, busy := False, looking := looking s + 1\<rparr>)"
| look: "\<not> crashed s \<Longrightarrow> 0 < looking s \<Longrightarrow>
    bstep s (s\<lparr>looking := looking s - 1, signals := (if waiting s = [] then signals s else signals s + 1)\<rparr>)"

inductive breach :: "bstate \<Rightarrow> bool" where
  init: "breach binit"
| step: "breach s \<Longrightarrow> bstep s s' \<Longrightarrow> breach s'"

text \<open>The command the comm thread holds.\<close>

fun held :: "tsq_pc \<Rightarrow> nat list" where
  "held (GotBusy (Some k)) = [k]"
| "held (FoundBusy k) = [k]"
| "held _ = []"

definition binv :: "bstate \<Rightarrow> bool" where
  "binv s \<longleftrightarrow> started s @ waiting s @ held (tsq s) = [0..<arrived s]
     \<and> (if \<exists>x. tsq s = GotBusy x then busy s \<and> \<not> working s else busy s = working s)"

lemma binv_step:
  assumes "bstep s s'" "binv s"
  shows "binv s'"
  using assms(1)
proof cases
  case arrive
  then show ?thesis using assms(2) by (auto simp: binv_def)
next
  case (start_waiting x j js)
  then show ?thesis using assms(2) by (cases x) (auto simp: binv_def start_def)
qed (use assms(2) in \<open>auto simp: binv_def start_def\<close>)

lemma breach_inv: "breach s \<Longrightarrow> binv s"
proof (induction rule: breach.induct)
  case init
  show ?case by (simp add: binv_def binit_def)
next
  case (step s s')
  then show ?case using binv_step by blast
qed



text \<open>
  C38: a command can be left waiting although the connection is free and nothing is under way: the comm
  thread finds the connection busy, the worker frees it and sees an empty queue, and only then the
  comm thread queues the command.
\<close>

theorem command_left_waiting:
  "\<exists>s. breach s \<and> \<not> crashed s \<and> tsq s = Ready \<and> \<not> busy s \<and> \<not> working s \<and> looking s = 0 \<and> signals s = 0
    \<and> waiting s = [1]"
proof -
  let ?s = "\<lambda>t b ws ss a w l. \<lparr>tsq = t, busy = b, waiting = ws, started = ss, arrived = a, working = w,
    looking = l, signals = 0, crashed = False\<rparr>"
  have "breach (?s Ready False [] [] 0 False 0)" using breach.init by (simp add: binit_def)
  from breach.step [OF this bstep.arrive] have "breach (?s (GotBusy (Some 0)) True [] [] 1 False 0)" by simp
  from breach.step [OF this bstep.start_new] have "breach (?s Ready True [] [0] 1 True 0)" by (simp add: start_def)
  from breach.step [OF this bstep.arrive] have "breach (?s (FoundBusy 1) True [] [0] 2 True 0)"
    by (simp add: numeral_2_eq_2)
  from breach.step [OF this bstep.finish] have "breach (?s (FoundBusy 1) False [] [0] 2 False 1)" by simp
  from breach.step [OF this bstep.look] have "breach (?s (FoundBusy 1) False [] [0] 2 False 0)" by simp
  from breach.step [OF this bstep.enqueue] have "breach (?s Ready False [1] [0] 2 False 0)" by simp
  then show ?thesis by (intro exI conjI, assumption) simp_all
qed

text \<open>
  C39: the server can be stopped by the commands of one client alone: a command that arrives between the
  end of another one and its signal sets \<open>Busy\<close> again, and the signal then finds the connection busy.
\<close>

theorem signal_can_crash: "\<exists>s. breach s \<and> crashed s"
proof -
  let ?s = "\<lambda>t b ws ss a w l n. \<lparr>tsq = t, busy = b, waiting = ws, started = ss, arrived = a, working = w,
    looking = l, signals = n, crashed = False\<rparr>"
  have "breach (?s Ready False [] [] 0 False 0 0)" using breach.init by (simp add: binit_def)
  from breach.step [OF this bstep.arrive] have "breach (?s (GotBusy (Some 0)) True [] [] 1 False 0 0)" by simp
  from breach.step [OF this bstep.start_new] have "breach (?s Ready True [] [0] 1 True 0 0)" by (simp add: start_def)
  from breach.step [OF this bstep.arrive] have "breach (?s (FoundBusy 1) True [] [0] 2 True 0 0)"
    by (simp add: numeral_2_eq_2)
  from breach.step [OF this bstep.enqueue] have "breach (?s Ready True [1] [0] 2 True 0 0)" by simp
  from breach.step [OF this bstep.finish] have "breach (?s Ready False [1] [0] 2 False 1 0)" by simp
  from breach.step [OF this bstep.look] have "breach (?s Ready False [1] [0] 2 False 0 1)" by simp
  from breach.step [OF this bstep.arrive] have "breach (?s (GotBusy (Some 2)) True [1] [0] 3 False 0 1)" by simp
  from breach.step [OF this bstep.start_waiting [where x = "Some 2" and j = 1 and js = "[]"]] have "breach (?s Ready True [2] [0, 1] 3 True 0 1)"
    by (simp add: start_def)
  from breach.step [OF this bstep.signal] have "breach ((?s Ready True [2] [0, 1] 3 True 0 1)\<lparr>crashed := True\<rparr>)" by simp
  then show ?thesis by (intro exI conjI, assumption) simp
qed

end
