(* ===== verification/JHash.thy ===== *)
theory JHash
  imports Prelude
begin

section \<open>The key hash (hash.cpp)\<close>

text \<open>
  \<open>hash\<close> of hash.cpp: Bob Jenkins' lookup3 in its three little-endian variants, chosen by the
  alignment of the key pointer, and the big-endian variants of the same file. Memory is a
  function from a byte offset (relative to the key pointer) to the byte found there; it is total,
  so a read past the end of the key is a read of some byte, as in the code.
\<close>

type_synonym bytes_at = "nat \<Rightarrow> u8"
type_synonym abc = "u32 \<times> u32 \<times> u32"

definition rot :: "u32 \<Rightarrow> nat \<Rightarrow> u32" where
  "rot x k = push_bit k x XOR drop_bit (32 - k) x"

text \<open>One line of the \<open>mix\<close> macro: \<open>a -= c; a ^= rot(c, k); c += b\<close>.\<close>

definition mix_row :: "nat \<Rightarrow> u32 \<Rightarrow> u32 \<Rightarrow> u32 \<Rightarrow> abc" where
  "mix_row k a b c =
     (let a = a - c; a = a XOR rot c k; c = c + b in (a, b, c))"

definition mix :: "abc \<Rightarrow> abc" where
  "mix s =
     (let (a, b, c) = s;
          (a, b, c) = mix_row 4 a b c;
          (b, c, a) = mix_row 6 b c a;
          (c, a, b) = mix_row 8 c a b;
          (a, b, c) = mix_row 16 a b c;
          (b, c, a) = mix_row 19 b c a;
          (c, a, b) = mix_row 4 c a b
      in (a, b, c))"

text \<open>One statement pair of the \<open>final\<close> macro: \<open>x ^= y; x -= rot(y, k)\<close>.\<close>

definition final_row :: "nat \<Rightarrow> u32 \<Rightarrow> u32 \<Rightarrow> u32" where
  "final_row k x y = (let x = x XOR y in x - rot y k)"

definition final :: "abc \<Rightarrow> abc" where
  "final s =
     (let (a, b, c) = s;
          c = final_row 14 c b;
          a = final_row 11 a c;
          b = final_row 25 b a;
          c = final_row 16 c b;
          a = final_row 4 a c;
          b = final_row 14 b a;
          c = final_row 24 c b
      in (a, b, c))"

text \<open>
  Loads. \<open>ld8\<close> is \<open>(uint32_t)k8[i]\<close>; \<open>ld16\<close> and \<open>ld32\<close> are the aligned reads
  \<open>k[i]\<close> of a \<open>uint16_t *\<close> and a \<open>uint32_t *\<close> on a little-endian machine, \<open>ld32be\<close> on
  a big-endian one. Offsets are in bytes.
\<close>

definition ld8 :: "bytes_at \<Rightarrow> nat \<Rightarrow> u32" where
  "ld8 m i = ucast (m i)"

definition ld16 :: "bytes_at \<Rightarrow> nat \<Rightarrow> u32" where
  "ld16 m i = ld8 m i + push_bit 8 (ld8 m (i + 1))"

definition ld32 :: "bytes_at \<Rightarrow> nat \<Rightarrow> u32" where
  "ld32 m i = ld8 m i + push_bit 8 (ld8 m (i + 1)) + push_bit 16 (ld8 m (i + 2))
     + push_bit 24 (ld8 m (i + 3))"

definition ld32be :: "bytes_at \<Rightarrow> nat \<Rightarrow> u32" where
  "ld32be m i = push_bit 24 (ld8 m i) + push_bit 16 (ld8 m (i + 1)) + push_bit 8 (ld8 m (i + 2))
     + ld8 m (i + 3)"

subsection \<open>Little-endian, 32-bit aligned key\<close>

text \<open>The loops return the pointer, the remaining length and the state at the loop's exit.\<close>

fun loop32 :: "bytes_at \<Rightarrow> nat \<Rightarrow> nat \<Rightarrow> abc \<Rightarrow> nat \<times> nat \<times> abc" where
  "loop32 m k len (a, b, c) =
     (if len > 12
      then loop32 m (k + 12) (len - 12)
             (mix (a + ld32 m k, b + ld32 m (k + 4), c + ld32 m (k + 8)))
      else (k, len, (a, b, c)))"

text \<open>The switch on the last block, compiled without VALGRIND.\<close>

definition tail32 :: "bytes_at \<Rightarrow> nat \<Rightarrow> nat \<Rightarrow> abc \<Rightarrow> abc" where
  "tail32 m k len s =
     (let (a, b, c) = s; k0 = ld32 m k; k1 = ld32 m (k + 4); k2 = ld32 m (k + 8) in
      if len = 12 then (a + k0, b + k1, c + k2)
      else if len = 11 then (a + k0, b + k1, c + (k2 AND 0xffffff))
      else if len = 10 then (a + k0, b + k1, c + (k2 AND 0xffff))
      else if len = 9 then (a + k0, b + k1, c + (k2 AND 0xff))
      else if len = 8 then (a + k0, b + k1, c)
      else if len = 7 then (a + k0, b + (k1 AND 0xffffff), c)
      else if len = 6 then (a + k0, b + (k1 AND 0xffff), c)
      else if len = 5 then (a + k0, b + (k1 AND 0xff), c)
      else if len = 4 then (a + k0, b, c)
      else if len = 3 then (a + (k0 AND 0xffffff), b, c)
      else if len = 2 then (a + (k0 AND 0xffff), b, c)
      else if len = 1 then (a + (k0 AND 0xff), b, c)
      else (a, b, c))"

text \<open>The same switch compiled with VALGRIND: single bytes, with fall through.\<close>

definition tail32_valgrind :: "bytes_at \<Rightarrow> nat \<Rightarrow> nat \<Rightarrow> abc \<Rightarrow> abc" where
  "tail32_valgrind m k len s =
     (let (a, b, c) = s; k0 = ld32 m k; k1 = ld32 m (k + 4); k2 = ld32 m (k + 8) in
      if len = 12 then (a + k0, b + k1, c + k2)
      else if 8 \<le> len then
        (let c = (if len \<ge> 11 then c + push_bit 16 (ld8 m (k + 10)) else c);
             c = (if len \<ge> 10 then c + push_bit 8 (ld8 m (k + 9)) else c);
             c = (if len \<ge> 9 then c + ld8 m (k + 8) else c)
         in (a + k0, b + k1, c))
      else if 4 \<le> len then
        (let b = (if len \<ge> 7 then b + push_bit 16 (ld8 m (k + 6)) else b);
             b = (if len \<ge> 6 then b + push_bit 8 (ld8 m (k + 5)) else b);
             b = (if len \<ge> 5 then b + ld8 m (k + 4) else b)
         in (a + k0, b, c))
      else
        (let a = (if len \<ge> 3 then a + push_bit 16 (ld8 m (k + 2)) else a);
             a = (if len \<ge> 2 then a + push_bit 8 (ld8 m (k + 1)) else a);
             a = (if len \<ge> 1 then a + ld8 m k else a)
         in (a, b, c)))"

subsection \<open>Little-endian, 16-bit aligned key\<close>

fun loop16 :: "bytes_at \<Rightarrow> nat \<Rightarrow> nat \<Rightarrow> abc \<Rightarrow> nat \<times> nat \<times> abc" where
  "loop16 m k len (a, b, c) =
     (if len > 12
      then loop16 m (k + 12) (len - 12)
             (mix (a + (ld16 m k + push_bit 16 (ld16 m (k + 2))),
                   b + (ld16 m (k + 4) + push_bit 16 (ld16 m (k + 6))),
                   c + (ld16 m (k + 8) + push_bit 16 (ld16 m (k + 10)))))
      else (k, len, (a, b, c)))"

definition tail16 :: "bytes_at \<Rightarrow> nat \<Rightarrow> nat \<Rightarrow> abc \<Rightarrow> abc" where
  "tail16 m k len s =
     (let (a, b, c) = s;
          w0 = ld16 m k + push_bit 16 (ld16 m (k + 2));
          w1 = ld16 m (k + 4) + push_bit 16 (ld16 m (k + 6)) in
      if len = 12 then
        (a + w0, b + w1, c + (ld16 m (k + 8) + push_bit 16 (ld16 m (k + 10))))
      else if len \<ge> 10 then
        (let c = (if len = 11 then c + push_bit 16 (ld8 m (k + 10)) else c)
         in (a + w0, b + w1, c + ld16 m (k + 8)))
      else if len \<ge> 8 then
        (let c = (if len = 9 then c + ld8 m (k + 8) else c) in (a + w0, b + w1, c))
      else if len \<ge> 6 then
        (let b = (if len = 7 then b + push_bit 16 (ld8 m (k + 6)) else b)
         in (a + w0, b + ld16 m (k + 4), c))
      else if len \<ge> 4 then
        (let b = (if len = 5 then b + ld8 m (k + 4) else b) in (a + w0, b, c))
      else if len \<ge> 2 then
        (let a = (if len = 3 then a + push_bit 16 (ld8 m (k + 2)) else a)
         in (a + ld16 m k, b, c))
      else if len = 1 then (a + ld8 m k, b, c)
      else (a, b, c))"

subsection \<open>Little-endian, unaligned key\<close>

fun loop8 :: "bytes_at \<Rightarrow> nat \<Rightarrow> nat \<Rightarrow> abc \<Rightarrow> nat \<times> nat \<times> abc" where
  "loop8 m k len (a, b, c) =
     (if len > 12
      then loop8 m (k + 12) (len - 12)
        (let a = a + ld8 m k;
             a = a + push_bit 8 (ld8 m (k + 1));
             a = a + push_bit 16 (ld8 m (k + 2));
             a = a + push_bit 24 (ld8 m (k + 3));
             b = b + ld8 m (k + 4);
             b = b + push_bit 8 (ld8 m (k + 5));
             b = b + push_bit 16 (ld8 m (k + 6));
             b = b + push_bit 24 (ld8 m (k + 7));
             c = c + ld8 m (k + 8);
             c = c + push_bit 8 (ld8 m (k + 9));
             c = c + push_bit 16 (ld8 m (k + 10));
             c = c + push_bit 24 (ld8 m (k + 11))
         in mix (a, b, c))
      else (k, len, (a, b, c)))"

text \<open>All cases of the switch fall through: case \<open>j\<close> runs for every length from \<open>j\<close> on.\<close>

definition tail8 :: "bytes_at \<Rightarrow> nat \<Rightarrow> nat \<Rightarrow> abc \<Rightarrow> abc" where
  "tail8 m k len s =
     (let (a, b, c) = s;
          c = (if len \<ge> 12 then c + push_bit 24 (ld8 m (k + 11)) else c);
          c = (if len \<ge> 11 then c + push_bit 16 (ld8 m (k + 10)) else c);
          c = (if len \<ge> 10 then c + push_bit 8 (ld8 m (k + 9)) else c);
          c = (if len \<ge> 9 then c + ld8 m (k + 8) else c);
          b = (if len \<ge> 8 then b + push_bit 24 (ld8 m (k + 7)) else b);
          b = (if len \<ge> 7 then b + push_bit 16 (ld8 m (k + 6)) else b);
          b = (if len \<ge> 6 then b + push_bit 8 (ld8 m (k + 5)) else b);
          b = (if len \<ge> 5 then b + ld8 m (k + 4) else b);
          a = (if len \<ge> 4 then a + push_bit 24 (ld8 m (k + 3)) else a);
          a = (if len \<ge> 3 then a + push_bit 16 (ld8 m (k + 2)) else a);
          a = (if len \<ge> 2 then a + push_bit 8 (ld8 m (k + 1)) else a);
          a = (if len \<ge> 1 then a + ld8 m k else a)
      in (a, b, c))"

declare loop32.simps [simp del] loop16.simps [simp del] loop8.simps [simp del]

text \<open>
  After the switch: \<open>case 0\<close> returns \<open>c\<close> without mixing, the others go on to \<open>final\<close>.
\<close>

definition hash_end :: "(bytes_at \<Rightarrow> nat \<Rightarrow> nat \<Rightarrow> abc \<Rightarrow> abc) \<Rightarrow> bytes_at \<Rightarrow>
    nat \<times> nat \<times> abc \<Rightarrow> u32" where
  "hash_end tail m r =
     (let (k, len, s) = r in
      if len = 0 then snd (snd s) else snd (snd (final (tail m k len s))))"

definition hash_init :: "nat \<Rightarrow> u32 \<Rightarrow> abc" where
  "hash_init len initval = (let x = 0xdeadbeef + of_nat len + initval in (x, x, x))"

definition hash :: "nat \<Rightarrow> bytes_at \<Rightarrow> nat \<Rightarrow> u32 \<Rightarrow> u32" where
  "hash addr m len initval =
     (let s = hash_init len initval in
      if addr mod 4 = 0 then hash_end tail32 m (loop32 m 0 len s)
      else if addr mod 2 = 0 then hash_end tail16 m (loop16 m 0 len s)
      else hash_end tail8 m (loop8 m 0 len s))"

definition hash_valgrind :: "nat \<Rightarrow> bytes_at \<Rightarrow> nat \<Rightarrow> u32 \<Rightarrow> u32" where
  "hash_valgrind addr m len initval =
     (let s = hash_init len initval in
      if addr mod 4 = 0 then hash_end tail32_valgrind m (loop32 m 0 len s)
      else if addr mod 2 = 0 then hash_end tail16 m (loop16 m 0 len s)
      else hash_end tail8 m (loop8 m 0 len s))"

subsection \<open>The reference: Jenkins' hash of a byte string\<close>

text \<open>
  Blocks of twelve bytes, each three little-endian words; the last block is padded with zero
  bytes, which is what \<open>le_word\<close> makes of a short list.
\<close>

fun le_word :: "u8 list \<Rightarrow> u32" where
  "le_word [] = 0"
| "le_word (x # xs) = ucast x + push_bit 8 (le_word xs)"

definition absorb :: "(u8 list \<Rightarrow> u32) \<Rightarrow> u8 list \<Rightarrow> abc \<Rightarrow> abc" where
  "absorb w bs s = (let (a, b, c) = s in
     (a + w (take 4 bs), b + w (take 4 (drop 4 bs)), c + w (take 4 (drop 8 bs))))"

function jenkins_blocks :: "(u8 list \<Rightarrow> u32) \<Rightarrow> u8 list \<Rightarrow> abc \<Rightarrow> u32" where
  "jenkins_blocks w bs s =
     (if length bs > 12 then jenkins_blocks w (drop 12 bs) (mix (absorb w bs s))
      else if bs = [] then snd (snd s)
      else snd (snd (final (absorb w bs s))))"
  by pat_completeness auto
termination
  by (relation "measure (\<lambda>(w, bs, s). length bs)") auto

declare jenkins_blocks.simps [simp del]

definition jenkins :: "(u8 list \<Rightarrow> u32) \<Rightarrow> u8 list \<Rightarrow> u32 \<Rightarrow> u32" where
  "jenkins w bs initval = jenkins_blocks w bs (hash_init (length bs) initval)"

subsection \<open>Every variant reads the same blocks\<close>

definition chunk :: "bytes_at \<Rightarrow> nat \<Rightarrow> nat \<Rightarrow> u8 list" where
  "chunk m k n = map (\<lambda>i. m (k + i)) [0..<n]"

lemma length_chunk [simp]: "length (chunk m k n) = n"
  by (simp add: chunk_def)

lemma chunk_Nil_iff [simp]: "chunk m k n = [] \<longleftrightarrow> n = 0"
  by (simp add: chunk_def)

lemma drop_chunk: "d \<le> n \<Longrightarrow> drop d (chunk m k n) = chunk m (k + d) (n - d)"
  unfolding chunk_def by (rule drop_map_upt_shift)

lemma take_chunk: "d \<le> n \<Longrightarrow> take d (chunk m k n) = chunk m k d"
  by (simp add: chunk_def take_map)

lemma absorb_take: "12 \<le> length bs \<Longrightarrow> absorb w (take 12 bs) s = absorb w bs s"
  by (simp add: absorb_def take_drop min_def)

text \<open>
  The contract of a variant: its loop consumes twelve bytes at a time through \<open>absorb\<close>, and
  its switch absorbs the last, possibly partial, block.
\<close>

locale block_reader =
  fixes word_of :: "u8 list \<Rightarrow> u32"
    and loop :: "bytes_at \<Rightarrow> nat \<Rightarrow> nat \<Rightarrow> abc \<Rightarrow> nat \<times> nat \<times> abc"
    and tail :: "bytes_at \<Rightarrow> nat \<Rightarrow> nat \<Rightarrow> abc \<Rightarrow> abc"
  assumes loop_more: "12 < len \<Longrightarrow>
      loop m k len s = loop m (k + 12) (len - 12) (mix (absorb word_of (chunk m k 12) s))"
    and loop_done: "len \<le> 12 \<Longrightarrow> loop m k len s = (k, len, s)"
    and tail_absorbs: "0 < len \<Longrightarrow> len \<le> 12 \<Longrightarrow>
      tail m k len s = absorb word_of (chunk m k len) s"
begin

lemma blocks: "hash_end tail m (loop m k len s) = jenkins_blocks word_of (chunk m k len) s"
proof (induction len arbitrary: k s rule: less_induct)
  case (less len)
  show ?case
  proof (cases "12 < len")
    case True
    have "absorb word_of (chunk m k len) s = absorb word_of (chunk m k 12) s"
      using True absorb_take [of "chunk m k len" word_of s] by (simp add: take_chunk)
    with True less.IH [of "len - 12"] show ?thesis
      by (simp add: loop_more drop_chunk jenkins_blocks.simps [of word_of "chunk m k len" s])
  next
    case False
    then show ?thesis
      by (auto simp: loop_done tail_absorbs hash_end_def jenkins_blocks.simps [of word_of "chunk m k len" s])
  qed
qed

end

text \<open>Words of the little-endian loads.\<close>

lemma push_bit_push_bit_32 [word_bytes]:
  "push_bit i (push_bit j (x :: u32)) = push_bit (i + j) x"
  by (simp add: push_bit_push_bit)

lemmas load_defs = ld8_def ld16_def ld32_def ld32be_def

lemma nat_upto_12: "0 < (n::nat) \<Longrightarrow> n \<le> 12 \<Longrightarrow>
    (n = 12 \<or> n = 11 \<or> n = 10) \<or> (n = 9 \<or> n = 8 \<or> n = 7) \<or> (n = 6 \<or> n = 5 \<or> n = 4) \<or> (n = 3 \<or> n = 2 \<or> n = 1)"
  by arith

lemma upt_table [word_bytes]:
  "[0..<1] = [0]" "[0..<2] = [0, 1]" "[0..<3] = [0, 1, 2]" "[0..<4] = [0, 1, 2, 3]"
  "[0..<5] = [0, 1, 2, 3, 4]" "[0..<6] = [0, 1, 2, 3, 4, 5]" "[0..<7] = [0, 1, 2, 3, 4, 5, 6]"
  "[0..<8] = [0, 1, 2, 3, 4, 5, 6, 7]" "[0..<9] = [0, 1, 2, 3, 4, 5, 6, 7, 8]"
  "[0..<10] = [0, 1, 2, 3, 4, 5, 6, 7, 8, 9]" "[0..<11] = [0, 1, 2, 3, 4, 5, 6, 7, 8, 9, 10]"
  "[0..<12] = [0, 1, 2, 3, 4, 5, 6, 7, 8, 9, 10, 11]"
  by (simp_all add: upt_rec)

lemmas block_simps = absorb_def load_defs Let_def chunk_def push_bit_add ac_simps

lemma masks_be: "(0xffffff00 :: u32) = NOT (mask 8)" "(0xffff0000 :: u32) = NOT (mask 16)"
    "(0xff000000 :: u32) = NOT (mask 24)"
  by (simp_all add: mask_eq_exp_minus_1)

declare add_2_eq_Suc [simp del] add_2_eq_Suc' [simp del] One_nat_def [simp del]
  add_Suc_right [simp del] add_Suc [simp del]

lemma loop8_more: "12 < len \<Longrightarrow>
    loop8 m k len s = loop8 m (k + 12) (len - 12) (mix (absorb le_word (chunk m k 12) s))"
  by (cases s) (simp add: loop8.simps [of m k len] block_simps word_bytes)

lemma loop16_more: "12 < len \<Longrightarrow>
    loop16 m k len s = loop16 m (k + 12) (len - 12) (mix (absorb le_word (chunk m k 12) s))"
  by (cases s) (simp add: loop16.simps [of m k len] block_simps word_bytes)

lemma loop32_more: "12 < len \<Longrightarrow>
    loop32 m k len s = loop32 m (k + 12) (len - 12) (mix (absorb le_word (chunk m k 12) s))"
  by (cases s) (simp add: loop32.simps [of m k len] block_simps word_bytes)

lemma tail8_absorbs: "0 < len \<Longrightarrow> len \<le> 12 \<Longrightarrow> tail8 m k len s = absorb le_word (chunk m k len) s"
  by (cases s, drule (1) nat_upto_12)
    (elim disjE; simp add: tail8_def block_simps word_bytes)

lemma tail16_absorbs: "0 < len \<Longrightarrow> len \<le> 12 \<Longrightarrow> tail16 m k len s = absorb le_word (chunk m k len) s"
  by (cases s, drule (1) nat_upto_12)
    (elim disjE; simp add: tail16_def block_simps word_bytes)

lemma tail32_valgrind_absorbs:
  "0 < len \<Longrightarrow> len \<le> 12 \<Longrightarrow> tail32_valgrind m k len s = absorb le_word (chunk m k len) s"
  by (cases s, drule (1) nat_upto_12)
    (elim disjE; simp add: tail32_valgrind_def block_simps word_bytes)

text \<open>Masking an aligned word keeps its low bytes.\<close>

lemma bit_byte: "bit (push_bit j (ucast (x :: u8) :: u32)) n \<longleftrightarrow> j \<le> n \<and> n < 32 \<and> n < j + 8 \<and> bit x (n - j)"
  by (auto simp: bit_simps dest: bit_imp_le_length)

lemma bit_byte_0: "bit (ucast (x :: u8) :: u32) n \<longleftrightarrow> n < 8 \<and> bit x n"
  by (auto simp: bit_simps dest: bit_imp_le_length)

lemma add_bytes_2: "ucast (x0 :: u8) + push_bit 8 (ucast (x1 :: u8)) =
    (ucast x0 OR push_bit 8 (ucast x1) :: u32)"
  by (rule disjunctive_add) (auto simp: bit_byte bit_byte_0)

lemma add_bytes_3: "ucast (x0 :: u8) + push_bit 8 (ucast (x1 :: u8)) + push_bit 16 (ucast (x2 :: u8)) =
    (ucast x0 OR push_bit 8 (ucast x1) OR push_bit 16 (ucast x2) :: u32)"
  unfolding add_bytes_2
  by (subst disjunctive_add) (auto simp: bit_byte bit_byte_0 bit_or_iff ac_simps)

lemma add_bytes_4: "ucast (x0 :: u8) + push_bit 8 (ucast (x1 :: u8)) + push_bit 16 (ucast (x2 :: u8))
      + push_bit 24 (ucast (x3 :: u8)) =
    (ucast x0 OR push_bit 8 (ucast x1) OR push_bit 16 (ucast x2) OR push_bit 24 (ucast x3) :: u32)"
  unfolding add_bytes_3
  by (subst disjunctive_add) (auto simp: bit_byte bit_byte_0 bit_or_iff ac_simps)

lemma ld32_or: "ld32 m k = ucast (m k) OR push_bit 8 (ucast (m (k + 1)))
    OR push_bit 16 (ucast (m (k + 2))) OR push_bit 24 (ucast (m (k + 3)))"
  by (simp only: ld32_def ld8_def add_bytes_4 [symmetric])

lemma masks: "(0xff :: u32) = mask 8" "(0xffff :: u32) = mask 16" "(0xffffff :: u32) = mask 24"
  by (simp_all add: mask_eq_exp_minus_1)

lemma mask_ld32_8: "ld32 m k AND 0xff = ld8 m k"
  by (rule bit_eqI) (auto simp: ld32_or ld8_def masks bit_byte bit_byte_0 bit_or_iff bit_and_iff bit_mask_iff)

lemma mask_ld32_16: "ld32 m k AND 0xffff = ld8 m k + push_bit 8 (ld8 m (k + 1))"
  by (rule bit_eqI) (auto simp: ld32_or ld8_def add_bytes_2 masks bit_byte bit_byte_0 bit_or_iff
      bit_and_iff bit_mask_iff)

lemma mask_ld32_24:
  "ld32 m k AND 0xffffff = ld8 m k + push_bit 8 (ld8 m (k + 1)) + push_bit 16 (ld8 m (k + 2))"
  unfolding ld8_def add_bytes_3
  by (rule bit_eqI) (auto simp: ld32_or masks bit_byte bit_byte_0 bit_or_iff bit_and_iff bit_mask_iff)

lemmas mask_ld32 = mask_ld32_8 mask_ld32_16 mask_ld32_24

lemma tail32_absorbs:
  "0 < len \<Longrightarrow> len \<le> 12 \<Longrightarrow> tail32 m k len s = absorb le_word (chunk m k len) s"
  unfolding tail32_def Let_def mask_ld32
  by (cases s, drule (1) nat_upto_12)
    (elim disjE; simp add: block_simps word_bytes)

interpretation le32: block_reader le_word loop32 tail32
  by unfold_locales (auto simp: tail32_absorbs loop32_more loop32.simps)

interpretation le32v: block_reader le_word loop32 tail32_valgrind
  by unfold_locales (auto simp: tail32_valgrind_absorbs loop32_more loop32.simps)

interpretation le16: block_reader le_word loop16 tail16
  by unfold_locales (auto simp: tail16_absorbs loop16_more loop16.simps)

interpretation le8: block_reader le_word loop8 tail8
  by unfold_locales (auto simp: tail8_absorbs loop8_more loop8.simps)

subsection \<open>The big-endian variants\<close>

fun loop32be :: "bytes_at \<Rightarrow> nat \<Rightarrow> nat \<Rightarrow> abc \<Rightarrow> nat \<times> nat \<times> abc" where
  "loop32be m k len (a, b, c) =
     (if len > 12
      then loop32be m (k + 12) (len - 12)
             (mix (a + ld32be m k, b + ld32be m (k + 4), c + ld32be m (k + 8)))
      else (k, len, (a, b, c)))"

definition tail32be :: "bytes_at \<Rightarrow> nat \<Rightarrow> nat \<Rightarrow> abc \<Rightarrow> abc" where
  "tail32be m k len s =
     (let (a, b, c) = s; k0 = ld32be m k; k1 = ld32be m (k + 4); k2 = ld32be m (k + 8) in
      if len = 12 then (a + k0, b + k1, c + k2)
      else if len = 11 then (a + k0, b + k1, c + (k2 AND 0xffffff00))
      else if len = 10 then (a + k0, b + k1, c + (k2 AND 0xffff0000))
      else if len = 9 then (a + k0, b + k1, c + (k2 AND 0xff000000))
      else if len = 8 then (a + k0, b + k1, c)
      else if len = 7 then (a + k0, b + (k1 AND 0xffffff00), c)
      else if len = 6 then (a + k0, b + (k1 AND 0xffff0000), c)
      else if len = 5 then (a + k0, b + (k1 AND 0xff000000), c)
      else if len = 4 then (a + k0, b, c)
      else if len = 3 then (a + (k0 AND 0xffffff00), b, c)
      else if len = 2 then (a + (k0 AND 0xffff0000), b, c)
      else if len = 1 then (a + (k0 AND 0xff000000), b, c)
      else (a, b, c))"

definition tail32be_valgrind :: "bytes_at \<Rightarrow> nat \<Rightarrow> nat \<Rightarrow> abc \<Rightarrow> abc" where
  "tail32be_valgrind m k len s =
     (let (a, b, c) = s; k0 = ld32be m k; k1 = ld32be m (k + 4); k2 = ld32be m (k + 8) in
      if len = 12 then (a + k0, b + k1, c + k2)
      else if 8 \<le> len then
        (let c = (if len \<ge> 11 then c + push_bit 8 (ld8 m (k + 10)) else c);
             c = (if len \<ge> 10 then c + push_bit 16 (ld8 m (k + 9)) else c);
             c = (if len \<ge> 9 then c + push_bit 24 (ld8 m (k + 8)) else c)
         in (a + k0, b + k1, c))
      else if 4 \<le> len then
        (let b = (if len \<ge> 7 then b + push_bit 8 (ld8 m (k + 6)) else b);
             b = (if len \<ge> 6 then b + push_bit 16 (ld8 m (k + 5)) else b);
             b = (if len \<ge> 5 then b + push_bit 24 (ld8 m (k + 4)) else b)
         in (a + k0, b, c))
      else
        (let a = (if len \<ge> 3 then a + push_bit 8 (ld8 m (k + 2)) else a);
             a = (if len \<ge> 2 then a + push_bit 16 (ld8 m (k + 1)) else a);
             a = (if len \<ge> 1 then a + push_bit 24 (ld8 m k) else a)
         in (a, b, c)))"

fun loop8be :: "bytes_at \<Rightarrow> nat \<Rightarrow> nat \<Rightarrow> abc \<Rightarrow> nat \<times> nat \<times> abc" where
  "loop8be m k len (a, b, c) =
     (if len > 12
      then loop8be m (k + 12) (len - 12)
        (let a = a + push_bit 24 (ld8 m k);
             a = a + push_bit 16 (ld8 m (k + 1));
             a = a + push_bit 8 (ld8 m (k + 2));
             a = a + ld8 m (k + 3);
             b = b + push_bit 24 (ld8 m (k + 4));
             b = b + push_bit 16 (ld8 m (k + 5));
             b = b + push_bit 8 (ld8 m (k + 6));
             b = b + ld8 m (k + 7);
             c = c + push_bit 24 (ld8 m (k + 8));
             c = c + push_bit 16 (ld8 m (k + 9));
             c = c + push_bit 8 (ld8 m (k + 10));
             c = c + ld8 m (k + 11)
         in mix (a, b, c))
      else (k, len, (a, b, c)))"

definition tail8be :: "bytes_at \<Rightarrow> nat \<Rightarrow> nat \<Rightarrow> abc \<Rightarrow> abc" where
  "tail8be m k len s =
     (let (a, b, c) = s;
          c = (if len \<ge> 12 then c + ld8 m (k + 11) else c);
          c = (if len \<ge> 11 then c + push_bit 8 (ld8 m (k + 10)) else c);
          c = (if len \<ge> 10 then c + push_bit 16 (ld8 m (k + 9)) else c);
          c = (if len \<ge> 9 then c + push_bit 24 (ld8 m (k + 8)) else c);
          b = (if len \<ge> 8 then b + ld8 m (k + 7) else b);
          b = (if len \<ge> 7 then b + push_bit 8 (ld8 m (k + 6)) else b);
          b = (if len \<ge> 6 then b + push_bit 16 (ld8 m (k + 5)) else b);
          b = (if len \<ge> 5 then b + push_bit 24 (ld8 m (k + 4)) else b);
          a = (if len \<ge> 4 then a + ld8 m (k + 3) else a);
          a = (if len \<ge> 3 then a + push_bit 8 (ld8 m (k + 2)) else a);
          a = (if len \<ge> 2 then a + push_bit 16 (ld8 m (k + 1)) else a);
          a = (if len \<ge> 1 then a + push_bit 24 (ld8 m k) else a)
      in (a, b, c))"

declare loop32be.simps [simp del] loop8be.simps [simp del]

definition hash_be :: "nat \<Rightarrow> bytes_at \<Rightarrow> nat \<Rightarrow> u32 \<Rightarrow> u32" where
  "hash_be addr m len initval =
     (let s = hash_init len initval in
      if addr mod 4 = 0 then hash_end tail32be m (loop32be m 0 len s)
      else hash_end tail8be m (loop8be m 0 len s))"

definition hash_be_valgrind :: "nat \<Rightarrow> bytes_at \<Rightarrow> nat \<Rightarrow> u32 \<Rightarrow> u32" where
  "hash_be_valgrind addr m len initval =
     (let s = hash_init len initval in
      if addr mod 4 = 0 then hash_end tail32be_valgrind m (loop32be m 0 len s)
      else hash_end tail8be m (loop8be m 0 len s))"

fun be_word_at :: "nat \<Rightarrow> u8 list \<Rightarrow> u32" where
  "be_word_at n [] = 0"
| "be_word_at n (x # xs) = push_bit n (ucast x) + be_word_at (n - 8) xs"

definition be_word :: "u8 list \<Rightarrow> u32" where
  "be_word bs = be_word_at 24 bs"

lemma loop32be_more: "12 < len \<Longrightarrow>
    loop32be m k len s = loop32be m (k + 12) (len - 12) (mix (absorb be_word (chunk m k 12) s))"
  by (cases s) (simp add: loop32be.simps [of m k len] be_word_def block_simps word_bytes)

lemma loop8be_more: "12 < len \<Longrightarrow>
    loop8be m k len s = loop8be m (k + 12) (len - 12) (mix (absorb be_word (chunk m k 12) s))"
  by (cases s) (simp add: loop8be.simps [of m k len] be_word_def block_simps word_bytes)

lemma tail8be_absorbs:
  "0 < len \<Longrightarrow> len \<le> 12 \<Longrightarrow> tail8be m k len s = absorb be_word (chunk m k len) s"
  by (cases s, drule (1) nat_upto_12)
    (elim disjE; simp add: tail8be_def be_word_def block_simps word_bytes)

lemma tail32be_valgrind_absorbs:
  "0 < len \<Longrightarrow> len \<le> 12 \<Longrightarrow> tail32be_valgrind m k len s = absorb be_word (chunk m k len) s"
  by (cases s, drule (1) nat_upto_12)
    (elim disjE; simp add: tail32be_valgrind_def be_word_def block_simps word_bytes)

lemma ld32be_as_le: "ld32be m k = ucast (m (k + 3)) + push_bit 8 (ucast (m (k + 2)))
    + push_bit 16 (ucast (m (k + 1))) + push_bit 24 (ucast (m k))"
  by (simp add: ld32be_def ld8_def ac_simps)

lemma mask_ld32be_8: "ld32be m k AND 0xff000000 = push_bit 24 (ld8 m k)"
  unfolding ld32be_as_le add_bytes_4 ld8_def
  by (rule bit_eqI) (auto simp: masks_be bit_byte bit_byte_0 bit_or_iff bit_and_iff bit_not_iff bit_mask_iff)

lemma push_bytes_2: "push_bit 24 (ucast (x0 :: u8)) + push_bit 16 (ucast (x1 :: u8)) =
    (push_bit 24 (ucast x0) OR push_bit 16 (ucast x1) :: u32)"
  by (rule disjunctive_add) (auto simp: bit_byte)

lemma push_bytes_3: "push_bit 24 (ucast (x0 :: u8)) + push_bit 16 (ucast (x1 :: u8)) + push_bit 8 (ucast (x2 :: u8)) =
    (push_bit 24 (ucast x0) OR push_bit 16 (ucast x1) OR push_bit 8 (ucast x2) :: u32)"
  unfolding push_bytes_2
  by (subst disjunctive_add) (auto simp: bit_byte bit_or_iff ac_simps)

lemma mask_ld32be_16:
  "ld32be m k AND 0xffff0000 = push_bit 24 (ld8 m k) + push_bit 16 (ld8 m (k + 1))"
  unfolding ld32be_as_le add_bytes_4 ld8_def push_bytes_2
  by (rule bit_eqI) (auto simp: masks_be bit_byte bit_byte_0 bit_or_iff bit_and_iff bit_not_iff bit_mask_iff)

lemma mask_ld32be_24: "ld32be m k AND 0xffffff00 =
    push_bit 24 (ld8 m k) + push_bit 16 (ld8 m (k + 1)) + push_bit 8 (ld8 m (k + 2))"
  unfolding ld32be_as_le add_bytes_4 ld8_def push_bytes_3
  by (rule bit_eqI) (auto simp: masks_be bit_byte bit_byte_0 bit_or_iff bit_and_iff bit_not_iff bit_mask_iff)

lemma tail32be_absorbs:
  "0 < len \<Longrightarrow> len \<le> 12 \<Longrightarrow> tail32be m k len s = absorb be_word (chunk m k len) s"
  unfolding tail32be_def Let_def mask_ld32be_8 mask_ld32be_16 mask_ld32be_24
  by (cases s, drule (1) nat_upto_12)
    (elim disjE; simp add: be_word_def block_simps word_bytes)

interpretation be32: block_reader be_word loop32be tail32be
  by unfold_locales (auto simp: tail32be_absorbs loop32be_more loop32be.simps)

interpretation be32v: block_reader be_word loop32be tail32be_valgrind
  by unfold_locales (auto simp: tail32be_valgrind_absorbs loop32be_more loop32be.simps)

interpretation be8: block_reader be_word loop8be tail8be
  by unfold_locales (auto simp: tail8be_absorbs loop8be_more loop8be.simps)

declare add_2_eq_Suc [simp] add_2_eq_Suc' [simp] One_nat_def [simp]
  add_Suc_right [simp] add_Suc [simp]

subsection \<open>Reversibility of the mixing\<close>

definition unmix_row :: "nat \<Rightarrow> u32 \<Rightarrow> u32 \<Rightarrow> u32 \<Rightarrow> abc" where
  "unmix_row k a b c = (let c = c - b; a = (a XOR rot c k) + c in (a, b, c))"

definition unmix :: "abc \<Rightarrow> abc" where
  "unmix s =
     (let (a, b, c) = s;
          (c, a, b) = unmix_row 4 c a b;
          (b, c, a) = unmix_row 19 b c a;
          (a, b, c) = unmix_row 16 a b c;
          (c, a, b) = unmix_row 8 c a b;
          (b, c, a) = unmix_row 6 b c a;
          (a, b, c) = unmix_row 4 a b c
      in (a, b, c))"

lemma xor_cancel: "((x :: u32) XOR y) XOR y = x"
  by (simp add: xor.assoc)

lemma unmix_mix_row: "mix_row k a b c = (a', b', c') \<Longrightarrow> unmix_row k a' b' c' = (a, b, c)"
  by (auto simp: mix_row_def unmix_row_def Let_def xor_cancel)

lemma mix_unmix_row: "unmix_row k a b c = (a', b', c') \<Longrightarrow> mix_row k a' b' c' = (a, b, c)"
  by (auto simp: mix_row_def unmix_row_def Let_def xor_cancel)

lemma unmix_mix: "unmix (mix s) = s"
  by (auto simp: mix_def unmix_def unmix_mix_row split: prod.splits)

lemma mix_unmix: "mix (unmix s) = s"
  by (auto simp: mix_def unmix_def mix_unmix_row split: prod.splits)

definition unfinal_row :: "nat \<Rightarrow> u32 \<Rightarrow> u32 \<Rightarrow> u32" where
  "unfinal_row k z y = (z + rot y k) XOR y"

definition unfinal :: "abc \<Rightarrow> abc" where
  "unfinal s =
     (let (a, b, c) = s;
          c = unfinal_row 24 c b;
          b = unfinal_row 14 b a;
          a = unfinal_row 4 a c;
          c = unfinal_row 16 c b;
          b = unfinal_row 25 b a;
          a = unfinal_row 11 a c;
          c = unfinal_row 14 c b
      in (a, b, c))"

lemma unfinal_final_row [simp]: "unfinal_row k (final_row k x y) y = x"
  by (simp add: unfinal_row_def final_row_def Let_def xor_cancel)

lemma final_unfinal_row [simp]: "final_row k (unfinal_row k z y) y = z"
  by (simp add: unfinal_row_def final_row_def Let_def xor_cancel)

lemma unfinal_final: "unfinal (final s) = s"
  by (cases s) (simp add: final_def unfinal_def Let_def)

lemma final_unfinal: "final (unfinal s) = s"
  by (cases s) (simp add: final_def unfinal_def Let_def)

text \<open>
  The comment on \<open>mix\<close> promises that it mixes three 32-bit values reversibly, so that no
  information in (a, b, c) is lost. Both \<open>mix\<close> and \<open>final\<close> are bijections on the triples of
  32-bit words.
\<close>
theorem mix_and_final_reversible: "bij mix \<and> bij final"
  using o_bij [of unmix mix] o_bij [of unfinal final]
  by (simp add: fun_eq_iff unmix_mix mix_unmix unfinal_final final_unfinal)

subsection \<open>The hash is Jenkins' hash of the key bytes\<close>

lemma chunk_at_0: "chunk m 0 n = map m [0..<n]"
  by (simp add: chunk_def)

text \<open>
  C10: Whatever the alignment of the key pointer, \<open>hash\<close> (word reads, half-word reads or byte
  reads) computes the reference hash of exactly the \<open>len\<close> key bytes: the three code paths agree
  with each other, and the bytes read beyond the end of the key are masked off.
\<close>
theorem hash_is_jenkins: "hash addr m len initval = jenkins le_word (map m [0..<len]) initval"
  by (simp add: hash_def jenkins_def Let_def le32.blocks le16.blocks le8.blocks chunk_at_0)

text \<open>
  The build for VALGRIND, which reads single bytes in the last block, returns the same hash as
  the normal build.
\<close>
theorem hash_valgrind_same: "hash_valgrind addr m len initval = hash addr m len initval"
  by (simp add: hash_valgrind_def hash_def Let_def le32.blocks le32v.blocks)

text \<open>
  On a big-endian machine both builds of \<open>hash\<close> compute the reference hash with
  big-endian words, for aligned and unaligned keys.
\<close>
theorem hash_be_is_jenkins:
  "hash_be addr m len initval = jenkins be_word (map m [0..<len]) initval \<and>
   hash_be_valgrind addr m len initval = hash_be addr m len initval"
  by (simp add: hash_be_def hash_be_valgrind_def jenkins_def Let_def be32.blocks be32v.blocks
      be8.blocks chunk_at_0)

end
