(* ===== verification/Platform.thy ===== *)
theory Platform
  imports Prelude
begin

section \<open>Atomic operations and thread affinity (platform.cpp)\<close>

text \<open>
  The GCC primitives the code uses, on the value of one 32-bit variable: each returns what the
  primitive returns and the variable's new value, in one atomic step. The functions of
  platform.cpp are calls of these.
\<close>

definition sync_val_cas :: "u32 \<Rightarrow> u32 \<Rightarrow> u32 \<Rightarrow> u32 \<times> u32" where
  "sync_val_cas var old new = (var, if var = old then new else var)"

definition sync_bool_cas :: "u32 \<Rightarrow> u32 \<Rightarrow> u32 \<Rightarrow> bool \<times> u32" where
  "sync_bool_cas var old new = (var = old, if var = old then new else var)"

definition atomicIsSet :: "u32 \<Rightarrow> u32 \<times> u32" where
  "atomicIsSet var = sync_val_cas var 1 1"

definition atomicSet :: "u32 \<Rightarrow> u32 \<times> u32" where
  "atomicSet var = sync_val_cas var 0 1"

definition atomicReset :: "u32 \<Rightarrow> u32 \<times> u32" where
  "atomicReset var = sync_val_cas var 1 0"

definition atomicIncrAddGet :: "u32 \<Rightarrow> u32 \<times> u32" where
  "atomicIncrAddGet var = (var + 1, var + 1)"

definition atomicDecrSubGet :: "u32 \<Rightarrow> u32 \<times> u32" where
  "atomicDecrSubGet var = (var - 1, var - 1)"

definition atomicIncr2GetAdd :: "u32 \<Rightarrow> u32 \<times> u32" where
  "atomicIncr2GetAdd var = (var, var + 2)"

definition atomicDecr2GetSub :: "u32 \<Rightarrow> u32 \<times> u32" where
  "atomicDecr2GetSub var = (var, var - 2)"

definition atomicIncrGetAdd :: "u32 \<Rightarrow> u32 \<times> u32" where
  "atomicIncrGetAdd var = (var, var + 1)"

definition atomicDecrGetSub :: "u32 \<Rightarrow> u32 \<times> u32" where
  "atomicDecrGetSub var = (var, var - 1)"

lemmas atomic_defs = sync_val_cas_def sync_bool_cas_def atomicIsSet_def atomicSet_def
  atomicReset_def atomicIncrAddGet_def atomicDecrSubGet_def atomicIncr2GetAdd_def
  atomicDecr2GetSub_def atomicIncrGetAdd_def atomicDecrGetSub_def

text \<open>
  A lock bit: \<open>atomicSet\<close> is test-and-set on a flag with values 0 and 1, \<open>atomicReset\<close>
  test-and-clear, \<open>atomicIsSet\<close> a read.
\<close>

definition is_flag :: "u32 \<Rightarrow> bool" where
  "is_flag v \<longleftrightarrow> v = 0 \<or> v = 1"

locale test_and_set =
  fixes set_flag :: "'s \<Rightarrow> u32 \<times> 's"
    and reset_flag :: "'s \<Rightarrow> u32 \<times> 's"
    and read_flag :: "'s \<Rightarrow> u32 \<times> 's"
    and flag :: "'s \<Rightarrow> u32"
  assumes set_flag: "set_flag s = (r, s') \<Longrightarrow> r = flag s \<and> (flag s = 0 \<longrightarrow> flag s' = 1)
      \<and> (flag s \<noteq> 0 \<longrightarrow> flag s' = flag s)"
    and reset_flag: "reset_flag s = (r, s') \<Longrightarrow> r = flag s \<and> (flag s = 1 \<longrightarrow> flag s' = 0)
      \<and> (flag s \<noteq> 1 \<longrightarrow> flag s' = flag s)"
    and read_flag: "read_flag s = (r, s') \<Longrightarrow> r = flag s \<and> flag s' = flag s"
begin

text \<open>Of two calls of the setter with no reset between them, at most the first gets 0.\<close>

lemma second_set_fails: "set_flag s = (r1, s1) \<Longrightarrow> set_flag s1 = (r2, s2) \<Longrightarrow> r2 \<noteq> 0"
  using set_flag [of s r1 s1] set_flag [of s1 r2 s2] by (cases "flag s = 0") auto

lemma set_then_read: "set_flag s = (r1, s1) \<Longrightarrow> read_flag s1 = (r2, s2) \<Longrightarrow> r2 \<noteq> 0"
  using set_flag [of s r1 s1] read_flag [of s1 r2 s2] by (cases "flag s = 0") auto

lemma reset_reopens:
  "is_flag (flag s) \<Longrightarrow> reset_flag s = (r1, s1) \<Longrightarrow> set_flag s1 = (r2, s2) \<Longrightarrow> r2 = 0 \<and> flag s2 = 1"
  using reset_flag [of s r1 s1] set_flag [of s1 r2 s2] by (auto simp: is_flag_def)

lemma flag_kept:
  "is_flag (flag s) \<Longrightarrow> set_flag s = (r, s') \<or> reset_flag s = (r, s') \<or> read_flag s = (r, s') \<Longrightarrow>
    is_flag (flag s')"
  using set_flag [of s r s'] reset_flag [of s r s'] read_flag [of s r s']
  by (auto simp: is_flag_def)

end

interpretation atomic: test_and_set atomicSet atomicReset atomicIsSet id
  by unfold_locales (auto simp: atomic_defs)

text \<open>
  \<open>Thread_SetAffinity\<close>: \<open>setaffinity\<close> is \<open>pthread_setaffinity_np\<close> on the calling thread,
  from the set of CPUs of the mask to its return code.
\<close>

definition Thread_SetAffinity :: "(nat set \<Rightarrow> int) \<Rightarrow> u16 \<Rightarrow> int" where
  "Thread_SetAffinity setaffinity CPUnum =
     (let mask = {1} in if setaffinity mask < 0 then - 1 else uint CPUnum)"

definition Thread_PrintAffinity :: "int \<Rightarrow> int" where
  "Thread_PrintAffinity getaffinity = (if getaffinity \<noteq> 0 then - 1 else 0)"

definition GetNumCores :: "int \<Rightarrow> int" where
  "GetNumCores nprocs = nprocs"

subsection \<open>Properties\<close>

text \<open>
  \<open>atomicSet\<close>, \<open>atomicReset\<close> and \<open>atomicIsSet\<close> do what their comments say on a flag
  that is 0 or 1: the old value is returned; \<open>atomicSet\<close> leaves 1, \<open>atomicReset\<close> leaves 0,
  \<open>atomicIsSet\<close> changes nothing; and of two \<open>atomicSet\<close> calls in a row only the first can see
  0, while one after an \<open>atomicReset\<close> always does.
\<close>
theorem atomic_flag_protocol:
  assumes "is_flag v"
  shows "atomicSet v = (v, 1) \<and> atomicReset v = (v, 0) \<and> atomicIsSet v = (v, v)
    \<and> fst (atomicSet (snd (atomicSet v))) \<noteq> 0
    \<and> fst (atomicSet (snd (atomicReset v))) = 0"
proof -
  have "fst (atomicSet (snd (atomicSet v))) \<noteq> 0"
    by (rule atomic.second_set_fails [OF prod.collapse [symmetric] prod.collapse [symmetric]])
  moreover have "fst (atomicSet (snd (atomicReset v))) = 0"
    using atomic.reset_reopens [OF _ prod.collapse [symmetric] prod.collapse [symmetric], of v] assms
    by simp
  ultimately show ?thesis
    using assms by (auto simp: atomic_defs is_flag_def)
qed

theorem atomic_flag_protocol_witness:
  "atomicSet 0 = (0, 1) \<and> fst (atomicSet (snd (atomicSet 0))) \<noteq> 0"
  using atomic_flag_protocol [of 0] by (auto simp: is_flag_def)

text \<open>
  The counters wrap at 32 bits and the two families of names mean what they say: \<open>AddGet\<close> and
  \<open>SubGet\<close> return the value after the update, \<open>GetAdd\<close> and \<open>GetSub\<close> the value before it; an
  increment followed by the matching decrement restores the variable.
\<close>
theorem atomic_counters:
  "fst (atomicIncrAddGet v) = snd (atomicIncrAddGet v) \<and> fst (atomicIncrGetAdd v) = v
   \<and> snd (atomicIncrGetAdd v) = snd (atomicIncrAddGet v)
   \<and> uint (snd (atomicIncrAddGet v)) = (uint v + 1) mod 2 ^ 32
   \<and> uint (snd (atomicIncr2GetAdd v)) = (uint v + 2) mod 2 ^ 32
   \<and> snd (atomicDecrSubGet (snd (atomicIncrAddGet v))) = v
   \<and> snd (atomicDecrGetSub (snd (atomicIncrGetAdd v))) = v
   \<and> snd (atomicDecr2GetSub (snd (atomicIncr2GetAdd v))) = v"
  by (simp add: atomic_defs uint_word_ariths)

end
