(* ===== verification/Conn.thy ===== *)
theory Conn
  imports KVTable Platform
begin

section \<open>The connection object (aConn.h, aConn.cpp, aMsg.h, acacheconst.h)\<close>

text \<open>
  The types every handler shares and the small operations of \<open>aConn\<close>: construction and reset, the
  atomic flags and counters, the error fields, the pipe messages to the comm thread. \<open>wire\<close> is what
  the socket has taken from the connection so far.
\<close>

datatype aMsgType = PROCESS_COMMAND | KVDATA | ERROR | SUCCESS | NOP

datatype aConnState = cmd_wait | hdr_wait | body_wait | cmd_done

datatype aCmdType = ACACHED_CMD_GET | ACACHED_CMD_GETS | ACACHED_CMD_SET | ACACHED_CMD_ADD
  | ACACHED_CMD_REPLACE | ACACHED_CMD_APPEND | ACACHED_CMD_PREPEND | ACACHED_CMD_QUIT
  | ACACHED_CMD_VERSION

text \<open>The value of the C enumerator.\<close>

fun cmd_code :: "aCmdType \<Rightarrow> int" where
  "cmd_code ACACHED_CMD_GET = 1001"
| "cmd_code ACACHED_CMD_GETS = 1002"
| "cmd_code ACACHED_CMD_SET = 1003"
| "cmd_code ACACHED_CMD_ADD = 1004"
| "cmd_code ACACHED_CMD_REPLACE = 1005"
| "cmd_code ACACHED_CMD_APPEND = 1006"
| "cmd_code ACACHED_CMD_PREPEND = 1007"
| "cmd_code ACACHED_CMD_QUIT = 1008"
| "cmd_code ACACHED_CMD_VERSION = 1009"

abbreviation (input) AERR_TYPE_APP :: int where "AERR_TYPE_APP \<equiv> 101"
abbreviation (input) AERR_TYPE_SYS :: int where "AERR_TYPE_SYS \<equiv> 102"
abbreviation (input) AERR_TYPE_SYS_COMM :: int where "AERR_TYPE_SYS_COMM \<equiv> 103"
abbreviation (input) AERR_TYPE_APP_GETS :: int where "AERR_TYPE_APP_GETS \<equiv> 104"

datatype AERRNUM = AERR_TOKENIZER_READ_ERR | AERR_TOKENIZER_SOCKET_HUNGUP | AERR_TOKENIZER_PARSE
  | AERR_TOKENIZER_CMD_INVALID | AERR_TOKENIZER_EAGAIN | AERR_READ_DIRTY_FD | AERR_WRITE_DIRTY_FD
  | AERR_TOKENIZER_CMD_INVALID_HDR | AERR_TOKENIZER_CMD_INVALID_DATALEN | AERR_TOKENIZER_TOKEN_INVALID

fun aerr_code :: "AERRNUM \<Rightarrow> int" where
  "aerr_code AERR_TOKENIZER_READ_ERR = 5000"
| "aerr_code AERR_TOKENIZER_SOCKET_HUNGUP = 5001"
| "aerr_code AERR_TOKENIZER_PARSE = 5002"
| "aerr_code AERR_TOKENIZER_CMD_INVALID = 5003"
| "aerr_code AERR_TOKENIZER_EAGAIN = 5004"
| "aerr_code AERR_READ_DIRTY_FD = 5005"
| "aerr_code AERR_WRITE_DIRTY_FD = 5006"
| "aerr_code AERR_TOKENIZER_CMD_INVALID_HDR = 5007"
| "aerr_code AERR_TOKENIZER_CMD_INVALID_DATALEN = 5008"
| "aerr_code AERR_TOKENIZER_TOKEN_INVALID = 5009"

text \<open>
  The texts of the errors. Between the last two literals there is no comma, so the compiler makes one text of
  them: the table has no entry for the last error, and \<open>GetErrNumStr\<close> reads behind it.
\<close>

definition AERRNUM_STR :: "string list" where
  "AERRNUM_STR = [''Token Read Error'', ''Socket Hung up'', ''Parse Error'', ''Invalid Command'', ''TOKENIZER EAGAIN'',
     ''Dirty File Descriptor(Read)'', ''Dirty File Descriptor(Write)'', ''Invalid Command Header'',
     ''Invalid data length in header'' @ ''Invalid Token'']"

definition GetErrNumStr :: "int \<Rightarrow> string result" where
  "GetErrNumStr n = (if n < 5000 \<or> int (length AERRNUM_STR) \<le> n - 5000 then Inl OutOfBounds
     else Inr (AERRNUM_STR ! nat (n - 5000)))"

lemma GetErrNumStr_known: "(\<exists>s. GetErrNumStr (aerr_code e) = Inr s) \<longleftrightarrow> e \<noteq> AERR_TOKENIZER_TOKEN_INVALID"
  by (cases e) (simp_all add: GetErrNumStr_def AERRNUM_STR_def)

text \<open>\<open>std::bitset<64>\<close> descriptors are the sets of their bits.\<close>

abbreviation (input) REQ_HDR :: nat where "REQ_HDR \<equiv> 0"
abbreviation (input) REQ_HDR_PART :: nat where "REQ_HDR_PART \<equiv> 1"
abbreviation (input) REQ_BODY :: nat where "REQ_BODY \<equiv> 2"
abbreviation (input) REQ_BODY_PART :: nat where "REQ_BODY_PART \<equiv> 3"
abbreviation (input) REPLY_WRITTEN :: nat where "REPLY_WRITTEN \<equiv> 0"
abbreviation (input) REPLY_INIT :: nat where "REPLY_INIT \<equiv> 1"
abbreviation (input) REPLY_MALLOC :: nat where "REPLY_MALLOC \<equiv> 2"

abbreviation (input) REQ_SIZE :: nat where "REQ_SIZE \<equiv> 32"
abbreviation (input) IOV_MAX :: nat where "IOV_MAX \<equiv> 1024"
abbreviation (input) REPLY_SIZE :: nat where "REPLY_SIZE \<equiv> 12288"
abbreviation (input) CMD_WAIT_INIT :: nat where "CMD_WAIT_INIT \<equiv> 32768"

text \<open>Request vectors own their buffers; \<open>None\<close> is a null \<open>iov_base\<close>.\<close>

record aConnIovReq =
  req_base :: "char list option list"
  req_len :: "nat list"
  req_desc :: "nat set list"
  req_offset :: "u32 list"
  req_alloc :: "u32 list"
  req_index :: u32
  req_indexHdr :: u32
  req_size :: int

text \<open>
  A reply vector points into a copy of its own (\<open>Copied\<close>, the bytes from the pointer on) or into the
  data of a block of the hash table (\<open>Value\<close>, the block and the offset from \<open>data\<close>).
\<close>

datatype iobase = NullBase | Copied "char list" | Value ptr nat

record aConnIovReply =
  rep_base :: "iobase list"
  rep_len :: "nat list"
  rep_base2 :: "iobase list"
  rep_desc :: "nat set list"
  rep_offset :: "u32 list"
  rep_alloc :: "u32 list"
  rep_index :: u32
  rep_size :: int

record aConnCmd_t =
  ctype :: aCmdType
  cmd_key :: "char list"
  keylen :: u32
  cmd_flags :: u32
  exptime :: u32
  datalen :: u32

record aConn =
  PendingCmdQ :: adaptSharedQ
  Busy :: u32
  cType :: int
  cSockFd :: int
  Concurrent :: u32
  dirtyFd :: u32
  refcount :: u32
  concPending :: u32
  aerrnum :: int
  aerrtype :: int
  aTcommptr :: ptr
  commRead_wptr :: ptr
  ev_loop :: ptr
  reqCount :: u32
  replyCount :: u32
  totalsize :: u32
  emptyQ :: int
  conWatchSent :: u32
  dataPendingRead :: int
  writingflag :: u32
  windexlast :: u32
  conn_state :: aConnState
  iovReq :: aConnIovReq
  iovReply :: aConnIovReply
  cmd :: aConnCmd_t
  wire :: "char list"

subsection \<open>Construction and reset\<close>

text \<open>
  \<open>Reset\<close> clears \<open>32 * sizeof(aConnIovDesc)\<close> bytes of the 8-byte descriptors: the first 16 of the 32.
  It leaves offsets and allocation sizes.
\<close>

definition aConn_Reset :: "aConn \<Rightarrow> aConn" where
  "aConn_Reset c = c\<lparr>conn_state := cmd_wait, dirtyFd := 0, refcount := 0, Concurrent := 0,
     aerrnum := 0, aerrtype := 0, concPending := 0, emptyQ := 0, conWatchSent := 0,
     iovReq := (iovReq c)\<lparr>req_index := 0, req_size := 32,
       req_base := replicate REQ_SIZE None, req_len := replicate REQ_SIZE 0,
       req_desc := replicate 16 {} @ drop 16 (req_desc (iovReq c))\<rparr>\<rparr>"

text \<open>
  The constructor. \<open>junk\<close> is what the members it does not set, and the descriptors it allocates with
  \<open>malloc\<close>, happen to hold.
\<close>

definition aConn_new :: "int \<Rightarrow> int \<Rightarrow> aConn \<Rightarrow> aConn" where
  "aConn_new ctp fd junk =
     (let c = junk\<lparr>cType := ctp, cSockFd := fd, PendingCmdQ := adaptSharedQ_new 1234,
        iovReq := (iovReq junk)\<lparr>req_offset := replicate REQ_SIZE 0, req_alloc := replicate REQ_SIZE 0\<rparr>,
        iovReply := \<lparr>rep_base = replicate REPLY_SIZE NullBase, rep_len = replicate REPLY_SIZE 0,
          rep_base2 = replicate REPLY_SIZE NullBase,
          rep_desc = (replicate REPLY_SIZE {})[0 := {REPLY_INIT}],
          rep_offset = replicate REPLY_SIZE 0, rep_alloc = replicate REPLY_SIZE 0,
          rep_index = 0, rep_size = 12288\<rparr>,
        reqCount := 0, replyCount := 0, writingflag := 0, windexlast := 0, totalsize := 0, Busy := 0,
        dataPendingRead := 0, wire := []\<rparr>
      in aConn_Reset c)"

definition aConn_Init :: "aConn \<Rightarrow> int \<Rightarrow> int \<Rightarrow> aConn" where
  "aConn_Init c ctp fd = aConn_Reset (c\<lparr>cType := ctp, cSockFd := fd\<rparr>)"

subsection \<open>Reference count and flags\<close>

definition Assign :: "aConn \<Rightarrow> u32 \<times> aConn" where
  "Assign c = (let (r, v) = atomicIncrAddGet (refcount c) in (r, c\<lparr>refcount := v\<rparr>))"

definition Revoke :: "aConn \<Rightarrow> u32 \<times> aConn" where
  "Revoke c = (let (r, v) = atomicDecrSubGet (refcount c) in (r, c\<lparr>refcount := v\<rparr>))"

definition IsdirtyFd :: "aConn \<Rightarrow> u32 \<times> aConn" where
  "IsdirtyFd c = (let (r, v) = atomicIsSet (dirtyFd c) in (r, c\<lparr>dirtyFd := v\<rparr>))"

definition dirtyFdSet :: "aConn \<Rightarrow> u32 \<times> aConn" where
  "dirtyFdSet c = (let (r, v) = atomicSet (dirtyFd c) in (r, c\<lparr>dirtyFd := v\<rparr>))"

definition dirtyFdReset :: "aConn \<Rightarrow> u32 \<times> aConn" where
  "dirtyFdReset c = (let (r, v) = atomicReset (dirtyFd c) in (r, c\<lparr>dirtyFd := v\<rparr>))"

definition IsConcurrent :: "aConn \<Rightarrow> u32 \<times> aConn" where
  "IsConcurrent c = (let (r, v) = atomicIsSet (Concurrent c) in (r, c\<lparr>Concurrent := v\<rparr>))"

definition ConcurrentSet :: "aConn \<Rightarrow> u32 \<times> aConn" where
  "ConcurrentSet c = (let (r, v) = atomicSet (Concurrent c) in (r, c\<lparr>Concurrent := v\<rparr>))"

definition ConcurrentReset :: "aConn \<Rightarrow> u32 \<times> aConn" where
  "ConcurrentReset c = (let (r, v) = atomicReset (Concurrent c) in (r, c\<lparr>Concurrent := v\<rparr>))"

definition IsconcPending :: "aConn \<Rightarrow> u32 \<times> aConn" where
  "IsconcPending c = (let (r, v) = atomicIsSet (concPending c) in (r, c\<lparr>concPending := v\<rparr>))"

definition concPendingSet :: "aConn \<Rightarrow> u32 \<times> aConn" where
  "concPendingSet c = (let (r, v) = atomicSet (concPending c) in (r, c\<lparr>concPending := v\<rparr>))"

definition concPendingReset :: "aConn \<Rightarrow> u32 \<times> aConn" where
  "concPendingReset c = (let (r, v) = atomicReset (concPending c) in (r, c\<lparr>concPending := v\<rparr>))"

lemmas conn_flag_defs = IsdirtyFd_def dirtyFdSet_def dirtyFdReset_def IsConcurrent_def
  ConcurrentSet_def ConcurrentReset_def IsconcPending_def concPendingSet_def concPendingReset_def

subsection \<open>Request vectors, errors, pipe messages\<close>

definition FreeIov :: "aConn \<Rightarrow> nat \<Rightarrow> aConn result" where
  "FreeIov c i = (let q = iovReq c in
     if length (req_base q) \<le> i then Inl OutOfBounds
     else Inr (c\<lparr>iovReq := q\<lparr>req_base := (req_base q)[i := None], req_len := (req_len q)[i := 0],
       req_offset := (req_offset q)[i := 0], req_alloc := (req_alloc q)[i := 0]\<rparr>\<rparr>))"

definition SetErrorErrno :: "aConn \<Rightarrow> int \<Rightarrow> aConn" where
  "SetErrorErrno c errno = c\<lparr>aerrnum := errno, aerrtype := AERR_TYPE_SYS\<rparr>"

definition SetError :: "aConn \<Rightarrow> AERRNUM \<Rightarrow> aConn" where
  "SetError c e = c\<lparr>aerrnum := aerr_code e, aerrtype := AERR_TYPE_APP\<rparr>"

record MsgPipe_t =
  initType :: char
  pipe_fd :: int

text \<open>
  \<open>Release\<close> closes the socket and tells the comm thread; \<open>CheckPendingCmdQ\<close> asks it to look at the
  queue of pending commands. The result of writing to the pipe is ignored: \<open>ok\<close> says whether the
  message got through.
\<close>

definition aConn_Release :: "bool \<Rightarrow> aConn \<Rightarrow> MsgPipe_t list \<Rightarrow> int \<times> aConn \<times> MsgPipe_t list" where
  "aConn_Release ok c pipe = (0, c\<lparr>cSockFd := - 1\<rparr>,
     if ok then pipe @ [\<lparr>initType = CHR ''R'', pipe_fd = cSockFd c\<rparr>] else pipe)"

definition CheckPendingCmdQ :: "bool \<Rightarrow> aConn \<Rightarrow> MsgPipe_t list \<Rightarrow> int \<times> aConn \<times> MsgPipe_t list" where
  "CheckPendingCmdQ ok c pipe = (0, c,
     if ok then pipe @ [\<lparr>initType = CHR ''P'', pipe_fd = cSockFd c\<rparr>] else pipe)"

text \<open>
  \<open>WriteData\<close> (aConnReply.cpp): \<open>sent\<close> is what \<open>send\<close> returns for the whole buffer; that many bytes
  go out.
\<close>

definition WriteData :: "int \<Rightarrow> aConn \<Rightarrow> char list \<Rightarrow> int \<times> aConn" where
  "WriteData sent c buf =
     (if sent \<le> 0 then
        (- 1, c\<lparr>aerrnum := aerr_code (if sent < 0 then AERR_TOKENIZER_READ_ERR
                                    else AERR_TOKENIZER_SOCKET_HUNGUP),
                aerrtype := AERR_TYPE_SYS_COMM\<rparr>)
      else (sent, c\<lparr>wire := wire c @ take (nat sent) buf\<rparr>))"

subsection \<open>Well-formedness\<close>

text \<open>
  The parallel arrays of a connection have the sizes they were allocated with, the descriptors that
  \<open>Reset\<close> is meant to clear exist.
\<close>

definition conn_ok :: "aConn \<Rightarrow> bool" where
  "conn_ok c \<longleftrightarrow> length (req_base (iovReq c)) = REQ_SIZE \<and> length (req_len (iovReq c)) = REQ_SIZE
     \<and> length (req_desc (iovReq c)) = REQ_SIZE \<and> length (req_offset (iovReq c)) = REQ_SIZE
     \<and> length (req_alloc (iovReq c)) = REQ_SIZE
     \<and> length (rep_base (iovReply c)) = REPLY_SIZE \<and> length (rep_len (iovReply c)) = REPLY_SIZE
     \<and> length (rep_base2 (iovReply c)) = REPLY_SIZE \<and> length (rep_desc (iovReply c)) = REPLY_SIZE
     \<and> length (rep_offset (iovReply c)) = REPLY_SIZE \<and> length (rep_alloc (iovReply c)) = REPLY_SIZE
     \<and> length (cmd_key (cmd c)) = 256"

lemma Reset_ok: "conn_ok c \<Longrightarrow> conn_ok (aConn_Reset c)"
  by (simp add: conn_ok_def aConn_Reset_def)

lemma new_ok: "length (req_desc (iovReq junk)) = REQ_SIZE \<Longrightarrow> length (cmd_key (cmd junk)) = 256 \<Longrightarrow>
    conn_ok (aConn_new t fd junk)"
  by (simp add: conn_ok_def aConn_Reset_def aConn_new_def)

lemma FreeIov_ok: "conn_ok c \<Longrightarrow> FreeIov c i = Inr c' \<Longrightarrow> conn_ok c'"
  by (auto simp: conn_ok_def FreeIov_def Let_def split: if_splits)

text \<open>The three flags of a connection are test-and-set bits.\<close>

interpretation concPending: test_and_set concPendingSet concPendingReset IsconcPending concPending
  by unfold_locales (auto simp: conn_flag_defs atomic_defs)

interpretation concurrent: test_and_set ConcurrentSet ConcurrentReset IsConcurrent Concurrent
  by unfold_locales (auto simp: conn_flag_defs atomic_defs)

interpretation dirtyFd: test_and_set dirtyFdSet dirtyFdReset IsdirtyFd dirtyFd
  by unfold_locales (auto simp: conn_flag_defs atomic_defs)

text \<open>A connection to evaluate things on: all memory zero before its construction.\<close>

definition zero_conn :: aConn where
  "zero_conn = \<lparr>PendingCmdQ = adaptSharedQ_new 0, Busy = 0, cType = 0, cSockFd = 0, Concurrent = 0,
     dirtyFd = 0, refcount = 0, concPending = 0, aerrnum = 0, aerrtype = 0, aTcommptr = NULL,
     commRead_wptr = NULL, ev_loop = NULL, reqCount = 0, replyCount = 0,
     totalsize = 0, emptyQ = 0, conWatchSent = 0, dataPendingRead = 0, writingflag = 0, windexlast = 0,
     conn_state = cmd_wait,
     iovReq = \<lparr>req_base = [], req_len = [], req_desc = replicate REQ_SIZE {}, req_offset = [],
       req_alloc = [], req_index = 0, req_indexHdr = 0, req_size = 0\<rparr>,
     iovReply = \<lparr>rep_base = [], rep_len = [], rep_base2 = [], rep_desc = [], rep_offset = [],
       rep_alloc = [], rep_index = 0, rep_size = 0\<rparr>,
     cmd = \<lparr>ctype = ACACHED_CMD_GET, cmd_key = replicate 256 NUL, keylen = 0, cmd_flags = 0, exptime = 0,
       datalen = 0\<rparr>, wire = []\<rparr>"

definition fresh_conn :: aConn where
  "fresh_conn = aConn_new 402 7 zero_conn"

lemma fresh_conn_ok: "conn_ok fresh_conn"
  unfolding fresh_conn_def by (rule new_ok) (simp_all add: zero_conn_def)

lemma fresh_conn_simps:
  "req_base (iovReq fresh_conn) = replicate REQ_SIZE None" "req_len (iovReq fresh_conn) = replicate REQ_SIZE 0"
  "req_index (iovReq fresh_conn) = 0" "req_offset (iovReq fresh_conn) = replicate REQ_SIZE 0"
  "req_alloc (iovReq fresh_conn) = replicate REQ_SIZE 0" "req_desc (iovReq fresh_conn) = replicate REQ_SIZE {}"
  "conn_state fresh_conn = cmd_wait" "dataPendingRead fresh_conn = 0" "Busy fresh_conn = 0"
  "PendingCmdQ fresh_conn = adaptSharedQ_new 1234" "length (cmd_key (cmd fresh_conn)) = 256"
  "wire fresh_conn = []" "totalsize fresh_conn = 0" "rep_base (iovReply fresh_conn) = replicate REPLY_SIZE NullBase"
  "rep_len (iovReply fresh_conn) = replicate REPLY_SIZE 0" "rep_index (iovReply fresh_conn) = 0"
  by (simp_all add: fresh_conn_def aConn_new_def aConn_Reset_def zero_conn_def
      flip: replicate_add)

end
