(* ===== verification/Msg.thy ===== *)
theory Msg
  imports KVTable JHash Conn
begin

section \<open>Messages between the threads (aMsg.h, aMsg.cpp)\<close>

text \<open>
  A message carries a command of a connection (\<open>am_aC\<close>, the address of the connection) to a worker.
  \<open>cmdptr\<close> is the buffer handed over with it: the body of a SET or the line of a GET, \<open>None\<close> for NULL.
  Of the union \<open>IN\<close> only \<open>KVdataSet\<close> is used by the program, of \<open>OUT\<close> only \<open>ErrBuf\<close>.
\<close>

record aMsgKVdata_IN_SET =
  set_flag :: int
  set_exptime :: int
  set_vallen :: int

record aMsg =
  am_type :: aMsgType
  am_ctype :: aCmdType
  am_aC :: ptr
  am_result :: int
  am_errnum :: int
  am_hdr :: aMsgHdrIN_t
  cmdptr :: "char list option"
  KVdataSet :: aMsgKVdata_IN_SET
  ErrBuf :: "char list"

text \<open>\<open>Init\<close> clears the message, so that nothing of what it held before is left.\<close>

definition aMsg_Init :: "aMsgType \<Rightarrow> ptr \<Rightarrow> aCmdType \<Rightarrow> aMsg" where
  "aMsg_Init t aC ct = \<lparr>am_type = t, am_ctype = ct, am_aC = aC, am_result = 0, am_errnum = 0,
     am_hdr = \<lparr>hdr_key = replicate 256 NUL, hdr_keylen = 0, hdr_hashval = 0, hdr_KVdataptr = NULL\<rparr>,
     cmdptr = None, KVdataSet = \<lparr>set_flag = 0, set_exptime = 0, set_vallen = 0\<rparr>,
     ErrBuf = replicate 80 NUL\<rparr>"

text \<open>
  \<open>snprintf(buf, size, format)\<close> without arguments: \<open>%%\<close> is a percent sign, any other conversion
  reads an argument that is not there.
\<close>

fun format_only :: "string \<Rightarrow> string result" where
  "format_only [] = Inr []"
| "format_only (c # cs) =
     (if c = CHR ''%'' then
        (case cs of [] \<Rightarrow> Inl Uninitialised
         | d # ds \<Rightarrow> if d = CHR ''%'' then rbind (format_only ds) (\<lambda>s. Inr (CHR ''%'' # s)) else Inl Uninitialised)
      else rbind (format_only cs) (\<lambda>s. Inr (c # s)))"

definition SETErrbuf :: "aMsg \<Rightarrow> string \<Rightarrow> aMsg result" where
  "SETErrbuf a errstr = rbind (format_only errstr) (\<lambda>s.
     let s = take 79 s @ [NUL] in Inr (a\<lparr>ErrBuf := s @ drop (length s) (ErrBuf a)\<rparr>))"

text \<open>
  The key bytes as \<open>hash\<close> reads them; \<open>addr\<close> is the address of the message, in which the key is at
  offset 24. \<open>MsgHdrIN_Init\<close> hashes only when the hash value it is given is 0, and stores no other.
\<close>

definition key_bytes :: "char list \<Rightarrow> bytes_at" where
  "key_bytes k i = (if i < length k then of_char (k ! i) else 0)"

definition MsgHdrIN_Init :: "nat \<Rightarrow> aMsg \<Rightarrow> string \<Rightarrow> int \<Rightarrow> u32 \<Rightarrow> aMsg result" where
  "MsgHdrIN_Init addr a key klen hashval =
     (let n = size_t_of_int klen; h = am_hdr a in
      rbind (strncpy (hdr_key h) (cstr key) n) (\<lambda>k.
      if length k \<le> n then Inl OutOfBounds
      else (let k = k[n := NUL] in
        Inr (a\<lparr>am_hdr := h\<lparr>hdr_keylen := klen, hdr_key := k,
          hdr_hashval := (if hashval = 0 then hash (addr + 24) (key_bytes k) n 0 else hdr_hashval h),
          hdr_KVdataptr := NULL\<rparr>\<rparr>))))"

text \<open>The hash value of a key, whatever the address of the message.\<close>

definition key_hash :: "string \<Rightarrow> u32" where
  "key_hash key = jenkins le_word (map of_char key) 0"

lemma hash_key_bytes:
  assumes "n = length key"
  shows "hash addr (key_bytes (key @ rest)) n 0 = key_hash key"
proof -
  have "map (key_bytes (key @ rest)) [0..<n] = map of_char key"
    by (rule nth_equalityI) (simp_all add: assms key_bytes_def nth_append)
  then show ?thesis
    using assms by (simp add: key_hash_def hash_def jenkins_def Let_def le32.blocks le16.blocks le8.blocks chunk_at_0)
qed

lemma MsgHdrIN_Init_key:
  assumes "NUL \<notin> set key" "length key < 256"
  shows "MsgHdrIN_Init addr (aMsg_Init t aC ct) key (int (length key)) 0 = Inr ((aMsg_Init t aC ct)
    \<lparr>am_hdr := \<lparr>hdr_key = key @ replicate (256 - length key) NUL, hdr_keylen = int (length key),
       hdr_hashval = key_hash key, hdr_KVdataptr = NULL\<rparr>\<rparr>)"
proof -
  have n: "size_t_of_int (int (length key)) = length key"
    using assms(2) by (simp add: size_t_of_int_def nat_mod_as_int)
  have k: "strncpy (replicate 256 NUL) (cstr key) (length key) = Inr (key @ replicate (256 - length key) NUL)"
    using assms by (simp add: strncpy_def cstr_no_NUL)
  have u: "(replicate m x)[i := x] = replicate m x" for m i :: nat and x :: char
    by (cases "i < m") (simp_all add: list_update_same_conv list_update_beyond)
  show ?thesis
    using assms(2) by (simp add: MsgHdrIN_Init_def n Let_def aMsg_Init_def k list_update_append u
        hash_key_bytes)
qed

end
