(* ===== verification/Pools.thy ===== *)
theory Pools
  imports AdaptQ
begin

section \<open>Free/busy pools (adapt/adaptFBQ, adaptFBSharedQ, adaptFBPSharedQ)\<close>

text \<open>
  A pool is a queue of free objects and a queue of objects in use. The interface \<open>fb_pool\<close> states
  what the pool classes promise; its lemmas say that an object moves between the two queues and is
  never in both, as long as only busy objects are released.
\<close>

record adaptFBQ =
  FBQtype :: int
  FreeQ :: adaptQ
  BusyQ :: adaptQ

definition adaptFBQ_new :: "int \<Rightarrow> int \<Rightarrow> adaptFBQ" where
  "adaptFBQ_new t qt = \<lparr>FBQtype = t, FreeQ = adaptQ_new qt, BusyQ = adaptQ_new qt\<rparr>"

definition aFBQGetFree :: "adaptFBQ \<Rightarrow> ptr \<times> adaptFBQ" where
  "aFBQGetFree f = (let (p, q) = aQget (FreeQ f) in (p, f\<lparr>FreeQ := q\<rparr>))"

definition aFBQRemoveBusy :: "adaptFBQ \<Rightarrow> ptr \<Rightarrow> int \<times> adaptFBQ" where
  "aFBQRemoveBusy f p = (let (r, q) = aQremove (BusyQ f) p in (r, f\<lparr>BusyQ := q\<rparr>))"

definition aFBQPutBusy :: "adaptFBQ \<Rightarrow> ptr \<Rightarrow> int \<times> adaptFBQ" where
  "aFBQPutBusy f p = (let (r, q) = aQput (BusyQ f) p in (r, f\<lparr>BusyQ := q\<rparr>))"

definition aFBQPutFree :: "adaptFBQ \<Rightarrow> ptr \<Rightarrow> int \<times> adaptFBQ" where
  "aFBQPutFree f p = (let (r, q) = aQput (FreeQ f) p in (r, f\<lparr>FreeQ := q\<rparr>))"

definition aFBQFindPtrBusy :: "adaptFBQ \<Rightarrow> (ptr \<Rightarrow> int \<Rightarrow> bool) \<Rightarrow> int \<Rightarrow> ptr" where
  "aFBQFindPtrBusy f g x = aQFindPtr (BusyQ f) g x"

record adaptFBSharedQ =
  FBSQtype :: int
  FreeSQ :: adaptSharedQ
  BusySQ :: adaptSharedQ

definition adaptFBSharedQ_new :: "int \<Rightarrow> int \<Rightarrow> adaptFBSharedQ" where
  "adaptFBSharedQ_new t qt =
     \<lparr>FBSQtype = t, FreeSQ = adaptSharedQ_new qt, BusySQ = adaptSharedQ_new qt\<rparr>"

definition aFBSQGetFree :: "adaptFBSharedQ \<Rightarrow> ptr \<times> adaptFBSharedQ" where
  "aFBSQGetFree f = (let (p, q) = aSQget (FreeSQ f) in (p, f\<lparr>FreeSQ := q\<rparr>))"

definition aFBSQRemoveBusy :: "adaptFBSharedQ \<Rightarrow> ptr \<Rightarrow> int \<times> adaptFBSharedQ" where
  "aFBSQRemoveBusy f p = (let (r, q) = aSQremove (BusySQ f) p in (r, f\<lparr>BusySQ := q\<rparr>))"

definition aFBSQPutBusy :: "adaptFBSharedQ \<Rightarrow> ptr \<Rightarrow> int \<times> adaptFBSharedQ" where
  "aFBSQPutBusy f p = (let (r, q) = aSQput (BusySQ f) p in (r, f\<lparr>BusySQ := q\<rparr>))"

definition aFBSQPutFree :: "adaptFBSharedQ \<Rightarrow> ptr \<Rightarrow> int \<times> adaptFBSharedQ" where
  "aFBSQPutFree f p = (let (r, q) = aSQput (FreeSQ f) p in (r, f\<lparr>FreeSQ := q\<rparr>))"

definition aFBSQFindPtrBUSY ::
    "adaptFBSharedQ \<Rightarrow> (ptr \<Rightarrow> int \<Rightarrow> bool) \<Rightarrow> int \<Rightarrow> ptr \<times> adaptFBSharedQ" where
  "aFBSQFindPtrBUSY f g x = (let (p, q) = aSQFindPtr (BusySQ f) g x in (p, f\<lparr>BusySQ := q\<rparr>))"

text \<open>\<open>adaptFBPSharedQ\<close> gives its own names to two operations that do nothing.\<close>

definition aFBSPQRemoveBusy :: "adaptFBSharedQ \<Rightarrow> ptr \<Rightarrow> int \<times> adaptFBSharedQ" where
  "aFBSPQRemoveBusy f p = (0, f)"

definition aFBSPQPutBusy :: "adaptFBSharedQ \<Rightarrow> ptr \<Rightarrow> int \<times> adaptFBSharedQ" where
  "aFBSPQPutBusy f p = (0, f)"

lemmas fbq_defs = aFBQGetFree_def aFBQRemoveBusy_def aFBQPutBusy_def aFBQPutFree_def
lemmas fbsq_defs = aFBSQGetFree_def aFBSQRemoveBusy_def aFBSQPutBusy_def aFBSQPutFree_def

subsection \<open>The pool interface\<close>

text \<open>
  \<open>pool_ok\<close>: no object is twice in the pool, and the free queue holds no NULL. (The busy queue
  may: an allocation from an empty pool files the NULL it got as busy.)
\<close>

definition pool_ok :: "ptr list \<Rightarrow> ptr list \<Rightarrow> bool" where
  "pool_ok fs bs \<longleftrightarrow> distinct (fs @ removeAll NULL bs) \<and> NULL \<notin> set fs"

locale fb_pool =
  fixes get_free :: "'f \<Rightarrow> ptr \<times> 'f"
    and put_busy :: "'f \<Rightarrow> ptr \<Rightarrow> int \<times> 'f"
    and remove_busy :: "'f \<Rightarrow> ptr \<Rightarrow> int \<times> 'f"
    and put_free :: "'f \<Rightarrow> ptr \<Rightarrow> int \<times> 'f"
    and frees :: "'f \<Rightarrow> ptr list"
    and busys :: "'f \<Rightarrow> ptr list"
  assumes get_free_cons: "frees f = p # ps \<Longrightarrow>
      fst (get_free f) = p \<and> frees (snd (get_free f)) = ps \<and> busys (snd (get_free f)) = busys f"
    and get_free_nil: "frees f = [] \<Longrightarrow>
      fst (get_free f) = NULL \<and> frees (snd (get_free f)) = [] \<and> busys (snd (get_free f)) = busys f"
    and put_busy: "frees (snd (put_busy f p)) = frees f \<and> busys (snd (put_busy f p)) = busys f @ [p]"
    and remove_busy: "frees (snd (remove_busy f p)) = frees f
      \<and> busys (snd (remove_busy f p)) = removeAll p (busys f)"
    and put_free: "frees (snd (put_free f p)) = frees f @ [p] \<and> busys (snd (put_free f p)) = busys f"
begin

lemma acquire_cons: "frees f = p # ps \<Longrightarrow> get_free f = (x, f1) \<Longrightarrow> put_busy f1 x = (r, f2) \<Longrightarrow>
    x = p \<and> frees f2 = ps \<and> busys f2 = busys f @ [p]"
  using get_free_cons [of f p ps] put_busy [of f1 x] by auto

lemma acquire_nil: "frees f = [] \<Longrightarrow> get_free f = (x, f1) \<Longrightarrow> put_busy f1 x = (r, f2) \<Longrightarrow>
    x = NULL \<and> frees f2 = [] \<and> busys f2 = busys f @ [NULL]"
  using get_free_nil [of f] put_busy [of f1 x] by auto

lemma release: "remove_busy f p = (r, f1) \<Longrightarrow> put_free f1 p = (r', f2) \<Longrightarrow>
    frees f2 = frees f @ [p] \<and> busys f2 = removeAll p (busys f)"
  using remove_busy [of f p] put_free [of f1 p] by auto

lemma acquire_ok:
  assumes "pool_ok (frees f) (busys f)" "get_free f = (x, f1)" "put_busy f1 x = (r, f2)"
  shows "pool_ok (frees f2) (busys f2)"
  using assms acquire_cons [OF _ assms(2,3)] acquire_nil [OF _ assms(2,3)]
  by (cases "frees f") (auto simp: pool_ok_def)

lemma release_ok:
  assumes "pool_ok (frees f) (busys f)" "p \<in> set (busys f)" "p \<noteq> NULL"
    "remove_busy f p = (r, f1)" "put_free f1 p = (r', f2)"
  shows "pool_ok (frees f2) (busys f2)"
  using assms release [OF assms(4,5)]
  by (auto simp: pool_ok_def distinct_removeAll removeAll_swap [of NULL p])

end

interpretation fbq: fb_pool aFBQGetFree aFBQPutBusy aFBQRemoveBusy aFBQPutFree
    "\<lambda>f. Q (FreeQ f)" "\<lambda>f. Q (BusyQ f)"
  by unfold_locales
    (simp_all add: fbq_defs adaptq.get_cons adaptq.get_empty adaptq.items_put adaptq.items_remove
      split_beta)

interpretation fbsq: fb_pool aFBSQGetFree aFBSQPutBusy aFBSQRemoveBusy aFBSQPutFree
    "\<lambda>f. Q (FreeSQ f)" "\<lambda>f. Q (BusySQ f)"
  by unfold_locales
    (simp_all add: fbsq_defs sharedq.get_cons sharedq.get_empty sharedq.items_put
      sharedq.items_remove split_beta)

end
