(* ===== verification/Server.thy ===== *)
theory Server
  imports Msg Pools "HOL-Library.Signed_Division"
begin

section \<open>The server's shared state (acacheSGA.h, acacheSGA.cpp)\<close>

text \<open>
  The one \<open>acacheSGA\<close> object: the settings, the hash table, the pools of messages and connections,
  the list of all threads and the message queues of the workers. \<open>aTSQGKVdata\<close> is an array of
  pointers to queues: \<open>None\<close> is an entry that was never set; with a queue goes the number of worker
  threads that were started on it.
\<close>

record acacheSGA =
  sga_type :: int
  numCores :: int
  sga_hashsize :: int
  sga_hashsize_power :: nat
  sga_hashmask :: u32
  sga_lock_ratio :: int
  sga_lock_ratio_power :: nat
  sga_lock_count :: int
  sga_lock_mask :: int
  ahashtableptr :: ahashtable
  aSQGSharedQ :: adaptSharedQ
  aSQGFreebusySQ :: adaptSharedQ
  aSQGThreadedSQ :: adaptSharedQ
  aSQGthreads :: adaptSharedQ
  aSQGprocessCommandBusy :: adaptSharedQ
  aFBSQGaMsg :: adaptFBSharedQ
  aFBSQGaConn :: adaptFBSharedQ
  aFBSQGaLock :: adaptFBSharedQ
  aTSQGKVdata :: "(adaptSharedQ \<times> nat) option list"
  aTcomm :: "ptr list"

text \<open>
  The objects behind the pointers. An address is handed out once (\<open>brk\<close> is the next one), so that a
  stale pointer shows. A message that was not yet initialised is not in \<open>msgs\<close>; \<open>pipes\<close> is what was
  written to the pipe of a comm thread and not yet read; \<open>watched\<close> the events the event loop watches;
  \<open>closed\<close> the sockets closed, latest first.
\<close>

record aEvent =
  ev_base :: ptr
  ev_comm :: ptr
  ev_aC :: ptr

record server = acacheSGA +
  brk :: ptr
  msgs :: "ptr \<rightharpoonup> aMsg"
  conns :: "ptr \<rightharpoonup> aConn"
  events :: "ptr \<rightharpoonup> aEvent"
  pipes :: "ptr \<Rightarrow> MsgPipe_t list"
  watched :: "ptr set"
  closed :: "int list"

text \<open>How many messages and connections are made at a time (acacheconst.h).\<close>

definition INIT_COUNT_GLOBAL_MSG :: nat where "INIT_COUNT_GLOBAL_MSG = 8000"
definition INIT_COUNT_GLOBAL_CONN :: nat where "INIT_COUNT_GLOBAL_CONN = 500"

text \<open>The \<open>n\<close>-fold execution of a loop body.\<close>

abbreviation (input) times :: "nat \<Rightarrow> (server \<Rightarrow> server) \<Rightarrow> server \<Rightarrow> server" where
  "times n f w \<equiv> (f ^^ n) w"

definition upd_conn :: "ptr \<Rightarrow> aConn \<Rightarrow> server \<Rightarrow> server" where
  "upd_conn p c w = w\<lparr>conns := (conns w)(p \<mapsto> c)\<rparr>"

definition upd_msg :: "ptr \<Rightarrow> aMsg \<Rightarrow> server \<Rightarrow> server" where
  "upd_msg p a w = w\<lparr>msgs := (msgs w)(p \<mapsto> a)\<rparr>"

text \<open>\<open>aM->Init\<close> writes to the message, wherever the pointer points.\<close>

definition init_msg :: "ptr \<Rightarrow> aMsg \<Rightarrow> server \<Rightarrow> server result" where
  "init_msg p a w = (if p = NULL then Inl NullDeref else Inr (upd_msg p a w))"

subsection \<open>Pools\<close>

definition aSGAAllocate :: "adaptFBSharedQ \<Rightarrow> ptr \<times> adaptFBSharedQ" where
  "aSGAAllocate f = (let (p, f) = aFBSQGetFree f; (_, f) = aFBSQPutBusy f p in (p, f))"

definition aSGARelease :: "adaptFBSharedQ \<Rightarrow> ptr \<Rightarrow> ptr \<times> adaptFBSharedQ" where
  "aSGARelease f p = (let (_, f) = aFBSQRemoveBusy f p; (_, f) = aFBSQPutFree f p in (NULL, f))"

definition aConnAllocate :: "server \<Rightarrow> ptr \<times> server" where
  "aConnAllocate w = (let (p, f) = aSGAAllocate (aFBSQGaConn w) in (p, w\<lparr>aFBSQGaConn := f\<rparr>))"

definition aConnRelease :: "server \<Rightarrow> ptr \<Rightarrow> ptr \<times> server" where
  "aConnRelease w p = (let (r, f) = aSGARelease (aFBSQGaConn w) p in (r, w\<lparr>aFBSQGaConn := f\<rparr>))"

text \<open>\<open>new aMsg()\<close>, into the free queue.\<close>

definition new_msg :: "server \<Rightarrow> server" where
  "new_msg w = w\<lparr>aFBSQGaMsg := snd (aFBSQPutFree (aFBSQGaMsg w) (brk w)), brk := Suc (brk w)\<rparr>"

text \<open>When the free queue is empty, 8000 more messages are made and the allocation starts again.\<close>

partial_function (option) aMsgAllocate :: "server \<Rightarrow> (ptr \<times> server) option" where
  "aMsgAllocate w =
     (case aSGAAllocate (aFBSQGaMsg w) of (p, f) \<Rightarrow>
      (if p = NULL then aMsgAllocate (times INIT_COUNT_GLOBAL_MSG new_msg (w\<lparr>aFBSQGaMsg := f\<rparr>))
       else Some (p, w\<lparr>aFBSQGaMsg := f\<rparr>)))"

definition aMsgRelease :: "server \<Rightarrow> ptr \<Rightarrow> ptr \<times> server" where
  "aMsgRelease w p = (let (r, f) = aSGARelease (aFBSQGaMsg w) p in (r, w\<lparr>aFBSQGaMsg := f\<rparr>))"

subsection \<open>Dispatch to the workers\<close>

definition aTSQputMsg :: "adaptSharedQ \<Rightarrow> ptr \<Rightarrow> adaptSharedQ" where
  "aTSQputMsg q p = adaptUnLock (snd (aQput (adaptLock q) p))"

text \<open>
  The index of the queue for a hash value, as the function \<open>Post2KVdata\<close> of acacheSGA.cpp and the
  methods of \<open>aConn\<close> compute it.
\<close>

definition KVdatathrindex :: "server \<Rightarrow> u32 \<Rightarrow> nat result" where
  "KVdatathrindex w hashval =
     (if numCores w = 0 then Inl DivByZero
      else Inr (if uint (hashval AND sga_hashmask w) \<le> sga_hashsize w sdiv numCores w then 0 else 1))"

definition put_kv :: "server \<Rightarrow> nat \<Rightarrow> ptr \<Rightarrow> server result" where
  "put_kv w i p =
     (if length (aTSQGKVdata w) \<le> i then Inl OutOfBounds
      else (case aTSQGKVdata w ! i of None \<Rightarrow> Inl Uninitialised
        | Some (q, n) \<Rightarrow> Inr (w\<lparr>aTSQGKVdata := (aTSQGKVdata w)[i := Some (aTSQputMsg q p, n)]\<rparr>)))"

definition Post2KVdata :: "server \<Rightarrow> ptr \<Rightarrow> (int \<times> server) result" where
  "Post2KVdata w am =
     rbind (fetch (msgs w) am) (\<lambda>a.
     rbind (KVdatathrindex w (hdr_hashval (am_hdr a))) (\<lambda>i.
     rbind (put_kv w i am) (\<lambda>w. Inr (0, w))))"

subsection \<open>Construction\<close>

text \<open>
  \<open>new aConn(CONN_TYPE_NONE, -1)\<close>, into the free queue; \<open>junk\<close> is what the memory held.
\<close>

definition new_conn :: "aConn \<Rightarrow> server \<Rightarrow> server" where
  "new_conn junk w = w\<lparr>aFBSQGaConn := snd (aFBSQPutFree (aFBSQGaConn w) (brk w)),
     conns := (conns w)(brk w \<mapsto> aConn_new 401 (- 1) junk), brk := Suc (brk w)\<rparr>"

text \<open>A thread object (\<open>adaptThreadSQ\<close>, \<open>adaptThreadComm\<close>) enters itself in the list of all threads.\<close>

definition new_thread :: "server \<Rightarrow> server" where
  "new_thread w = w\<lparr>aSQGthreads := snd (aSQput (aSQGthreads w) (brk w)), brk := Suc (brk w)\<rparr>"

text \<open>One round of the loop over \<open>aTSQGKVdata\<close>: a queue with \<open>2 / numCores\<close> workers.\<close>

definition new_kvq :: "nat \<Rightarrow> nat \<Rightarrow> server \<Rightarrow> server result" where
  "new_kvq n i w =
     (let p = brk w; w = times n new_thread (w\<lparr>brk := Suc p\<rparr>) in
      if length (aTSQGKVdata w) \<le> i then Inl OutOfBounds
      else Inr (w\<lparr>aTSQGKVdata := (aTSQGKVdata w)[i := Some (adaptSharedQ_new 404, n)],
        aSQGThreadedSQ := snd (aSQput (aSQGThreadedSQ w) p)\<rparr>))"

fun new_kvqs :: "nat \<Rightarrow> nat list \<Rightarrow> server \<Rightarrow> server result" where
  "new_kvqs n [] w = Inr w"
| "new_kvqs n (i # is) w = rbind (new_kvq n i w) (new_kvqs n is)"

definition new_comm :: "server \<Rightarrow> server" where
  "new_comm w = (new_thread w)\<lparr>aTcomm := aTcomm w @ [brk w]\<rparr>"

text \<open>
  The settings and the empty queues. The addresses 1 to 5 are those of the queue objects that are
  listed in \<open>aSQGSharedQ\<close> and \<open>aSQGFreebusySQ\<close>: \<open>aSQGthreads\<close>, \<open>aSQGprocessCommandBusy\<close>, and the
  pools of messages, connections and locks.
\<close>

definition sga_settings :: "int \<Rightarrow> int \<Rightarrow> server" where
  "sga_settings t cores =
     (let power = floor_log2 65536; ratio_power = floor_log2 128; locks = 2 ^ (power - ratio_power) in
      \<lparr>sga_type = t, numCores = cores, sga_hashsize = 65536, sga_hashsize_power = power,
        sga_hashmask = 65535, sga_lock_ratio = 128, sga_lock_ratio_power = ratio_power,
        sga_lock_count = locks, sga_lock_mask = locks - 1,
        ahashtableptr = ahashtable_new 65536 ratio_power,
        aSQGSharedQ = snd (aSQput (snd (aSQput (adaptSharedQ_new 203) 1)) 2),
        aSQGFreebusySQ = snd (aSQput (snd (aSQput (snd (aSQput (adaptSharedQ_new 205) 3)) 4)) 5),
        aSQGThreadedSQ = adaptSharedQ_new 204, aSQGthreads = adaptSharedQ_new 202,
        aSQGprocessCommandBusy = adaptSharedQ_new 201,
        aFBSQGaMsg = adaptFBSharedQ_new 1001 301, aFBSQGaConn = adaptFBSharedQ_new 1002 302,
        aFBSQGaLock = adaptFBSharedQ_new 1003 303,
        aTSQGKVdata = replicate (nat cores) None, aTcomm = [],
        brk = 6, msgs = Map.empty, conns = Map.empty, events = Map.empty, pipes = (\<lambda>_. []),
        watched = {}, closed = []\<rparr>)"

definition acacheSGA_new :: "int \<Rightarrow> int \<Rightarrow> aConn \<Rightarrow> server result" where
  "acacheSGA_new t cores junk =
     (let w = times INIT_COUNT_GLOBAL_CONN (new_conn junk) (times INIT_COUNT_GLOBAL_MSG new_msg (sga_settings t cores)) in
      if cores = 0 then Inl DivByZero
      else rbind (new_kvqs (nat (2 sdiv cores)) [0..<nat (2 sdiv cores + 1)] w) (\<lambda>w.
           Inr (times 2 new_comm w)))"

end
