(* ===== verification/Threads.thy ===== *)
theory Threads
  imports Server
begin

section \<open>Thread objects and the classes built of them (adapt/)\<close>

text \<open>
  The thread objects, the queue that starts its threads, the port and the pool with threads, and the
  message class \<open>adaptMsg\<close>. The program uses the first two (in the constructor of \<open>acacheSGA\<close>); ports,
  threaded pools and \<open>adaptMsg\<close> are not used by it. \<open>rc\<close> is what \<open>pthread_create\<close> returns for the thread
  object at an address; a failure ends the process. A start function is a number.
\<close>

record adaptThread =
  thr_type :: int
  ThreadStartFunctionPtr :: nat
  freebusyGQ :: ptr
  thr_Q1 :: ptr

record adaptThreadSQ = adaptThread +
  aTSQptr :: ptr
  threadIndex :: u16

record adaptThreadComm = adaptThread +
  fds :: "int \<times> int"

text \<open>
  The objects made so far; \<open>globalQ\<close> is the list of all threads (\<open>None\<close> for NULL), \<open>started\<close> the threads
  that run, each with the object passed to it.
\<close>

record thread_world =
  tw_brk :: ptr
  tw_sq :: "ptr \<rightharpoonup> adaptThreadSQ"
  tw_comm :: "ptr \<rightharpoonup> adaptThreadComm"
  tw_queue :: "ptr \<rightharpoonup> adaptSharedQ"
  globalQ :: "adaptSharedQ option"
  started :: "(nat \<times> ptr) list"

definition adaptThread_new :: "ptr \<Rightarrow> int \<Rightarrow> nat \<Rightarrow> adaptThread" where
  "adaptThread_new this t f = \<lparr>thr_type = t, ThreadStartFunctionPtr = f, freebusyGQ = this, thr_Q1 = this\<rparr>"

text \<open>The scheduling policy that threads of type 205 get does not show here.\<close>

definition aThreadStart :: "(ptr \<Rightarrow> int) \<Rightarrow> ptr \<Rightarrow> nat \<Rightarrow> ptr \<Rightarrow> thread_world \<Rightarrow> (int \<times> thread_world) result" where
  "aThreadStart rc this f parent tw =
     (if rc this \<noteq> 0 then Inl (Exits (- 1)) else Inr (rc this, tw\<lparr>started := started tw @ [(f, parent)]\<rparr>))"

definition enter_global :: "ptr \<Rightarrow> thread_world \<Rightarrow> thread_world" where
  "enter_global this tw = tw\<lparr>globalQ := map_option (\<lambda>q. snd (aSQput q this)) (globalQ tw)\<rparr>"

definition adaptThreadSQ_new :: "(ptr \<Rightarrow> int) \<Rightarrow> int \<Rightarrow> u16 \<Rightarrow> nat \<Rightarrow> ptr \<Rightarrow> thread_world \<Rightarrow> (ptr \<times> thread_world) result" where
  "adaptThreadSQ_new rc t ix f q tw =
     (let this = tw_brk tw;
          obj = adaptThread.extend (adaptThread_new this t f) (adaptThreadSQ.fields q ix);
          tw = enter_global this (tw\<lparr>tw_brk := Suc this, tw_sq := (tw_sq tw)(this \<mapsto> obj)\<rparr>)
      in rbind (aThreadStart rc this f this tw) (\<lambda>(_, tw). Inr (this, tw)))"

text \<open>\<open>pipe\<close> is what \<open>pipe2\<close> leaves in \<open>fds\<close>; its return value is not looked at.\<close>

definition adaptThreadComm_new :: "(ptr \<Rightarrow> int) \<Rightarrow> int \<times> int \<Rightarrow> int \<Rightarrow> nat \<Rightarrow> thread_world \<Rightarrow> (ptr \<times> thread_world) result" where
  "adaptThreadComm_new rc pipe t f tw =
     (let this = tw_brk tw;
          obj = adaptThread.extend (adaptThread_new this t f) (adaptThreadComm.fields pipe);
          tw = enter_global this (tw\<lparr>tw_brk := Suc this, tw_comm := (tw_comm tw)(this \<mapsto> obj)\<rparr>)
      in rbind (aThreadStart rc this f this tw) (\<lambda>(_, tw). Inr (this, tw)))"

subsection \<open>A queue with its threads\<close>

fun tsq_threads :: "(ptr \<Rightarrow> int) \<Rightarrow> int \<Rightarrow> nat \<Rightarrow> ptr \<Rightarrow> nat list \<Rightarrow> thread_world \<Rightarrow> thread_world result" where
  "tsq_threads rc t f q [] tw = Inr tw"
| "tsq_threads rc t f q (i # is) tw =
     rbind (adaptThreadSQ_new rc t (of_nat i) f q tw) (\<lambda>(_, tw). tsq_threads rc t f q is tw)"

definition adaptThreadedSharedQ_new :: "(ptr \<Rightarrow> int) \<Rightarrow> int \<Rightarrow> int \<Rightarrow> int \<Rightarrow> nat \<Rightarrow> thread_world \<Rightarrow> (ptr \<times> thread_world) result" where
  "adaptThreadedSharedQ_new rc qt t n f tw =
     (let this = tw_brk tw; tw = tw\<lparr>tw_brk := Suc this, tw_queue := (tw_queue tw)(this \<mapsto> adaptSharedQ_new qt)\<rparr>
      in rbind (tsq_threads rc t f this [0..<nat n] tw) (\<lambda>tw. Inr (this, tw)))"

record adaptThreadedSharedPort =
  porttype :: int
  aTSQin :: ptr
  aTSQbusy :: ptr
  aTSQdone :: ptr

definition port_queue :: "(ptr \<Rightarrow> int) \<Rightarrow> int \<Rightarrow> int \<Rightarrow> int \<times> nat \<Rightarrow> thread_world \<Rightarrow> (ptr \<times> thread_world) result" where
  "port_queue rc qt t nf tw =
     (if fst nf \<noteq> 0 then adaptThreadedSharedQ_new rc qt t (fst nf) (snd nf) tw else Inr (NULL, tw))"

definition adaptThreadedSharedPort_new :: "(ptr \<Rightarrow> int) \<Rightarrow> int \<Rightarrow> int \<Rightarrow> int \<Rightarrow> int \<times> nat \<Rightarrow> int \<times> nat \<Rightarrow> int \<times> nat \<Rightarrow>
    thread_world \<Rightarrow> (adaptThreadedSharedPort \<times> thread_world) result" where
  "adaptThreadedSharedPort_new rc pt qt t nin nbusy ndone tw =
     rbind (port_queue rc qt t nin tw) (\<lambda>(q1, tw).
     rbind (port_queue rc qt t nbusy tw) (\<lambda>(q2, tw).
     rbind (port_queue rc qt t ndone tw) (\<lambda>(q3, tw).
     Inr (\<lparr>porttype = pt, aTSQin = q1, aTSQbusy = q2, aTSQdone = q3\<rparr>, tw))))"

record adaptThreadedSharedFB =
  tFBtype :: int
  aTSQfree :: ptr
  tFB_busy :: ptr

definition adaptThreadedSharedFB_new :: "(ptr \<Rightarrow> int) \<Rightarrow> int \<Rightarrow> int \<Rightarrow> int \<Rightarrow> int \<times> nat \<Rightarrow> int \<times> nat \<Rightarrow>
    thread_world \<Rightarrow> (adaptThreadedSharedFB \<times> thread_world) result" where
  "adaptThreadedSharedFB_new rc fbt qt t nfree nbusy tw =
     rbind (adaptThreadedSharedQ_new rc qt t (fst nfree) (snd nfree) tw) (\<lambda>(q1, tw).
     rbind (adaptThreadedSharedQ_new rc qt t (fst nbusy) (snd nbusy) tw) (\<lambda>(q2, tw).
     Inr (\<lparr>tFBtype = fbt, aTSQfree = q1, tFB_busy = q2\<rparr>, tw)))"

text \<open>
  A queue with \<open>n\<close> threads, when all of them can be started: the objects are made one behind the other,
  each with the queue, its index and the start function, entered in the list of all threads and started.
\<close>

lemma tsq_threads_run:
  assumes "\<forall>p. rc p = 0" "k + n \<le> 2 ^ 16"
  shows "\<exists>tw'. tsq_threads rc t f q [k..<k + n] tw = Inr tw' \<and> tw_brk tw' = tw_brk tw + n
    \<and> (\<forall>i < n. \<exists>x. tw_sq tw' (tw_brk tw + i) = Some x \<and> aTSQptr x = q \<and> unat (threadIndex x) = k + i
         \<and> thr_type x = t \<and> ThreadStartFunctionPtr x = f)
    \<and> (\<forall>p. p < tw_brk tw \<longrightarrow> tw_sq tw' p = tw_sq tw p)
    \<and> started tw' = started tw @ map (\<lambda>i. (f, tw_brk tw + i)) [0..<n]
    \<and> map_option Q (globalQ tw') = map_option (\<lambda>g. Q g @ map (\<lambda>i. tw_brk tw + i) [0..<n]) (globalQ tw)
    \<and> tw_queue tw' = tw_queue tw"
  using assms(2)
proof (induction n arbitrary: k tw)
  case 0
  then show ?case by (simp add: option.map_ident)
next
  case (Suc n)
  let ?p = "tw_brk tw"
  let ?x = "adaptThread.extend (adaptThread_new ?p t f) (adaptThreadSQ.fields q (of_nat k))"
  let ?tw = "(enter_global ?p (tw\<lparr>tw_brk := Suc ?p, tw_sq := (tw_sq tw)(?p \<mapsto> ?x)\<rparr>))\<lparr>started := started tw @ [(f, ?p)]\<rparr>"
  have one: "adaptThreadSQ_new rc t (of_nat k) f q tw = Inr (?p, ?tw)"
    using assms(1) by (simp add: adaptThreadSQ_new_def aThreadStart_def enter_global_def Let_def)
  have up: "[k..<k + Suc n] = k # [Suc k..<Suc k + n]" by (simp add: upt_conv_Cons)
  obtain tw' where IH: "tsq_threads rc t f q [Suc k..<Suc k + n] ?tw = Inr tw'" "tw_brk tw' = tw_brk ?tw + n"
    "\<forall>i < n. \<exists>x. tw_sq tw' (tw_brk ?tw + i) = Some x \<and> aTSQptr x = q \<and> unat (threadIndex x) = Suc k + i
         \<and> thr_type x = t \<and> ThreadStartFunctionPtr x = f"
    "\<forall>p. p < tw_brk ?tw \<longrightarrow> tw_sq tw' p = tw_sq ?tw p"
    "started tw' = started ?tw @ map (\<lambda>i. (f, tw_brk ?tw + i)) [0..<n]"
    "map_option Q (globalQ tw') = map_option (\<lambda>g. Q g @ map (\<lambda>i. tw_brk ?tw + i) [0..<n]) (globalQ ?tw)"
    "tw_queue tw' = tw_queue ?tw"
    using Suc.IH [of "Suc k" ?tw] Suc.prems by auto
  have b: "tw_brk ?tw = Suc ?p" by (simp add: enter_global_def)
  have x: "tw_sq tw' ?p = Some ?x" using IH(4) by (simp add: b) (simp add: enter_global_def)
  have n0: "map g [0..<Suc n] = g 0 # map (\<lambda>i. g (Suc i)) [0..<n]" for g :: "nat \<Rightarrow> 'z"
    by (rule nth_equalityI) (auto simp: nth_Cons nth_append split: nat.split intro!: arg_cong [where f = g])
  have ix: "unat (of_nat k :: u16) = k" using Suc.prems by (simp add: unat_of_nat take_bit_nat_eq_self)
  show ?case
  proof (intro exI [of _ tw'] conjI allI impI)
    show "tsq_threads rc t f q [k..<k + Suc n] tw = Inr tw'" unfolding up tsq_threads.simps one rbind_Inr prod.case by (rule IH(1))
    fix i assume i: "i < Suc n"
    show "\<exists>x. tw_sq tw' (?p + i) = Some x \<and> aTSQptr x = q \<and> unat (threadIndex x) = k + i
         \<and> thr_type x = t \<and> ThreadStartFunctionPtr x = f"
    proof (cases i)
      case 0
      then show ?thesis by (simp add: x ix adaptThread.defs adaptThreadSQ.defs adaptThread_new_def)
    next
      case (Suc j)
      then show ?thesis using IH(3) i b by auto
    qed
  next
    show "map_option Q (globalQ tw') = map_option (\<lambda>g. Q g @ map (\<lambda>i. ?p + i) [0..<Suc n]) (globalQ tw)"
      unfolding IH(6) n0 by (cases "globalQ tw") (simp_all add: b, simp_all add: enter_global_def sharedq_defs aQput_def Let_def)
  next
    show "started tw' = started tw @ map (\<lambda>i. (f, ?p + i)) [0..<Suc n]" unfolding IH(5) n0 by (simp add: b)
  qed (use IH(2,4,7) b in \<open>auto simp: enter_global_def\<close>)
qed

text \<open>
  A queue with \<open>n\<close> threads: it is empty, and its threads are numbered from 0, belong to the queue, are
  entered in the list of all threads in this order, and started in this order, when none of the calls of
  \<open>pthread_create\<close> fails.
\<close>
theorem threaded_queue_made:
  assumes "\<forall>p. rc p = 0" "n \<le> 2 ^ 16" "q = tw_brk tw"
  shows "\<exists>tw'. adaptThreadedSharedQ_new rc qt t (int n) f tw = Inr (q, tw')
    \<and> tw_queue tw' q = Some (adaptSharedQ_new qt) \<and> started tw' = started tw @ map (\<lambda>i. (f, Suc q + i)) [0..<n]
    \<and> map_option Q (globalQ tw') = map_option (\<lambda>g. Q g @ map (\<lambda>i. Suc q + i) [0..<n]) (globalQ tw)
    \<and> (\<forall>i < n. \<exists>x. tw_sq tw' (Suc q + i) = Some x \<and> aTSQptr x = q \<and> unat (threadIndex x) = i)"
proof -
  let ?tw = "tw\<lparr>tw_brk := Suc q, tw_queue := (tw_queue tw)(q \<mapsto> adaptSharedQ_new qt)\<rparr>"
  obtain tw' where tw': "tsq_threads rc t f q [0..<0 + n] ?tw = Inr tw'"
    "\<forall>i < n. \<exists>x. tw_sq tw' (tw_brk ?tw + i) = Some x \<and> aTSQptr x = q \<and> unat (threadIndex x) = 0 + i
         \<and> thr_type x = t \<and> ThreadStartFunctionPtr x = f"
    "started tw' = started ?tw @ map (\<lambda>i. (f, tw_brk ?tw + i)) [0..<n]"
    "map_option Q (globalQ tw') = map_option (\<lambda>g. Q g @ map (\<lambda>i. tw_brk ?tw + i) [0..<n]) (globalQ ?tw)"
    "tw_queue tw' = tw_queue ?tw"
    using tsq_threads_run [OF assms(1), of 0 n t f q ?tw] assms(2) by auto
  then show ?thesis
    by (intro exI [of _ tw']) (auto simp: adaptThreadedSharedQ_new_def assms(3) Let_def)
qed

lemma threaded_queue_made_witness:
  "\<exists>tw'. adaptThreadedSharedQ_new (\<lambda>_. 0) 404 205 2 7 \<lparr>tw_brk = 1, tw_sq = Map.empty, tw_comm = Map.empty,
     tw_queue = Map.empty, globalQ = Some (adaptSharedQ_new 202), started = []\<rparr> = Inr (1, tw') \<and> started tw' = [(7, 2), (7, 3)]"
  (is "\<exists>tw'. adaptThreadedSharedQ_new _ _ _ _ _ ?tw = _ \<and> _")
  using threaded_queue_made [of "\<lambda>_. 0" 2 1 ?tw 404 205 7] by (auto simp: upt_rec)

subsection \<open>adaptMsg\<close>

record adaptMsg =
  pbuf :: "char list"
  msg_type :: int
  msg_subtype :: int
  portParent :: ptr
  msg_parent :: ptr

definition adaptMsg_aMsgClear :: "adaptMsg \<Rightarrow> int \<times> adaptMsg" where
  "adaptMsg_aMsgClear m = (0, m\<lparr>portParent := NULL, msg_subtype := - 1, msg_parent := NULL,
     pbuf := replicate 512 NUL @ drop 512 (pbuf m)\<rparr>)"

text \<open>\<open>block\<close> is what \<open>malloc(512)\<close> gives, \<open>None\<close> for NULL; \<open>junk\<close> is the memory of the object.\<close>

definition adaptMsg_new :: "int \<Rightarrow> char list option \<Rightarrow> adaptMsg \<Rightarrow> adaptMsg result" where
  "adaptMsg_new t block junk =
     (case block of None \<Rightarrow> Inl AssertFail
      | Some b \<Rightarrow> Inr (snd (adaptMsg_aMsgClear (junk\<lparr>msg_type := t, pbuf := b\<rparr>))))"

definition aMsgGet :: "ptr \<Rightarrow> ptr" where "aMsgGet this = this"
definition aMsgSetportParent :: "ptr \<Rightarrow> adaptMsg \<Rightarrow> adaptMsg" where "aMsgSetportParent p m = m\<lparr>portParent := p\<rparr>"
definition aMsgGetportParent :: "adaptMsg \<Rightarrow> ptr" where "aMsgGetportParent m = portParent m"

end
