(* ===== verification/SGA.thy ===== *)
theory SGA
  imports Server
begin

section \<open>What the pools and the dispatch of the server promise\<close>

text \<open>
  The pools of \<open>acacheSGA\<close> through the interface of the free/busy pools: allocation of messages and
  connections, and the queues of the workers that the constructor sets up for a number of cores.
\<close>

abbreviation (input) free_of :: "adaptFBSharedQ \<Rightarrow> ptr list" where "free_of f \<equiv> Q (FreeSQ f)"
abbreviation (input) busy_of :: "adaptFBSharedQ \<Rightarrow> ptr list" where "busy_of f \<equiv> Q (BusySQ f)"

subsection \<open>Allocation and release\<close>

lemma aSGAAllocate_cons:
  assumes "free_of f = p # ps"
  shows "fst (aSGAAllocate f) = p \<and> free_of (snd (aSGAAllocate f)) = ps
    \<and> busy_of (snd (aSGAAllocate f)) = busy_of f @ [p]"
  using fbsq.acquire_cons [of f p ps] assms by (auto simp: aSGAAllocate_def split: prod.splits)

lemma aSGAAllocate_nil:
  assumes "free_of f = []"
  shows "fst (aSGAAllocate f) = NULL \<and> free_of (snd (aSGAAllocate f)) = []
    \<and> busy_of (snd (aSGAAllocate f)) = busy_of f @ [NULL]"
  using fbsq.acquire_nil [of f] assms by (auto simp: aSGAAllocate_def split: prod.splits)

lemma aSGAAllocate_ok: "pool_ok (free_of f) (busy_of f) \<Longrightarrow>
    pool_ok (free_of (snd (aSGAAllocate f))) (busy_of (snd (aSGAAllocate f)))"
  using fbsq.acquire_ok [of f] by (auto simp: aSGAAllocate_def split: prod.splits)

lemma aSGARelease_lists: "free_of (snd (aSGARelease f p)) = free_of f @ [p]
    \<and> busy_of (snd (aSGARelease f p)) = removeAll p (busy_of f)"
  using fbsq.release [of f p] by (auto simp: aSGARelease_def split: prod.splits)

lemma aSGARelease_ok: "pool_ok (free_of f) (busy_of f) \<Longrightarrow> p \<in> set (busy_of f) \<Longrightarrow> p \<noteq> NULL \<Longrightarrow>
    pool_ok (free_of (snd (aSGARelease f p))) (busy_of (snd (aSGARelease f p)))"
  using fbsq.release_ok [of f p] by (auto simp: aSGARelease_def split: prod.splits)

lemma INIT_COUNT_pos: "0 < INIT_COUNT_GLOBAL_MSG" "0 < INIT_COUNT_GLOBAL_CONN"
  by (simp_all add: INIT_COUNT_GLOBAL_MSG_def INIT_COUNT_GLOBAL_CONN_def)

subsection \<open>Messages\<close>

text \<open>
  The message pool is well formed: no message is twice in it, and all its addresses were handed out.
\<close>

definition msg_pool_ok :: "server \<Rightarrow> bool" where
  "msg_pool_ok w \<longleftrightarrow> pool_ok (free_of (aFBSQGaMsg w)) (busy_of (aFBSQGaMsg w)) \<and> 0 < brk w
     \<and> set (free_of (aFBSQGaMsg w)) \<subseteq> {..<brk w} \<and> set (busy_of (aFBSQGaMsg w)) \<subseteq> {..<brk w}"

lemma new_msg_lists: "free_of (aFBSQGaMsg (new_msg w)) = free_of (aFBSQGaMsg w) @ [brk w]
    \<and> busy_of (aFBSQGaMsg (new_msg w)) = busy_of (aFBSQGaMsg w) \<and> brk (new_msg w) = Suc (brk w)"
  using fbsq.put_free [of "aFBSQGaMsg w" "brk w"] by (simp add: new_msg_def)

lemma new_msg_ok: "msg_pool_ok w \<Longrightarrow> msg_pool_ok (new_msg w)"
  using new_msg_lists [of w] by (auto simp: msg_pool_ok_def pool_ok_def)

lemma new_msgs: "free_of (aFBSQGaMsg (times n new_msg w)) = free_of (aFBSQGaMsg w) @ [brk w..<brk w + n]
    \<and> busy_of (aFBSQGaMsg (times n new_msg w)) = busy_of (aFBSQGaMsg w)
    \<and> brk (times n new_msg w) = brk w + n \<and> (msg_pool_ok w \<longrightarrow> msg_pool_ok (times n new_msg w))"
  by (induction n) (auto simp: new_msg_lists new_msg_ok)

text \<open>Making messages touches the pool and the next address only.\<close>

lemma new_msgs_frame: "\<exists>f. times n new_msg w = w\<lparr>aFBSQGaMsg := f, brk := brk w + n\<rparr>"
proof (induction n)
  case 0
  show ?case by (rule exI [of _ "aFBSQGaMsg w"]) simp
next
  case (Suc n)
  then show ?case by (auto simp: new_msg_def)
qed

lemma aMsgAllocate_cons:
  assumes "free_of (aFBSQGaMsg w) = p # ps" "p \<noteq> NULL"
  shows "aMsgAllocate w = Some (p, w\<lparr>aFBSQGaMsg := snd (aSGAAllocate (aFBSQGaMsg w))\<rparr>)"
  using aSGAAllocate_cons [OF assms(1)] assms(2)
  by (cases "aSGAAllocate (aFBSQGaMsg w)") (simp add: aMsgAllocate.simps [of w])

lemma aMsgAllocate_nil:
  assumes "free_of (aFBSQGaMsg w) = []"
  shows "aMsgAllocate w =
    aMsgAllocate (times INIT_COUNT_GLOBAL_MSG new_msg (w\<lparr>aFBSQGaMsg := snd (aSGAAllocate (aFBSQGaMsg w))\<rparr>))"
  using aSGAAllocate_nil [OF assms]
  by (cases "aSGAAllocate (aFBSQGaMsg w)") (simp add: aMsgAllocate.simps [of w])

lemma msg_pool_okD:
  assumes "msg_pool_ok w" "free_of (aFBSQGaMsg w) = p # ps"
  shows "p \<noteq> NULL" "p \<notin> set (busy_of (aFBSQGaMsg w))"
  using assms by (auto simp: msg_pool_ok_def pool_ok_def)

lemma allocate_pool_ok:
  assumes "msg_pool_ok w"
  shows "msg_pool_ok (w\<lparr>aFBSQGaMsg := snd (aSGAAllocate (aFBSQGaMsg w))\<rparr>)"
proof (cases "free_of (aFBSQGaMsg w)")
  case Nil
  then show ?thesis
    using aSGAAllocate_nil [OF Nil] aSGAAllocate_ok [of "aFBSQGaMsg w"] assms by (auto simp: msg_pool_ok_def)
next
  case (Cons p ps)
  then show ?thesis
    using aSGAAllocate_cons [OF Cons] aSGAAllocate_ok [of "aFBSQGaMsg w"] assms by (auto simp: msg_pool_ok_def)
qed

text \<open>
  An allocation: what is given out, and that only the pool and the next address change.
\<close>

lemma aMsgAllocate_spec:
  assumes "msg_pool_ok w"
  shows "\<exists>p f b. aMsgAllocate w = Some (p, w\<lparr>aFBSQGaMsg := f, brk := b\<rparr>) \<and> p \<noteq> NULL
    \<and> p \<notin> set (busy_of (aFBSQGaMsg w)) \<and> brk w \<le> b \<and> msg_pool_ok (w\<lparr>aFBSQGaMsg := f, brk := b\<rparr>)
    \<and> (if free_of (aFBSQGaMsg w) = []
       then p = brk w \<and> free_of f = [brk w + 1..<brk w + INIT_COUNT_GLOBAL_MSG] \<and> busy_of f = busy_of (aFBSQGaMsg w) @ [NULL, p]
       else p # free_of f = free_of (aFBSQGaMsg w) \<and> busy_of f = busy_of (aFBSQGaMsg w) @ [p] \<and> b = brk w)"
proof (cases "free_of (aFBSQGaMsg w)")
  case (Cons p ps)
  let ?f = "snd (aSGAAllocate (aFBSQGaMsg w))"
  have "p < brk w" using assms Cons by (auto simp: msg_pool_ok_def)
  then show ?thesis
    using aMsgAllocate_cons [OF Cons] aSGAAllocate_cons [OF Cons] msg_pool_okD [OF assms Cons] Cons
      allocate_pool_ok [OF assms]
    by (intro exI [of _ p] exI [of _ ?f] exI [of _ "brk w"]) auto
next
  case Nil
  let ?w = "w\<lparr>aFBSQGaMsg := snd (aSGAAllocate (aFBSQGaMsg w))\<rparr>"
  let ?w' = "times INIT_COUNT_GLOBAL_MSG new_msg ?w"
  note nil = aSGAAllocate_nil [OF Nil]
  obtain f where f: "?w' = ?w\<lparr>aFBSQGaMsg := f, brk := brk w + INIT_COUNT_GLOBAL_MSG\<rparr>"
    using new_msgs_frame [of INIT_COUNT_GLOBAL_MSG ?w] by auto
  have ok: "msg_pool_ok ?w'" using new_msgs [of INIT_COUNT_GLOBAL_MSG ?w] allocate_pool_ok [OF assms] by blast
  have up: "[brk w..<brk w + INIT_COUNT_GLOBAL_MSG] = brk w # [Suc (brk w)..<brk w + INIT_COUNT_GLOBAL_MSG]"
    by (rule upt_conv_Cons) (simp add: INIT_COUNT_pos)
  have fr: "free_of f = brk w # [Suc (brk w)..<brk w + INIT_COUNT_GLOBAL_MSG]" "busy_of f = busy_of (aFBSQGaMsg w) @ [NULL]"
    using new_msgs [of INIT_COUNT_GLOBAL_MSG ?w] nil up unfolding f by simp_all
  have fr': "free_of (aFBSQGaMsg ?w') = brk w # [Suc (brk w)..<brk w + INIT_COUNT_GLOBAL_MSG]" using fr f by simp
  have "brk w \<noteq> NULL" using assms by (simp add: msg_pool_ok_def)
  then have run: "aMsgAllocate w = Some (brk w, ?w'\<lparr>aFBSQGaMsg := snd (aSGAAllocate (aFBSQGaMsg ?w'))\<rparr>)"
    using aMsgAllocate_nil [OF Nil] aMsgAllocate_cons [OF fr'] by simp
  have "brk w \<notin> set (busy_of (aFBSQGaMsg w))" using assms by (auto simp: msg_pool_ok_def)
  moreover have "aMsgAllocate w = Some (brk w, w\<lparr>aFBSQGaMsg := snd (aSGAAllocate f), brk := brk w + INIT_COUNT_GLOBAL_MSG\<rparr>)"
    using run unfolding f by simp
  moreover have "msg_pool_ok (w\<lparr>aFBSQGaMsg := snd (aSGAAllocate f), brk := brk w + INIT_COUNT_GLOBAL_MSG\<rparr>)"
    using allocate_pool_ok [OF ok] unfolding f by (simp add: msg_pool_ok_def)
  moreover have "free_of (snd (aSGAAllocate f)) = [brk w + 1..<brk w + INIT_COUNT_GLOBAL_MSG]"
    "busy_of (snd (aSGAAllocate f)) = busy_of (aFBSQGaMsg w) @ [NULL, brk w]"
    using aSGAAllocate_cons [OF fr(1)] fr(2) by simp_all
  ultimately show ?thesis
    using Nil \<open>brk w \<noteq> NULL\<close> le_add1 by metis
qed

lemma aMsgRelease_ok:
  assumes "msg_pool_ok w" "p \<in> set (busy_of (aFBSQGaMsg w))" "p \<noteq> NULL"
  shows "msg_pool_ok (snd (aMsgRelease w p))"
  using assms aSGARelease_ok [of "aFBSQGaMsg w" p] aSGARelease_lists [of "aFBSQGaMsg w" p]
  by (auto simp: msg_pool_ok_def aMsgRelease_def split: prod.splits)

subsection \<open>Connections\<close>

lemma aConnAllocate_nil:
  "free_of (aFBSQGaConn w) = [] \<Longrightarrow> fst (aConnAllocate w) = NULL"
  using aSGAAllocate_nil [of "aFBSQGaConn w"] by (auto simp: aConnAllocate_def split: prod.splits)

lemma aConnAllocate_cons:
  "free_of (aFBSQGaConn w) = p # ps \<Longrightarrow>
    aConnAllocate w = (p, w\<lparr>aFBSQGaConn := snd (aSGAAllocate (aFBSQGaConn w))\<rparr>)"
  using aSGAAllocate_cons [of "aFBSQGaConn w" p ps] by (auto simp: aConnAllocate_def split: prod.splits)

subsection \<open>The server after its construction\<close>

text \<open>What the loops of the constructor leave alone.\<close>

lemma new_msg_kv: "aTSQGKVdata (times n new_msg w) = aTSQGKVdata w"
    "aFBSQGaConn (times n new_msg w) = aFBSQGaConn w" "conns (times n new_msg w) = conns w"
    "sga_hashsize (times n new_msg w) = sga_hashsize w" "numCores (times n new_msg w) = numCores w"
    "sga_hashmask (times n new_msg w) = sga_hashmask w"
  by (induction n) (simp_all add: new_msg_def)

lemma new_conn_kv: "aTSQGKVdata (times n (new_conn j) w) = aTSQGKVdata w"
    "aFBSQGaMsg (times n (new_conn j) w) = aFBSQGaMsg w" "brk (times n (new_conn j) w) = brk w + n"
    "free_of (aFBSQGaConn (times n (new_conn j) w)) = free_of (aFBSQGaConn w) @ [brk w..<brk w + n]"
    "busy_of (aFBSQGaConn (times n (new_conn j) w)) = busy_of (aFBSQGaConn w)"
    "sga_hashsize (times n (new_conn j) w) = sga_hashsize w" "numCores (times n (new_conn j) w) = numCores w"
    "sga_hashmask (times n (new_conn j) w) = sga_hashmask w"
  by (induction n) (simp_all add: new_conn_def fbsq.put_free)

lemma new_thread_kv: "aTSQGKVdata (times n new_thread w) = aTSQGKVdata w"
    "aFBSQGaConn (times n new_thread w) = aFBSQGaConn w" "aFBSQGaMsg (times n new_thread w) = aFBSQGaMsg w"
    "brk (times n new_thread w) = brk w + n" "conns (times n new_thread w) = conns w"
    "sga_hashsize (times n new_thread w) = sga_hashsize w" "numCores (times n new_thread w) = numCores w"
    "sga_hashmask (times n new_thread w) = sga_hashmask w"
  by (induction n) (simp_all add: new_thread_def)

lemma new_comm_kv: "aTSQGKVdata (times n new_comm w) = aTSQGKVdata w"
    "aFBSQGaConn (times n new_comm w) = aFBSQGaConn w" "aFBSQGaMsg (times n new_comm w) = aFBSQGaMsg w"
    "brk (times n new_comm w) = brk w + n" "conns (times n new_comm w) = conns w"
    "sga_hashsize (times n new_comm w) = sga_hashsize w" "numCores (times n new_comm w) = numCores w"
    "sga_hashmask (times n new_comm w) = sga_hashmask w"
  by (induction n) (simp_all add: new_comm_def new_thread_def)

lemmas constructor_frame = new_msg_kv new_conn_kv new_thread_kv new_comm_kv

lemma sga_settings_kv: "aTSQGKVdata (sga_settings t cores) = replicate (nat cores) None"
    "numCores (sga_settings t cores) = cores" "sga_hashsize (sga_settings t cores) = 65536"
    "sga_hashmask (sga_settings t cores) = 65535"
  by (simp_all add: sga_settings_def Let_def)

lemma new_kvq_kv:
  assumes "i < length (aTSQGKVdata w)"
  shows "\<exists>w'. new_kvq n i w = Inr w' \<and> aTSQGKVdata w' = (aTSQGKVdata w)[i := Some (adaptSharedQ_new 404, n)]
    \<and> aFBSQGaMsg w' = aFBSQGaMsg w \<and> aFBSQGaConn w' = aFBSQGaConn w \<and> brk w \<le> brk w'
    \<and> numCores w' = numCores w \<and> sga_hashsize w' = sga_hashsize w \<and> sga_hashmask w' = sga_hashmask w"
  using assms by (simp add: new_kvq_def Let_def constructor_frame)

lemma new_kvq_out: "length (aTSQGKVdata w) \<le> i \<Longrightarrow> new_kvq n i w = Inl OutOfBounds"
  by (simp add: new_kvq_def Let_def constructor_frame)

lemma sdiv_pos: "0 \<le> (a :: int) \<Longrightarrow> 0 < b \<Longrightarrow> a sdiv b = a div b"
  by (simp add: signed_divide_int_def sgn_if)

lemma sga_pools:
  fixes t cores junk
  defines "w \<equiv> times INIT_COUNT_GLOBAL_CONN (new_conn junk) (times INIT_COUNT_GLOBAL_MSG new_msg (sga_settings t cores))"
  shows "aTSQGKVdata w = replicate (nat cores) None" "numCores w = cores" "sga_hashsize w = 65536"
    "sga_hashmask w = 65535" "free_of (aFBSQGaMsg w) = [6..<6 + INIT_COUNT_GLOBAL_MSG]" "busy_of (aFBSQGaMsg w) = []"
    "free_of (aFBSQGaConn w) = [6 + INIT_COUNT_GLOBAL_MSG..<6 + INIT_COUNT_GLOBAL_MSG + INIT_COUNT_GLOBAL_CONN]"
    "busy_of (aFBSQGaConn w) = []" "brk w = 6 + INIT_COUNT_GLOBAL_MSG + INIT_COUNT_GLOBAL_CONN"
proof -
  let ?s = "sga_settings t cores"
  have e: "free_of (aFBSQGaMsg ?s) = []" "busy_of (aFBSQGaMsg ?s) = []" "free_of (aFBSQGaConn ?s) = []"
    "busy_of (aFBSQGaConn ?s) = []" "brk ?s = 6"
    by (simp_all add: sga_settings_def Let_def adaptFBSharedQ_new_def adaptSharedQ_new_def)
  show "aTSQGKVdata w = replicate (nat cores) None" "numCores w = cores" "sga_hashsize w = 65536"
    "sga_hashmask w = 65535" "free_of (aFBSQGaMsg w) = [6..<6 + INIT_COUNT_GLOBAL_MSG]" "busy_of (aFBSQGaMsg w) = []"
    "free_of (aFBSQGaConn w) = [6 + INIT_COUNT_GLOBAL_MSG..<6 + INIT_COUNT_GLOBAL_MSG + INIT_COUNT_GLOBAL_CONN]"
    "busy_of (aFBSQGaConn w) = []" "brk w = 6 + INIT_COUNT_GLOBAL_MSG + INIT_COUNT_GLOBAL_CONN"
    using new_msgs [of INIT_COUNT_GLOBAL_MSG ?s] e
    by (simp_all add: w_def constructor_frame sga_settings_kv)
qed

text \<open>
  The queues of the workers for the number of cores, and that nothing else the dispatch depends on
  changes after the settings are made.
\<close>

lemma new_kvqs_two:
  assumes "length (aTSQGKVdata w) = 2"
  shows "\<exists>w'. new_kvqs 1 [0, 1] w = Inr w' \<and> aTSQGKVdata w' = replicate 2 (Some (adaptSharedQ_new 404, 1))
    \<and> aFBSQGaMsg w' = aFBSQGaMsg w \<and> aFBSQGaConn w' = aFBSQGaConn w \<and> brk w \<le> brk w'
    \<and> numCores w' = numCores w \<and> sga_hashsize w' = sga_hashsize w \<and> sga_hashmask w' = sga_hashmask w"
proof -
  obtain a b where ab: "aTSQGKVdata w = [a, b]"
    using assms by (auto simp: numeral_2_eq_2 length_Suc_conv)
  obtain w1 where w1: "new_kvq 1 0 w = Inr w1" "aTSQGKVdata w1 = [Some (adaptSharedQ_new 404, 1), b]"
    "aFBSQGaMsg w1 = aFBSQGaMsg w" "aFBSQGaConn w1 = aFBSQGaConn w" "brk w \<le> brk w1"
    "numCores w1 = numCores w" "sga_hashsize w1 = sga_hashsize w" "sga_hashmask w1 = sga_hashmask w"
    using new_kvq_kv [of 0 w 1] ab by auto
  then show ?thesis
    using new_kvq_kv [of 1 w1 1] by (auto simp: numeral_2_eq_2)
qed

lemma new_kvqs_one:
  assumes "aTSQGKVdata w = replicate (Suc (Suc n)) None"
  shows "\<exists>w'. new_kvqs 0 [0] w = Inr w' \<and> aTSQGKVdata w' = Some (adaptSharedQ_new 404, 0) # replicate (Suc n) None
    \<and> aFBSQGaMsg w' = aFBSQGaMsg w \<and> aFBSQGaConn w' = aFBSQGaConn w \<and> brk w \<le> brk w'
    \<and> numCores w' = numCores w \<and> sga_hashsize w' = sga_hashsize w \<and> sga_hashmask w' = sga_hashmask w"
proof -
  obtain w1 where w1: "new_kvq 0 0 w = Inr w1" "aTSQGKVdata w1 = (aTSQGKVdata w)[0 := Some (adaptSharedQ_new 404, 0)]"
    "aFBSQGaMsg w1 = aFBSQGaMsg w" "aFBSQGaConn w1 = aFBSQGaConn w" "brk w \<le> brk w1"
    "numCores w1 = numCores w" "sga_hashsize w1 = sga_hashsize w" "sga_hashmask w1 = sga_hashmask w"
    using new_kvq_kv [of 0 w 0] assms by auto
  then show ?thesis by (simp add: assms)
qed

lemma new_kvqs_overrun:
  assumes "length (aTSQGKVdata w) = 1"
  shows "new_kvqs 2 [0, 1, 2] w = Inl OutOfBounds"
proof -
  obtain w1 where "new_kvq 2 0 w = Inr w1" "length (aTSQGKVdata w1) = 1"
    using new_kvq_kv [of 0 w 2] assms by auto
  then show ?thesis by (simp add: new_kvq_out)
qed

lemma kv_loop: "[0..<nat (2 sdiv 2 + 1)] = [0, 1]" "nat (2 sdiv 2) = 1" "[0..<nat (2 sdiv 1 + 1)] = [0, 1, 2]"
    "nat (2 sdiv 1) = 2" "0 < n \<Longrightarrow> [0..<nat (2 sdiv (int n + 2) + 1)] = [0]" "0 < n \<Longrightarrow> nat (2 sdiv (int n + 2)) = 0"
proof -
  have d: "2 sdiv (2 :: int) = 1" "2 sdiv (1 :: int) = 2" "0 < n \<Longrightarrow> 2 sdiv (int n + 2) = 0"
    by (simp_all add: sdiv_pos div_pos_pos_trivial)
  show "[0..<nat (2 sdiv 2 + 1)] = [0, 1]" "nat (2 sdiv 2) = 1" "[0..<nat (2 sdiv 1 + 1)] = [0, 1, 2]"
    "nat (2 sdiv 1) = 2" "0 < n \<Longrightarrow> [0..<nat (2 sdiv (int n + 2) + 1)] = [0]" "0 < n \<Longrightarrow> nat (2 sdiv (int n + 2)) = 0"
    by (simp_all add: d upt_rec)
qed

lemma acacheSGA_new_eq: "cores \<noteq> 0 \<Longrightarrow> acacheSGA_new t cores junk =
    rbind (new_kvqs (nat (2 sdiv cores)) [0..<nat (2 sdiv cores + 1)]
      (times INIT_COUNT_GLOBAL_CONN (new_conn junk) (times INIT_COUNT_GLOBAL_MSG new_msg (sga_settings t cores))))
     (\<lambda>w. Inr (times 2 new_comm w))"
  by (simp add: acacheSGA_new_def Let_def)

lemma KVdatathrindex_eq: "numCores w = int n + 2 \<Longrightarrow> sga_hashsize w = 65536 \<Longrightarrow> sga_hashmask w = 65535 \<Longrightarrow>
    KVdatathrindex w hv = Inr (if uint (hv AND 65535) \<le> 65536 div (int n + 2) then 0 else 1)"
  by (simp add: KVdatathrindex_def sdiv_pos)

lemma acacheSGA_new_ready:
  "\<exists>w. acacheSGA_new t (int n + 2) junk = Inr w
     \<and> aTSQGKVdata w = (if n = 0 then replicate 2 (Some (adaptSharedQ_new 404, 1))
          else Some (adaptSharedQ_new 404, 0) # replicate (Suc n) None)
     \<and> free_of (aFBSQGaMsg w) = [6..<6 + INIT_COUNT_GLOBAL_MSG] \<and> busy_of (aFBSQGaMsg w) = []
     \<and> free_of (aFBSQGaConn w) = [6 + INIT_COUNT_GLOBAL_MSG..<6 + INIT_COUNT_GLOBAL_MSG + INIT_COUNT_GLOBAL_CONN]
     \<and> busy_of (aFBSQGaConn w) = [] \<and> 6 + INIT_COUNT_GLOBAL_MSG + INIT_COUNT_GLOBAL_CONN \<le> brk w
     \<and> numCores w = int n + 2 \<and> sga_hashsize w = 65536 \<and> sga_hashmask w = 65535"
proof -
  let ?w = "times INIT_COUNT_GLOBAL_CONN (new_conn junk) (times INIT_COUNT_GLOBAL_MSG new_msg (sga_settings t (int n + 2)))"
  note f = sga_pools [of junk t "int n + 2"]
  have "\<exists>w'. new_kvqs (nat (2 sdiv (int n + 2))) [0..<nat (2 sdiv (int n + 2) + 1)] ?w = Inr w'
    \<and> aTSQGKVdata w' = (if n = 0 then replicate 2 (Some (adaptSharedQ_new 404, 1))
          else Some (adaptSharedQ_new 404, 0) # replicate (Suc n) None)
    \<and> aFBSQGaMsg w' = aFBSQGaMsg ?w \<and> aFBSQGaConn w' = aFBSQGaConn ?w \<and> brk ?w \<le> brk w'
    \<and> numCores w' = numCores ?w \<and> sga_hashsize w' = sga_hashsize ?w \<and> sga_hashmask w' = sga_hashmask ?w"
  proof (cases n)
    case 0
    have c: "int n + 2 = 2" using 0 by simp
    have "length (aTSQGKVdata ?w) = 2" using f(1) 0 by simp
    from new_kvqs_two [OF this] show ?thesis unfolding c kv_loop using 0 by simp
  next
    case (Suc m)
    have n: "0 < n" using Suc by simp
    have "aTSQGKVdata ?w = replicate (Suc (Suc n)) None"
      using f(1) by (simp add: nat_add_distrib numeral_2_eq_2)
    from new_kvqs_one [OF this] show ?thesis unfolding kv_loop(5) [OF n] kv_loop(6) [OF n] using n by simp
  qed
  then obtain w' where "new_kvqs (nat (2 sdiv (int n + 2))) [0..<nat (2 sdiv (int n + 2) + 1)] ?w = Inr w'"
    "aTSQGKVdata w' = (if n = 0 then replicate 2 (Some (adaptSharedQ_new 404, 1))
          else Some (adaptSharedQ_new 404, 0) # replicate (Suc n) None)"
    "aFBSQGaMsg w' = aFBSQGaMsg ?w" "aFBSQGaConn w' = aFBSQGaConn ?w" "brk ?w \<le> brk w'"
    "numCores w' = numCores ?w" "sga_hashsize w' = sga_hashsize ?w" "sga_hashmask w' = sga_hashmask ?w"
    by blast
  then show ?thesis
    by (intro exI [of _ "times 2 new_comm w'"])
      (simp add: f acacheSGA_new_eq new_comm_kv del: funpow.simps)
qed

text \<open>
  C40: the constructor for the number of cores. With one core it writes past the array of the queues
  of the workers; with two it makes two queues with one worker each; with more, its loop makes the
  first queue only, and that without a worker, so that messages for hash buckets up to
  \<open>65536 / cores\<close> wait in it for ever, and one for any other bucket goes to a queue that was never
  set. The pools hold 8000 messages and 500 connections, all free.
\<close>

theorem acacheSGA_new_by_cores:
  "acacheSGA_new t 0 junk = Inl DivByZero \<and> acacheSGA_new t 1 junk = Inl OutOfBounds \<and>
   (\<exists>w. acacheSGA_new t (int n + 2) junk = Inr w
     \<and> aTSQGKVdata w = (if n = 0 then replicate 2 (Some (adaptSharedQ_new 404, 1))
          else Some (adaptSharedQ_new 404, 0) # replicate (Suc n) None)
     \<and> (\<forall>hv. KVdatathrindex w hv = Inr (if uint (hv AND 65535) \<le> 65536 div (int n + 2) then 0 else 1))
     \<and> (\<forall>p. (n = 0) = (put_kv w 1 p \<noteq> Inl Uninitialised))
     \<and> length (free_of (aFBSQGaMsg w)) = 8000 \<and> length (free_of (aFBSQGaConn w)) = 500 \<and> msg_pool_ok w)"
proof (intro conjI)
  show "acacheSGA_new t 0 junk = Inl DivByZero" by (simp add: acacheSGA_new_def)
  have "new_kvqs 2 [0, 1, 2] (times INIT_COUNT_GLOBAL_CONN (new_conn junk)
      (times INIT_COUNT_GLOBAL_MSG new_msg (sga_settings t 1))) = Inl OutOfBounds"
    by (rule new_kvqs_overrun) (simp add: sga_pools(1))
  then show "acacheSGA_new t 1 junk = Inl OutOfBounds"
    by (subst acacheSGA_new_eq) (simp_all only: kv_loop rbind_Inl one_neq_zero not_False_eq_True)
  obtain w where w: "acacheSGA_new t (int n + 2) junk = Inr w"
    "aTSQGKVdata w = (if n = 0 then replicate 2 (Some (adaptSharedQ_new 404, 1))
          else Some (adaptSharedQ_new 404, 0) # replicate (Suc n) None)"
    "free_of (aFBSQGaMsg w) = [6..<6 + INIT_COUNT_GLOBAL_MSG]" "busy_of (aFBSQGaMsg w) = []"
    "free_of (aFBSQGaConn w) = [6 + INIT_COUNT_GLOBAL_MSG..<6 + INIT_COUNT_GLOBAL_MSG + INIT_COUNT_GLOBAL_CONN]"
    "6 + INIT_COUNT_GLOBAL_MSG + INIT_COUNT_GLOBAL_CONN \<le> brk w"
    "numCores w = int n + 2" "sga_hashsize w = 65536" "sga_hashmask w = 65535"
    using acacheSGA_new_ready by blast
  have "msg_pool_ok w" using w by (auto simp: msg_pool_ok_def pool_ok_def)
  moreover have "(n = 0) = (put_kv w 1 p \<noteq> Inl Uninitialised)" for p
    using w(2) by (simp add: put_kv_def numeral_2_eq_2)
  moreover have "length (free_of (aFBSQGaMsg w)) = 8000" "length (free_of (aFBSQGaConn w)) = 500"
    unfolding w(3,5) length_upt by (simp_all add: INIT_COUNT_GLOBAL_MSG_def INIT_COUNT_GLOBAL_CONN_def)
  ultimately show "\<exists>w. acacheSGA_new t (int n + 2) junk = Inr w
     \<and> aTSQGKVdata w = (if n = 0 then replicate 2 (Some (adaptSharedQ_new 404, 1))
          else Some (adaptSharedQ_new 404, 0) # replicate (Suc n) None)
     \<and> (\<forall>hv. KVdatathrindex w hv = Inr (if uint (hv AND 65535) \<le> 65536 div (int n + 2) then 0 else 1))
     \<and> (\<forall>p. (n = 0) = (put_kv w 1 p \<noteq> Inl Uninitialised))
     \<and> length (free_of (aFBSQGaMsg w)) = 8000 \<and> length (free_of (aFBSQGaConn w)) = 500 \<and> msg_pool_ok w"
    using w(1,2) KVdatathrindex_eq [OF w(7-9)] by blast
qed

end
