(* ===== verification/ClientThread.thy ===== *)
theory ClientThread
  imports SGA
begin

section \<open>The client thread (threadClient.cpp)\<close>

text \<open>
  What a client thread does with one message: it sends the error of a message, and releases the message.
  No queue with client threads is made (the lines in the constructor of \<open>acacheSGA\<close> are a comment), so the
  function never runs.

  The assertion at its head is \<open>assert((aM->type == ERROR) || (aM->type = SUCCESS))\<close>: the second part is
  an assignment, and holds always. \<open>sent\<close> is what \<open>send\<close> returns.
\<close>

definition client_asserted :: "aMsg \<Rightarrow> aMsg" where
  "client_asserted a = (if am_type a = ERROR then a else a\<lparr>am_type := SUCCESS\<rparr>)"

definition data_expected :: "char list" where
  "data_expected = ''CLIENT_ERROR Data expected'' @ [CR, LF]"

definition client_error_sent :: "int \<Rightarrow> aMsg \<Rightarrow> aConn \<Rightarrow> aConn result" where
  "client_error_sent sent a c =
     (if aerrtype c = AERR_TYPE_APP_GETS then Inr c
      else if aerrtype c = AERR_TYPE_APP then
        (if NUL \<notin> set (ErrBuf a) then Inl OutOfBounds else Inr (snd (WriteData sent c (cstr (ErrBuf a)))))
      else if aerrtype c = AERR_TYPE_SYS_COMM then
        (if aerrnum c \<noteq> aerr_code AERR_TOKENIZER_SOCKET_HUNGUP then Inr (snd (WriteData sent c data_expected)) else Inr c)
      else Inr c)"

definition client_handle :: "int \<Rightarrow> ptr \<Rightarrow> server \<Rightarrow> server result" where
  "client_handle sent am w =
     rbind (fetch (msgs w) am) (\<lambda>a.
       let a = client_asserted a; w = upd_msg am a w in
       rbind (if am_type a = ERROR then
                rbind (fetch (conns w) (am_aC a)) (\<lambda>c.
                rbind (client_error_sent sent a c) (\<lambda>c. Inr (upd_conn (am_aC a) c w)))
              else Inr w) (\<lambda>w. Inr (snd (aMsgRelease w am))))"

text \<open>The loop over the messages it takes from its queue.\<close>

fun thrClient :: "int \<Rightarrow> ptr list \<Rightarrow> server \<Rightarrow> server result" where
  "thrClient sent [] w = Inr w"
| "thrClient sent (am # ams) w = rbind (client_handle sent am w) (thrClient sent ams)"

text \<open>
  The client thread accepts every message: one that is neither an error nor a success (a command that
  was not yet worked on, say) passes the assertion, which makes it a success, and goes back to the pool with
  nothing sent.
\<close>
theorem client_takes_any_message:
  assumes "msgs w am = Some a" "am_type a \<noteq> ERROR"
  shows "client_handle sent am w = Inr (w\<lparr>msgs := (msgs w)(am \<mapsto> a\<lparr>am_type := SUCCESS\<rparr>),
     aFBSQGaMsg := snd (aSGARelease (aFBSQGaMsg w) am)\<rparr>)"
  using assms by (simp add: client_handle_def client_asserted_def aMsgRelease_def upd_msg_def Let_def split: prod.splits)

lemma client_takes_any_message_witness:
  defines "w \<equiv> (sga_settings 0 2)\<lparr>msgs := [6 \<mapsto> aMsg_Init KVDATA 8 ACACHED_CMD_SET]\<rparr>"
  shows "\<exists>w'. client_handle 1 6 w = Inr w' \<and> map_option am_type (msgs w' 6) = Some SUCCESS"
proof -
  have "client_handle 1 6 w = Inr (w\<lparr>msgs := (msgs w)(6 \<mapsto> (aMsg_Init KVDATA 8 ACACHED_CMD_SET)\<lparr>am_type := SUCCESS\<rparr>),
     aFBSQGaMsg := snd (aSGARelease (aFBSQGaMsg w) 6)\<rparr>)"
    by (rule client_takes_any_message) (simp_all add: w_def aMsg_Init_def)
  then show ?thesis by simp
qed

text \<open>
  What is sent for an error: the text of the message, when the error is one of the command, a fixed line
  when it is one of the socket, unless the client has hung up, and nothing otherwise.
\<close>

lemma client_error_text:
  assumes "NUL \<in> set (ErrBuf a)"
  shows "\<exists>c'. client_error_sent sent a c = Inr c' \<and> wire c' = wire c @ take (nat sent)
    (if aerrtype c = AERR_TYPE_APP then cstr (ErrBuf a)
     else if aerrtype c = AERR_TYPE_SYS_COMM \<and> aerrnum c \<noteq> 5001 then data_expected else [])"
  using assms by (simp add: client_error_sent_def WriteData_def)

end
