(* ===== verification/Util.thy ===== *)
theory Util
  imports Prelude
begin

section \<open>Number parsing and byte order (aUtil.cpp)\<close>

text \<open>
  The functions of aUtil.cpp that compute: the \<open>safe_strto*\<close> family, the 64-bit byte swap and the
  \<open>select\<close> retry loop. A C string is the list of its characters before the terminating NUL. The
  C library's \<open>strtoul\<close>, \<open>strtoull\<close>, \<open>strtol\<close>, \<open>strtoll\<close> in base 10 are modelled as the standard
  describes them, for 64-bit \<open>long\<close>: a result, the rest of the string at \<open>endptr\<close>, and whether
  \<open>errno\<close> became \<open>ERANGE\<close>.
\<close>

definition isspace :: "char \<Rightarrow> bool" where
  "isspace c \<longleftrightarrow> c = SP \<or> c = CHR 0x09 \<or> c = LF \<or> c = CHR 0x0B \<or> c = CHR 0x0C \<or> c = CR"

definition digit_val :: "char \<Rightarrow> nat option" where
  "digit_val c = (let n = of_char c in if 48 \<le> n \<and> n \<le> 57 then Some (n - 48) else None)"

fun scan_digits :: "nat \<Rightarrow> string \<Rightarrow> nat \<times> string" where
  "scan_digits acc [] = (acc, [])"
| "scan_digits acc (c # cs) =
     (case digit_val c of None \<Rightarrow> (acc, c # cs) | Some d \<Rightarrow> scan_digits (acc * 10 + d) cs)"

text \<open>White space, an optional sign, digits; \<open>None\<close> when there is no digit.\<close>

definition strto_scan :: "string \<Rightarrow> (bool \<times> nat \<times> string) option" where
  "strto_scan s =
     (let s1 = dropWhile isspace s;
          (neg, s2) = (case s1 of [] \<Rightarrow> (False, s1)
             | c # cs \<Rightarrow> if c = CHR ''-'' then (True, cs)
                         else if c = CHR ''+'' then (False, cs) else (False, s1))
      in case s2 of [] \<Rightarrow> None
         | c # cs \<Rightarrow> if digit_val c = None then None
                     else (let (v, rest) = scan_digits 0 s2 in Some (neg, v, rest)))"

definition c_strtoul :: "string \<Rightarrow> u64 \<times> string \<times> bool" where
  "c_strtoul s = (case strto_scan s of None \<Rightarrow> (0, s, False)
     | Some (neg, v, rest) \<Rightarrow>
         if v \<ge> 2 ^ 64 then (- 1, rest, True)
         else (if neg then - of_nat v else of_nat v, rest, False))"

definition c_strtol :: "string \<Rightarrow> int \<times> string \<times> bool" where
  "c_strtol s = (case strto_scan s of None \<Rightarrow> (0, s, False)
     | Some (neg, v, rest) \<Rightarrow>
         (let x = (if neg then - int v else int v) in
          if x > 2 ^ 63 - 1 then (2 ^ 63 - 1, rest, True)
          else if x < - (2 ^ 63) then (- (2 ^ 63), rest, True)
          else (x, rest, False)))"

definition at_end :: "string \<Rightarrow> string \<Rightarrow> bool" where
  "at_end str endptr = (case endptr of [] \<Rightarrow> endptr \<noteq> str | c # _ \<Rightarrow> isspace c)"

text \<open>
  Each returns its boolean result and the value left in \<open>*out\<close>, which is set to 0 on entry. A null
  \<open>str\<close> (\<open>None\<close>) fails the assertion of \<open>safe_strtoul\<close>.
\<close>

definition safe_strtoull :: "string \<Rightarrow> bool \<times> u64" where
  "safe_strtoull str =
     (let (ull, endptr, erange) = c_strtoul str in
      if erange \<or> endptr = str then (False, 0)
      else if at_end str endptr then
        (if sint ull < 0 \<and> CHR ''-'' \<in> set str then (False, 0) else (True, ull))
      else (False, 0))"

definition safe_strtoll :: "string \<Rightarrow> bool \<times> int" where
  "safe_strtoll str =
     (let (ll, endptr, erange) = c_strtol str in
      if erange \<or> endptr = str then (False, 0)
      else if at_end str endptr then (True, ll) else (False, 0))"

definition safe_strtoul :: "string option \<Rightarrow> (bool \<times> u32) result" where
  "safe_strtoul str_ptr = (case str_ptr of None \<Rightarrow> Inl AssertFail
     | Some str \<Rightarrow> Inr
     (let (l, endptr, erange) = c_strtoul str in
      if erange \<or> endptr = str then (False, 0)
      else if at_end str endptr then
        (if sint l < 0 \<and> CHR ''-'' \<in> set str then (False, 0) else (True, ucast l))
      else (False, 0)))"

text \<open>\<open>*out = l\<close> narrows a 64-bit \<open>long\<close> to \<open>int32_t\<close>.\<close>

definition safe_strtol :: "string \<Rightarrow> bool \<times> int" where
  "safe_strtol str =
     (let (l, endptr, erange) = c_strtol str in
      if erange \<or> endptr = str then (False, 0)
      else if at_end str endptr then (True, sint (word_of_int l :: u32)) else (False, 0))"

subsection \<open>Decimal notation\<close>

definition digit_char :: "nat \<Rightarrow> char" where
  "digit_char d = char_of (48 + d)"

text \<open>What \<open>%d\<close> prints for a number that is not negative.\<close>

fun dec :: "nat \<Rightarrow> string" where
  "dec n = (if n < 10 then [digit_char n] else dec (n div 10) @ [digit_char (n mod 10)])"

declare dec.simps [simp del]

lemma digit_val_digit_char [simp]: "d < 10 \<Longrightarrow> digit_val (digit_char d) = Some d"
  by (simp add: digit_val_def digit_char_def Let_def)

definition all_digits :: "string \<Rightarrow> bool" where
  "all_digits s \<longleftrightarrow> (\<forall>c \<in> set s. digit_val c \<noteq> None)"

definition num_value :: "nat \<Rightarrow> string \<Rightarrow> nat" where
  "num_value acc s = foldl (\<lambda>a c. a * 10 + the (digit_val c)) acc s"

lemma all_digits_dec: "all_digits (dec n)"
proof (induction n rule: dec.induct)
  case (1 n)
  then show ?case by (subst dec.simps) (auto simp: all_digits_def)
qed

lemma dec_not_Nil [simp]: "dec n \<noteq> []"
  by (subst dec.simps) simp

lemma num_value_dec: "num_value 0 (dec n) = n"
proof (induction n rule: dec.induct)
  case (1 n)
  then show ?case by (subst dec.simps) (auto simp: num_value_def)
qed

lemma scan_digits_append: "all_digits s \<Longrightarrow> scan_digits acc (s @ t) = scan_digits (num_value acc s) t"
  by (induction s arbitrary: acc) (auto simp: all_digits_def num_value_def)

definition stops :: "string \<Rightarrow> bool" where
  "stops t = (case t of [] \<Rightarrow> True | c # _ \<Rightarrow> digit_val c = None)"

lemma scan_digits_dec: "stops t \<Longrightarrow> scan_digits 0 (dec n @ t) = (n, t)"
  by (simp add: scan_digits_append all_digits_dec num_value_dec stops_def split: list.splits)

lemma digit_not_space: "digit_val c \<noteq> None \<Longrightarrow> \<not> isspace c \<and> c \<noteq> CHR ''-'' \<and> c \<noteq> CHR ''+''"
  by (auto simp: digit_val_def isspace_def)

lemma strto_scan_dec: "stops t \<Longrightarrow> strto_scan (dec n @ t) = Some (False, n, t)"
proof -
  assume t: "stops t"
  obtain c cs where d: "dec n = c # cs" by (cases "dec n") auto
  have c: "digit_val c \<noteq> None" using all_digits_dec [of n] d by (auto simp: all_digits_def)
  show ?thesis
    using c digit_not_space [OF c] scan_digits_dec [OF t, of n] d
    by (auto simp: strto_scan_def)
qed

lemma minus_not_in_dec: "CHR ''-'' \<notin> set (dec n)"
  using all_digits_dec [of n] by (auto simp: all_digits_def digit_val_def)

lemma minus_scan: "stops t \<Longrightarrow> strto_scan (CHR ''-'' # dec n @ t) = Some (True, n, t)"
proof -
  assume t: "stops t"
  obtain c cs where d: "dec n = c # cs" by (cases "dec n") auto
  have c: "digit_val c \<noteq> None" using all_digits_dec [of n] d by (auto simp: all_digits_def)
  show ?thesis
    using c scan_digits_dec [OF t, of n] d by (auto simp: strto_scan_def isspace_def)
qed

lemma sint_neg_iff: "sint (l :: u64) < 0 \<longleftrightarrow> 2 ^ 63 \<le> unat l"
proof -
  have lt: "unat l < 2 * 2 ^ 63" using unsigned_less [of l] by simp
  have "sint l < 0 \<longleftrightarrow> bit l 63" using bit_last_iff [of l] by simp
  also have "\<dots> \<longleftrightarrow> bit (unat l) 63" by (simp add: bit_unsigned_iff)
  also have "\<dots> \<longleftrightarrow> odd (unat l div 2 ^ 63)" by (simp add: bit_iff_odd)
  also have "\<dots> \<longleftrightarrow> 2 ^ 63 \<le> unat l"
  proof (cases "2 ^ 63 \<le> unat l")
    case True
    with lt have "unat l div 2 ^ 63 = 1" by (intro div_nat_eqI) simp_all
    with True show ?thesis by simp
  next
    case False
    then show ?thesis by simp
  qed
  finally show ?thesis .
qed

subsection \<open>Byte order\<close>

fun swap_loop :: "nat \<Rightarrow> u64 \<Rightarrow> u64 \<Rightarrow> u64" where
  "swap_loop 0 rv v = rv"
| "swap_loop (Suc n) rv v = swap_loop n (push_bit 8 rv OR (v AND 0xff)) (drop_bit 8 v)"

definition mc_swap64 :: "u64 \<Rightarrow> u64" where
  "mc_swap64 v = swap_loop 8 0 v"

definition ntohll :: "u64 \<Rightarrow> u64" where
  "ntohll v = mc_swap64 v"

definition htonll :: "u64 \<Rightarrow> u64" where
  "htonll v = mc_swap64 v"

lemma mask_ff: "(0xff :: u64) = mask 8"
  by (simp add: mask_eq_exp_minus_1)

lemma bit_swap_loop: "n \<le> 8 \<Longrightarrow> bit (swap_loop n rv v) k \<longleftrightarrow> k < 64 \<and>
    (if k < 8 * n then bit v (8 * (n - 1 - k div 8) + k mod 8) else bit rv (k - 8 * n))"
proof (induction n arbitrary: rv v)
  case 0
  then show ?case by (auto dest: bit_imp_le_length)
next
  case (Suc n)
  let ?rv = "push_bit 8 rv OR (v AND 0xff)"
  have IH: "bit (swap_loop n ?rv (drop_bit 8 v)) k \<longleftrightarrow> k < 64 \<and>
      (if k < 8 * n then bit (drop_bit 8 v) (8 * (n - 1 - k div 8) + k mod 8) else bit ?rv (k - 8 * n))"
    using Suc.prems by (intro Suc.IH) simp
  consider "k < 8 * n" | "8 * n \<le> k" "k < 8 * n + 8" | "8 * n + 8 \<le> k" by linarith
  then show ?case
  proof cases
    case 1
    then have "k div 8 < n" by (simp add: less_mult_imp_div_less mult.commute)
    then have "8 + (8 * (n - 1 - k div 8) + k mod 8) = 8 * (n - k div 8) + k mod 8" by linarith
    with 1 IH show ?thesis by (simp add: bit_drop_bit_eq add.assoc [symmetric])
  next
    case 2
    then have q: "k div 8 = n" by (intro div_nat_eqI) simp_all
    then have "k mod 8 = k - 8 * n" by (simp add: modulo_nat_def mult.commute)
    note this q
    with 2 IH show ?thesis
      by (auto simp: bit_or_iff bit_and_iff bit_push_bit_iff mask_ff bit_mask_iff)
  next
    case 3
    then show ?thesis
      using IH by (auto simp: bit_or_iff bit_and_iff bit_push_bit_iff mask_ff bit_mask_iff
          diff_diff_eq add.commute)
  qed
qed

lemma bit_mc_swap64: "bit (mc_swap64 v) k \<longleftrightarrow> k < 64 \<and> bit v (8 * (7 - k div 8) + k mod 8)"
  by (auto simp: mc_swap64_def bit_swap_loop)

lemma swap_swap: "mc_swap64 (mc_swap64 v) = v"
proof (rule bit_eqI)
  fix k assume "possible_bit TYPE(u64) k"
  then have k: "k < 64" by simp
  let ?j = "8 * (7 - k div 8) + k mod 8"
  have q: "k div 8 < 8" using k by (simp add: less_mult_imp_div_less)
  have "?j div 8 = 7 - k div 8" "?j mod 8 = k mod 8" by simp_all
  then have "8 * (7 - ?j div 8) + ?j mod 8 = 8 * (k div 8) + k mod 8" using q by simp
  moreover have "?j < 64" using q mod_less_divisor [of 8 k] by linarith
  ultimately have "?j < 64" "8 * (7 - ?j div 8) + ?j mod 8 = k" by simp_all
  then show "bit (mc_swap64 (mc_swap64 v)) k \<longleftrightarrow> bit v k"
    using k by (simp add: bit_mc_swap64)
qed

subsection \<open>Waiting for a descriptor\<close>

text \<open>
  \<open>wait_for_io_or_timeout\<close>: \<open>select\<close> is called again while it fails with \<open>EINTR\<close>. The argument
  lists what the successive calls return, and whether \<open>errno\<close> is \<open>EINTR\<close> then; the result is \<open>None\<close>
  when they are all interrupted.
\<close>

fun wait_for_io_or_timeout :: "(int \<times> bool) list \<Rightarrow> (int \<times> (int \<times> bool) list) option" where
  "wait_for_io_or_timeout [] = None"
| "wait_for_io_or_timeout ((ret, eintr) # more) =
     (if ret = - 1 \<and> eintr then wait_for_io_or_timeout more else Some (ret, more))"

lemma wait_result: "wait_for_io_or_timeout rs = Some (r, more) \<Longrightarrow>
    \<exists>k. rs = replicate k (- 1, True) @ drop k rs \<and> k < length rs \<and> fst (rs ! k) = r
      \<and> (r = - 1 \<longrightarrow> \<not> snd (rs ! k)) \<and> more = drop (Suc k) rs"
proof (induction rs rule: wait_for_io_or_timeout.induct)
  case (2 ret eintr tl)
  show ?case
  proof (cases "ret = - 1 \<and> eintr")
    case True
    with 2 obtain k where "tl = replicate k (- 1, True) @ drop k tl" "k < length tl"
      "fst (tl ! k) = r" "r = - 1 \<longrightarrow> \<not> snd (tl ! k)" "more = drop (Suc k) tl" by auto
    with True show ?thesis by (intro exI [of _ "Suc k"]) simp
  next
    case False
    with 2 show ?thesis by (intro exI [of _ 0]) auto
  qed
qed simp

subsection \<open>Properties\<close>

lemma dec_eq_iff_Nil: "[] = dec n \<longleftrightarrow> False"
  by (metis dec_not_Nil)

lemma at_end_dec: "at_end (dec n) []"
  by (simp add: at_end_def dec_eq_iff_Nil)

lemma c_strtoul_dec: "c_strtoul (dec n) = (if n \<ge> 2 ^ 64 then (- 1, [], True) else (of_nat n, [], False))"
  using strto_scan_dec [of "[]" n] by (simp add: c_strtoul_def stops_def)

lemma c_strtoul_minus: "c_strtoul (CHR ''-'' # dec n) =
    (if n \<ge> 2 ^ 64 then (- 1, [], True) else (- of_nat n, [], False))"
  using minus_scan [of "[]" n] by (simp add: c_strtoul_def stops_def)

lemma minus_as_nat: "n \<le> 2 ^ 64 \<Longrightarrow> - of_nat n = (of_nat (2 ^ 64 - n) :: u64)"
  by (simp add: of_nat_diff)

lemma minus_as_nat_32: "n \<le> 2 ^ 64 \<Longrightarrow> - of_nat n = (of_nat (2 ^ 64 - n) :: u32)"
  by (simp add: of_nat_diff)

lemma ucast_of_nat_64: "n < 2 ^ 64 \<Longrightarrow> ucast (of_nat n :: u64) = (of_nat n :: u32)"
  by (simp add: unsigned_of_nat take_bit_nat_eq_self)

lemma ucast_minus_64: "n < 2 ^ 64 \<Longrightarrow> ucast (- of_nat n :: u64) = (- of_nat n :: u32)"
  by (cases "n = 0") (simp_all add: minus_as_nat minus_as_nat_32 ucast_of_nat_64 del: of_nat_diff)

lemma sint_minus_neg: "0 < n \<Longrightarrow> n < 2 ^ 64 \<Longrightarrow> sint (- of_nat n :: u64) < 0 \<longleftrightarrow> n \<le> 2 ^ 63"
proof -
  assume n: "0 < n" "n < 2 ^ 64"
  then have "unat (- of_nat n :: u64) = 2 ^ 64 - n"
    by (simp add: minus_as_nat unat_of_nat take_bit_nat_eq_self del: of_nat_diff)
  with n show ?thesis unfolding sint_neg_iff by auto
qed

lemma safe_strtoul_dec:
  "safe_strtoul (Some (dec n)) = Inr (if n < 2 ^ 64 then (True, word_of_nat n) else (False, 0))"
  by (simp add: safe_strtoul_def c_strtoul_dec at_end_dec dec_eq_iff_Nil minus_not_in_dec ucast_of_nat_64)

text \<open>
  \<open>safe_strtoul\<close> on a decimal number: it succeeds exactly below \<open>2 ^ 64\<close>, and stores the number
  modulo \<open>2 ^ 32\<close>. So every 32-bit number is read back exactly, and a larger number (a SET length
  of 4294967297, say) is accepted and silently truncated.
\<close>
theorem safe_strtoul_decimal:
  "safe_strtoul (Some (dec n)) = Inr (if n < 2 ^ 64 then (True, word_of_nat n) else (False, 0))
   \<and> unat (word_of_nat n :: u32) = n mod 2 ^ 32"
  by (simp add: safe_strtoul_dec unat_of_nat take_bit_eq_mod)

text \<open>
  \<open>safe_strtoul\<close> on a negative number: rejected with \<open>*out\<close> left 0 when its magnitude is at most
  \<open>2 ^ 63\<close> (or at least \<open>2 ^ 64\<close>), but accepted when it lies between, where \<open>strtoul\<close> wraps it to
  a value the sign test takes for positive.
\<close>
theorem safe_strtoul_negative:
  "safe_strtoul (Some (CHR ''-'' # dec n)) =
   Inr (if n = 0 \<or> 2 ^ 63 < n \<and> n < 2 ^ 64 then (True, - word_of_nat n) else (False, 0))"
proof (cases "0 < n \<and> n < 2 ^ 64")
  case True
  then show ?thesis
    using sint_minus_neg [of n]
    by (auto simp: safe_strtoul_def c_strtoul_minus at_end_def ucast_minus_64)
next
  case False
  then show ?thesis
    by (auto simp: safe_strtoul_def c_strtoul_minus at_end_def)
qed

text \<open>
  Whenever a function of the \<open>safe_strto\<close> family reports failure, the caller's variable is 0;
  and \<open>safe_strtoul\<close> aborts on a null string.
\<close>
theorem safe_strto_failure_stores_zero:
  "(fst (safe_strtoull s) \<or> snd (safe_strtoull s) = 0) \<and> (fst (safe_strtoll s) \<or> snd (safe_strtoll s) = 0)
   \<and> (fst (safe_strtol s) \<or> snd (safe_strtol s) = 0)
   \<and> (safe_strtoul (Some s) = Inr (True, snd (projr (safe_strtoul (Some s))))
      \<or> safe_strtoul (Some s) = Inr (False, 0))
   \<and> safe_strtoul None = Inl AssertFail"
  by (auto simp: safe_strtoull_def safe_strtoll_def safe_strtol_def safe_strtoul_def split: prod.splits)

text \<open>
  The 64-bit variants read decimal numbers without loss: \<open>safe_strtoull\<close> every number below
  \<open>2 ^ 64\<close>, \<open>safe_strtoll\<close> every number below \<open>2 ^ 63\<close>, and both reject what does not fit.
\<close>
theorem safe_strto64_decimal:
  "safe_strtoull (dec n) = (if n < 2 ^ 64 then (True, word_of_nat n) else (False, 0))
   \<and> safe_strtoll (dec n) = (if n < 2 ^ 63 then (True, int n) else (False, 0))"
proof -
  have scan: "strto_scan (dec n) = Some (False, n, [])"
    using strto_scan_dec [of "[]" n] by (simp add: stops_def)
  have "int n > 2 ^ 63 - 1 \<longleftrightarrow> \<not> n < 2 ^ 63" by auto
  then have "c_strtol (dec n) = (if n < 2 ^ 63 then (int n, [], False) else (2 ^ 63 - 1, [], True))"
    by (simp add: c_strtol_def scan)
  then show ?thesis
    by (simp add: safe_strtoull_def safe_strtoll_def c_strtoul_dec at_end_dec dec_eq_iff_Nil minus_not_in_dec)
qed

text \<open>
  \<open>htonll\<close> reverses the eight bytes of its argument and \<open>ntohll\<close> undoes it.
\<close>
theorem htonll_reverses_bytes:
  "ntohll (htonll v) = v \<and> (bit (htonll v) k \<longleftrightarrow> k < 64 \<and> bit v (8 * (7 - k div 8) + k mod 8))"
  by (simp add: ntohll_def htonll_def swap_swap bit_mc_swap64)

end
