(* ===== verification/ConnParse.thy ===== *)
theory ConnParse
  imports Conn Util
begin

section \<open>Parsing what a connection receives (aConnParse.cpp)\<close>

text \<open>
  The tokenizer, the search for the end of the header line, the recognition of the command, the
  header of SET, and \<open>ProcessDataRecv\<close>, the state machine that reads a header and then a body. A
  buffer is the list of the characters of its block, those beyond the received ones included;
  positions are offsets into it.
\<close>

subsection \<open>tokenize_command\<close>

text \<open>A token is the offset of its first character, or \<open>None\<close> for NULL, and its length.\<close>

type_synonym token = "nat option \<times> nat"

fun tok_loop :: "nat \<Rightarrow> nat \<Rightarrow> nat \<Rightarrow> nat \<Rightarrow> token list \<Rightarrow> char list \<Rightarrow>
    nat \<times> nat \<times> token list \<times> char list" where
  "tok_loop max_tokens 0 s e tokens buf = (s, e, tokens, buf)"
| "tok_loop max_tokens (Suc k) s e tokens buf =
     (if buf ! e = SP then
        (if s \<noteq> e then
           (let tokens = tokens @ [(Some s, e - s)]; buf = buf[e := NUL] in
            if length tokens = max_tokens - 1 then (Suc e, Suc e, tokens, buf)
            else tok_loop max_tokens k (Suc e) (Suc e) tokens buf)
         else tok_loop max_tokens k (Suc e) (Suc e) tokens buf)
      else tok_loop max_tokens k s (Suc e) tokens buf)"

definition tok_end :: "nat \<times> nat \<times> token list \<times> char list \<Rightarrow> token list \<times> char list" where
  "tok_end r = (case r of (s, e, tokens, buf) \<Rightarrow>
     (let tokens = (if s \<noteq> e then tokens @ [(Some s, e - s)] else tokens) in
      (tokens @ [(if buf ! e = NUL then None else Some e, 0)], buf)))"

definition tokenize_command :: "char list \<Rightarrow> nat \<Rightarrow> (token list \<times> char list) result" where
  "tokenize_command command max_tokens =
     (if max_tokens \<le> 1 then Inl AssertFail else if NUL \<notin> set command then Inl OutOfBounds
      else Inr (tok_end (tok_loop max_tokens (length (cstr command)) 0 0 [] command)))"

definition token_value :: "char list \<Rightarrow> token \<Rightarrow> string option" where
  "token_value buf t = map_option (\<lambda>off. cstr (drop off buf)) (fst t)"

subsection \<open>Header line and command\<close>

text \<open>
  The scan of \<open>IsBufferComplete\<close>, from the offset \<open>p\<close>: the offset behind the first CR LF it sees.
  Its loop condition does not change, so only CR LF ends it, or the end of the block.
\<close>

fun crlf_scan :: "nat \<Rightarrow> char list \<Rightarrow> nat result" where
  "crlf_scan p [] = Inl OutOfBounds"
| "crlf_scan p (c # cs) =
     (if c = CR then
        (case cs of [] \<Rightarrow> Inl OutOfBounds
         | d # ds \<Rightarrow> if d = LF then Inr (p + 2) else crlf_scan (p + 2) ds)
      else crlf_scan (p + 1) cs)"

text \<open>The offset behind the line, 0 for none, and the buffer with the CR LF zeroed.\<close>

definition IsBufferComplete :: "char list \<Rightarrow> nat \<Rightarrow> (nat \<times> char list) result" where
  "IsBufferComplete buf len =
     (if len = 1 then Inr (0, buf)
      else rbind (crlf_scan 0 buf) (\<lambda>found.
        Inr (found, buf[found - 1 := NUL, found - 2 := NUL])))"

text \<open>\<open>while ((*bufptr == ' ' || *bufptr == 0) && len > 0)\<close>: the rest of the buffer and of \<open>len\<close>.\<close>

fun skip_blanks :: "char list \<Rightarrow> nat \<Rightarrow> (char list \<times> nat) result" where
  "skip_blanks [] len = Inl OutOfBounds"
| "skip_blanks (c # cs) len =
     (if (c = SP \<or> c = NUL) \<and> 0 < len then skip_blanks cs (len - 1) else Inr (c # cs, len))"

text \<open>\<open>strncmp(bufptr, lit, strlen(lit)) == 0\<close>\<close>

definition starts :: "char list \<Rightarrow> string \<Rightarrow> bool result" where
  "starts buf lit = (case strncmp_eq (length lit) buf (lit @ [NUL]) of
     None \<Rightarrow> Inl OutOfBounds | Some b \<Rightarrow> Inr b)"

text \<open>The command to store in \<open>cmd.ctype\<close> and the value returned; \<open>None\<close> for an invalid command.\<close>

definition command_of :: "char list \<Rightarrow> (aCmdType \<times> int) option result" where
  "command_of buf =
     rbind (starts buf ''set'') (\<lambda>b. if b then Inr (Some (ACACHED_CMD_SET, cmd_code ACACHED_CMD_SET)) else
     rbind (starts buf ''version'') (\<lambda>b. if b then Inr (Some (ACACHED_CMD_VERSION, cmd_code ACACHED_CMD_QUIT)) else
     rbind (starts buf ''quit'') (\<lambda>b. if b then Inr (Some (ACACHED_CMD_QUIT, cmd_code ACACHED_CMD_QUIT)) else
     rbind (starts buf ''get'') (\<lambda>b. if b then Inr (Some (ACACHED_CMD_GETS, cmd_code ACACHED_CMD_GETS)) else
     rbind (starts buf ''gets'') (\<lambda>b. if b then Inr (Some (ACACHED_CMD_GETS, cmd_code ACACHED_CMD_GETS)) else
     Inr None)))))"

text \<open>The buffer at the current request index.\<close>

definition req_at :: "aConn \<Rightarrow> nat" where
  "req_at c = unat (req_index (iovReq c))"

definition req_buf :: "aConn \<Rightarrow> nat \<Rightarrow> char list result" where
  "req_buf c i = (if length (req_base (iovReq c)) \<le> i then Inl OutOfBounds
     else (case req_base (iovReq c) ! i of None \<Rightarrow> Inl NullDeref | Some b \<Rightarrow> Inr b))"

definition put_buf :: "aConn \<Rightarrow> nat \<Rightarrow> char list \<Rightarrow> aConn" where
  "put_buf c i b = c\<lparr>iovReq := (iovReq c)\<lparr>req_base := (req_base (iovReq c))[i := Some b]\<rparr>\<rparr>"

definition SetCommandType :: "aConn \<Rightarrow> (int \<times> aConn) result" where
  "SetCommandType c =
     rbind (req_buf c (req_at c)) (\<lambda>buf.
     rbind (skip_blanks buf (req_len (iovReq c) ! req_at c)) (\<lambda>(bufptr, len).
     rbind (if 5 < len then command_of bufptr else Inr None) (\<lambda>r.
       (case r of Some (t, code) \<Rightarrow> Inr (code, c\<lparr>cmd := (cmd c)\<lparr>ctype := t\<rparr>\<rparr>)
        | None \<Rightarrow> Inr (- 1, SetError c AERR_TOKENIZER_CMD_INVALID)))))"

text \<open>
  \<open>ProcessHeader\<close> tokenizes the line in place. A token that is not there has the value NULL, on which
  \<open>safe_strtoul\<close> aborts, before an entry of \<open>tokens\<close> that was never set is read.
\<close>

definition ProcessHeader :: "aConn \<Rightarrow> (bool \<times> aConn) result" where
  "ProcessHeader c =
     rbind (req_buf c (req_at c)) (\<lambda>buf.
     rbind (skip_blanks buf (req_len (iovReq c) ! req_at c)) (\<lambda>(bufptr, len).
     if ctype (cmd c) = ACACHED_CMD_SET then
       rbind (tokenize_command bufptr 8) (\<lambda>(tokens, bufptr').
        let c = put_buf c (req_at c) (take (length buf - length bufptr) buf @ bufptr')
        in if 2 < length tokens then
          rbind (case token_value bufptr' (tokens ! 1) of None \<Rightarrow> Inl NullDeref | Some s \<Rightarrow> Inr s) (\<lambda>key.
          rbind (strncpy (cmd_key (cmd c)) key (snd (tokens ! 1))) (\<lambda>k.
          rbind (safe_strtoul (token_value bufptr' (tokens ! 2))) (\<lambda>(b1, flags).
          rbind (if length tokens \<le> 3 then Inl Uninitialised
                 else safe_strtoul (token_value bufptr' (tokens ! 3))) (\<lambda>(b2, expt).
          rbind (if length tokens \<le> 4 then Inl Uninitialised
                 else safe_strtoul (token_value bufptr' (tokens ! 4))) (\<lambda>(b3, dlen).
            let c = c\<lparr>cmd := (cmd c)\<lparr>keylen := of_nat (snd (tokens ! 1)), cmd_key := k,
                  cmd_flags := flags, exptime := expt, datalen := dlen\<rparr>\<rparr> in
            if b1 \<and> b2 \<and> b3 then Inr (True, c)
            else Inr (False, SetError c AERR_TOKENIZER_CMD_INVALID_HDR))))))
        else Inr (False, SetError c AERR_TOKENIZER_CMD_INVALID_HDR))
     else Inr (True, c)))"

subsection \<open>Words\<close>

text \<open>The maximal non-empty runs of a line without a space.\<close>

function words :: "string \<Rightarrow> string list" where
  "words s = (case dropWhile (\<lambda>c. c = SP) s of [] \<Rightarrow> []
     | c # cs \<Rightarrow> takeWhile (\<lambda>c. c \<noteq> SP) (c # cs) # words (dropWhile (\<lambda>c. c \<noteq> SP) cs))"
  by pat_completeness auto
termination
proof (relation "measure length")
  fix s c cs assume "dropWhile (\<lambda>c. c = SP) s = c # (cs :: string)"
  then have "length (c # cs) \<le> length s" by (metis length_dropWhile_le)
  moreover have "length (dropWhile (\<lambda>c. c \<noteq> SP) cs) \<le> length cs" by (rule length_dropWhile_le)
  ultimately show "(dropWhile (\<lambda>c. c \<noteq> SP) cs, s) \<in> measure length" by simp
qed simp

declare words.simps [simp del]

lemma words_Nil: "words [] = []"
  by (simp add: words.simps)

lemma words_blank: "words (SP # s) = words s"
  by (subst (1 2) words.simps) simp

lemma run_sp:
  "SP \<notin> set w \<Longrightarrow> takeWhile (\<lambda>c. c \<noteq> SP) (w @ SP # s) = w"
  "SP \<notin> set w \<Longrightarrow> dropWhile (\<lambda>c. c \<noteq> SP) (w @ SP # s) = SP # s"
  "SP \<notin> set w \<Longrightarrow> takeWhile (\<lambda>c. c \<noteq> SP) w = w"
  "SP \<notin> set w \<Longrightarrow> dropWhile (\<lambda>c. c \<noteq> SP) w = []"
  by (induction w) auto

lemma words_word:
  assumes "w \<noteq> []" "SP \<notin> set w"
  shows "words (w @ SP # s) = w # words s"
proof -
  obtain c cs where w: "w = c # cs" using assms(1) by (cases w) auto
  then have "c \<noteq> SP" "SP \<notin> set cs" using assms(2) by auto
  with w show ?thesis
    by (subst words.simps) (simp add: words_blank run_sp)
qed

lemma words_last:
  assumes "w \<noteq> []" "SP \<notin> set w"
  shows "words w = [w]"
proof -
  obtain c cs where w: "w = c # cs" using assms(1) by (cases w) auto
  then have "c \<noteq> SP" "SP \<notin> set cs" using assms(2) by auto
  with w show ?thesis
    by (subst words.simps) (simp add: words_Nil run_sp)
qed

subsection \<open>The tokenizer finds the words\<close>

text \<open>Finished tokens end in a NUL before the current position.\<close>

definition closed_tokens :: "char list \<Rightarrow> nat \<Rightarrow> token list \<Rightarrow> bool" where
  "closed_tokens buf e ts \<longleftrightarrow> (\<forall>t \<in> set ts. \<exists>off. fst t = Some off \<and> 0 < snd t \<and> off + snd t < e
     \<and> off + snd t < length buf \<and> buf ! (off + snd t) = NUL)"

lemma closed_token_value:
  assumes "closed_tokens buf e ts" "t \<in> set ts"
  shows "token_value (buf[e := x]) t = token_value buf t"
proof -
  obtain off where "fst t = Some off" "off + snd t < e" "off + snd t < length buf" "buf ! (off + snd t) = NUL"
    using assms by (auto simp: closed_tokens_def)
  then show ?thesis
    using cstr_update [of "off + snd t" e buf off x] by (simp add: token_value_def)
qed

lemma closed_tokens_mono: "closed_tokens buf e ts \<Longrightarrow> closed_tokens (buf[e := x]) (Suc e) ts"
  unfolding closed_tokens_def by (metis length_list_update less_SucI nth_list_update_neq not_less_iff_gr_or_eq)

lemma closed_tokens_le: "closed_tokens buf s ts \<Longrightarrow> s \<le> e \<Longrightarrow> closed_tokens buf e ts"
  unfolding closed_tokens_def by (meson less_le_trans)

text \<open>The text from \<open>s\<close> to \<open>e\<close>, up to its closing NUL.\<close>

lemma cstr_slice:
  assumes "s \<le> e" "e < length buf" "buf ! e = NUL" "\<forall>i. s \<le> i \<and> i < e \<longrightarrow> buf ! i \<noteq> NUL"
  shows "cstr (drop s buf) = take (e - s) (drop s buf)"
proof -
  let ?w = "take (e - s) (drop s buf)"
  have "drop s buf = ?w @ NUL # drop (Suc e) buf"
    using assms id_take_nth_drop [of "e - s" "drop s buf"] by simp
  moreover have "NUL \<notin> set ?w"
    using assms by (auto simp: in_set_conv_nth)
  ultimately show ?thesis by (metis cstr_append_NUL)
qed

text \<open>
  The loop at position \<open>e\<close> of a line \<open>c\<close>, with the current word starting at \<open>s\<close>: from \<open>s\<close> on the
  buffer still holds the line.
\<close>

definition tok_inv :: "string \<Rightarrow> nat \<Rightarrow> nat \<Rightarrow> token list \<Rightarrow> char list \<Rightarrow> bool" where
  "tok_inv c s e ts buf \<longleftrightarrow> s \<le> e \<and> e \<le> length c \<and> length c < length buf \<and> buf ! length c = NUL
     \<and> NUL \<notin> set c \<and> (\<forall>i. s \<le> i \<and> i < length c \<longrightarrow> buf ! i = c ! i)
     \<and> (\<forall>i. s \<le> i \<and> i < e \<longrightarrow> c ! i \<noteq> SP) \<and> closed_tokens buf s ts"

lemma tok_invD:
  assumes "tok_inv c s e ts buf"
  shows "s \<le> e" "e \<le> length c" "length c < length buf" "buf ! length c = NUL" "NUL \<notin> set c"
    "\<And>i. s \<le> i \<Longrightarrow> i < length c \<Longrightarrow> buf ! i = c ! i" "\<And>i. s \<le> i \<Longrightarrow> i < e \<Longrightarrow> c ! i \<noteq> SP"
    "closed_tokens buf s ts"
  using assms by (simp_all add: tok_inv_def)

lemma tok_inv_word:
  assumes "tok_inv c s e ts buf"
  shows "take (e - s) (drop s buf) = take (e - s) (drop s c)" "SP \<notin> set (take (e - s) (drop s c))"
proof -
  note t = tok_invD [OF assms]
  show "take (e - s) (drop s buf) = take (e - s) (drop s c)"
    using t(1,2,3) t(6) by (intro nth_equalityI) auto
  show "SP \<notin> set (take (e - s) (drop s c))"
  proof
    assume "SP \<in> set (take (e - s) (drop s c))"
    then obtain i where "i < e - s" "c ! (s + i) = SP"
      using t(1,2) by (auto simp: in_set_conv_nth)
    moreover from this have "s + i < e" by linarith
    ultimately show False using t(7) [of "s + i"] by simp
  qed
qed

text \<open>The value of the token from \<open>s\<close> to \<open>e\<close>, once it is closed.\<close>

lemma new_token_value:
  assumes "tok_inv c s e ts buf"
  shows "token_value (buf[e := NUL]) (Some s, e - s) = Some (take (e - s) (drop s c))"
proof -
  note t = tok_invD [OF assms]
  have e: "e < length buf" using t(2,3) by simp
  have "buf ! i \<noteq> NUL" if "s \<le> i" "i < e" for i
    using that t(2,5) t(6) [of i] nth_mem [of i c] by (metis less_le_trans)
  then have "cstr (drop s (buf[e := NUL])) = take (e - s) (drop s (buf[e := NUL]))"
    using t(1) e by (intro cstr_slice) auto
  also have "\<dots> = take (e - s) (drop s buf)" using t(1) by (simp add: drop_update_swap)
  finally show ?thesis using tok_inv_word(1) [OF assms] by (simp add: token_value_def)
qed

lemma tok_inv_skip: "tok_inv c e e ts buf \<Longrightarrow> e < length c \<Longrightarrow> tok_inv c (Suc e) (Suc e) ts buf"
  by (simp add: tok_inv_def closed_tokens_le [of buf e ts "Suc e"])

lemma tok_inv_grow: "tok_inv c s e ts buf \<Longrightarrow> e < length c \<Longrightarrow> c ! e \<noteq> SP \<Longrightarrow> tok_inv c s (Suc e) ts buf"
  by (auto simp: tok_inv_def less_Suc_eq)

lemma tok_inv_close:
  assumes "tok_inv c s e ts buf" "e < length c" "s \<noteq> e"
  shows "tok_inv c (Suc e) (Suc e) (ts @ [(Some s, e - s)]) (buf[e := NUL])"
proof -
  note t = tok_invD [OF assms(1)]
  have e: "s < e" "e < length buf" using t(1-3) assms(3) by auto
  have "closed_tokens buf e ts"
    using closed_tokens_le t(1,8) by blast
  from closed_tokens_mono [OF this] e have "closed_tokens (buf[e := NUL]) (Suc e) (ts @ [(Some s, e - s)])"
    by (auto simp: closed_tokens_def)
  then show ?thesis using t assms(2) by (auto simp: tok_inv_def)
qed

lemma words_at_word:
  assumes "tok_inv c s e ts buf" "e < length c" "s \<noteq> e" "c ! e = SP"
  shows "words (drop s c) = take (e - s) (drop s c) # words (drop (Suc e) c)"
proof -
  note t = tok_invD [OF assms(1)]
  have "drop s c = take (e - s) (drop s c) @ SP # drop (Suc e) c"
    using t(1) assms(2,4) id_take_nth_drop [of "e - s" "drop s c"] by simp
  moreover have "take (e - s) (drop s c) \<noteq> []" using t(1) assms(2,3) by simp
  ultimately show ?thesis using words_word tok_inv_word(2) [OF assms(1)] by metis
qed

lemma words_at_blank: "e < length c \<Longrightarrow> c ! e = SP \<Longrightarrow> words (drop e c) = words (drop (Suc e) c)"
  using words_blank [of "drop (Suc e) c"] by (simp add: Cons_nth_drop_Suc [symmetric])

text \<open>What the tokenizer returns when it is called at the position \<open>s\<close> with the tokens \<open>ts\<close>.\<close>

definition tok_result :: "nat \<Rightarrow> string \<Rightarrow> nat \<Rightarrow> token list \<Rightarrow> char list \<Rightarrow> token list \<times> char list \<Rightarrow> bool" where
  "tok_result m c s ts buf r \<longleftrightarrow>
     (let ws = take (m - 1 - length ts) (words (drop s c)) in
      length (fst r) = Suc (length ts + length ws) \<and> snd (last (fst r)) = 0
      \<and> map (token_value (snd r)) (butlast (fst r)) = map (token_value buf) ts @ map Some ws
      \<and> map snd (butlast (fst r)) = map snd ts @ map length ws
      \<and> (length ts + length (words (drop s c)) < m - 1 \<longrightarrow> fst (last (fst r)) = None)
      \<and> length (snd r) = length buf \<and> (\<forall>i \<ge> length c. snd r ! i = buf ! i))"

lemma tok_spec:
  assumes "tok_inv c s e ts buf" "length ts < m - 1" "k = length c - e"
  shows "tok_result m c s ts buf (tok_end (tok_loop m k s e ts buf))"
  using assms
proof (induction k arbitrary: s e ts buf)
  case 0
  note t = tok_invD [OF 0(1)]
  have e: "e = length c" using t(2) 0(3) by simp
  show ?case
  proof (cases "s = e")
    case True
    with e t(4) show ?thesis
      by (simp add: tok_result_def tok_end_def words_Nil)
  next
    case False
    have "words (drop s c) = [drop s c]"
      using words_last [of "drop s c"] tok_inv_word(2) [OF 0(1)] e False t(1) by simp
    moreover have "token_value buf (Some s, e - s) = Some (drop s c)"
      using new_token_value [OF 0(1)] e t(4) by (simp add: list_update_id [of buf "length c", unfolded t(4)])
    ultimately show ?thesis
      using e t(4) False 0(2) by (simp add: tok_result_def tok_end_def butlast_append)
  qed
next
  case (Suc k)
  note t = tok_invD [OF Suc.prems(1)]
  have e: "e < length c" "k = length c - Suc e" using Suc.prems(3) by auto
  have be: "buf ! e = c ! e" using t(1,6) e by simp
  show ?case
  proof (cases "c ! e = SP")
    case False
    with Suc.IH [OF tok_inv_grow [OF Suc.prems(1) e(1)] Suc.prems(2) e(2)] be
    show ?thesis by simp
  next
    case sp: True
    show ?thesis
    proof (cases "s = e")
      case True
      have "tok_result m c (Suc e) ts buf (tok_end (tok_loop m k (Suc e) (Suc e) ts buf))"
        using Suc.IH [OF tok_inv_skip _ e(2)] Suc.prems(1,2) True e(1) by simp
      with True sp be words_at_blank [OF e(1) sp] show ?thesis
        by (simp add: tok_result_def Let_def)
    next
      case False
      let ?ts = "ts @ [(Some s, e - s)]" and ?buf = "buf[e := NUL]"
      have w: "words (drop s c) = take (e - s) (drop s c) # words (drop (Suc e) c)"
        by (rule words_at_word [OF Suc.prems(1) e(1) False sp])
      have v: "map (token_value ?buf) ts = map (token_value buf) ts"
        using closed_token_value [OF closed_tokens_le [OF t(8,1)]] by simp
      show ?thesis
      proof (cases "length ?ts = m - 1")
        case True
        with False sp be w v new_token_value [OF Suc.prems(1)] t(1) e(1) show ?thesis
          by (auto simp: tok_result_def tok_end_def Let_def butlast_append)
      next
        case more: False
        then have "tok_result m c (Suc e) ?ts ?buf (tok_end (tok_loop m k (Suc e) (Suc e) ?ts ?buf))"
          using Suc.IH [OF tok_inv_close [OF Suc.prems(1) e(1) False] _ e(2)] Suc.prems(2) by simp
        moreover have "m - 1 - length ts = Suc (m - 1 - length ?ts)" using more Suc.prems(2) by simp
        ultimately show ?thesis
          using False sp be w v new_token_value [OF Suc.prems(1)] more t(1) e(1)
          by (auto simp: tok_result_def Let_def)
      qed
    qed
  qed
qed

lemma tokenize_result:
  assumes "NUL \<notin> set c" "2 \<le> m"
  shows "\<exists>r. tokenize_command (c @ NUL # rest) m = Inr r \<and> tok_result m c 0 [] (c @ NUL # rest) r"
proof -
  have "tok_inv c 0 0 [] (c @ NUL # rest)"
    using assms(1) by (simp add: tok_inv_def closed_tokens_def nth_append)
  from tok_spec [OF this, of m "length c"] assms show ?thesis
    by (auto simp: tokenize_command_def cstr_append_NUL)
qed

lemma tok_result_rest:
  assumes "tok_result m c 0 [] (c @ NUL # rest) (tokens, buf)"
  shows "drop (length c) buf = NUL # rest"
proof -
  have "length buf = Suc (length c + length rest)" "\<forall>i \<ge> length c. buf ! i = (c @ NUL # rest) ! i"
    using assms by (simp_all add: tok_result_def Let_def)
  then show ?thesis by (intro nth_equalityI) (auto simp: nth_append)
qed

text \<open>
  \<open>tokenize_command\<close> on a line: the tokens are the words of the line (the maximal runs without a
  space), at most \<open>max_tokens - 1\<close> of them, each with its length and, read as a C string in the
  modified buffer, its text; then the terminal token of length 0, so that never more than
  \<open>max_tokens\<close> entries are written. What follows the line is left as it was.
\<close>

theorem tokenize_command_words:
  assumes "NUL \<notin> set c" "2 \<le> m"
  shows "\<exists>tokens buf. tokenize_command (c @ NUL # rest) m = Inr (tokens, buf)
    \<and> map (token_value buf) (butlast tokens) = map Some (take (m - 1) (words c))
    \<and> map snd (butlast tokens) = map length (take (m - 1) (words c))
    \<and> length tokens = Suc (length (take (m - 1) (words c))) \<and> length tokens \<le> m
    \<and> snd (last tokens) = 0 \<and> (length (words c) < m - 1 \<longrightarrow> fst (last tokens) = None)
    \<and> drop (length c) buf = NUL # rest"
proof -
  obtain tokens buf where r: "tokenize_command (c @ NUL # rest) m = Inr (tokens, buf)"
    "tok_result m c 0 [] (c @ NUL # rest) (tokens, buf)"
    using tokenize_result [OF assms] by force
  with tok_result_rest [OF r(2)] assms(2) show ?thesis by (auto simp: tok_result_def Let_def)
qed

lemma tokenize_command_words_witness:
  "\<exists>tokens buf. tokenize_command (''ab '' @ NUL # ''z'') 8 = Inr (tokens, buf)
    \<and> map (token_value buf) (butlast tokens) = map Some (take 7 (words ''ab ''))"
  using tokenize_command_words [of "''ab ''" 8 "''z''"] by auto

subsection \<open>The end of the line\<close>

lemma crlf_scan_line: "CR \<notin> set line \<Longrightarrow> crlf_scan p (line @ CR # LF # rest) = Inr (p + length line + 2)"
  by (induction line arbitrary: p) auto

lemma crlf_scan_none: "CR \<notin> set buf \<Longrightarrow> crlf_scan p buf = Inl OutOfBounds"
  by (induction buf arbitrary: p) auto

lemma IsBufferComplete_crlf: "CR \<notin> set line \<Longrightarrow> len \<noteq> 1 \<Longrightarrow>
    IsBufferComplete (line @ CR # LF # rest) len = Inr (length line + 2, line @ NUL # NUL # rest)"
  using crlf_scan_line [of line 0 rest]
  by (simp add: IsBufferComplete_def list_update_append)

text \<open>
  A line that ends in CR LF and has no other CR is found whole: \<open>IsBufferComplete\<close> returns the
  offset behind it and zeroes its CR LF, the line and what follows it being left as they were.
\<close>

theorem IsBufferComplete_line:
  assumes "CR \<notin> set line" "len \<noteq> 1"
  shows "IsBufferComplete (line @ CR # LF # rest) len = Inr (length line + 2, line @ NUL # NUL # rest)"
  by (rule IsBufferComplete_crlf [OF assms])

lemma IsBufferComplete_line_witness:
  "IsBufferComplete (''get a'' @ CR # LF # []) 7 = Inr (7, ''get a'' @ NUL # NUL # [])"
  using IsBufferComplete_line [of "''get a''" 7 "[]"] by simp

text \<open>
  An incomplete line does not give 0, as the comment on \<open>IsBufferComplete\<close> says: unless just one
  byte was received, the scan runs through the whole block and past its end when no CR is in it.
\<close>

theorem IsBufferComplete_partial_line:
  assumes "CR \<notin> set buf"
  shows "IsBufferComplete buf len = (if len = 1 then Inr (0, buf) else Inl OutOfBounds)"
  by (simp add: IsBufferComplete_def crlf_scan_none [OF assms])

lemma IsBufferComplete_partial_line_witness: "IsBufferComplete (''get a'' @ [LF]) 6 = Inl OutOfBounds"
  using IsBufferComplete_partial_line [of "''get a'' @ [LF]" 6] by simp

subsection \<open>The header of SET\<close>

lemma skip_blanks_run: "(\<forall>x \<in> set bl. x = SP \<or> x = NUL) \<Longrightarrow> length bl \<le> len \<Longrightarrow> d \<noteq> SP \<Longrightarrow> d \<noteq> NUL \<Longrightarrow>
    skip_blanks (bl @ d # ds) len = Inr (d # ds, len - length bl)"
  by (induction bl arbitrary: len) auto

lemma strncpy_all: "length s \<le> length dst \<Longrightarrow> strncpy dst s (length s) = Inr (s @ drop (length s) dst)"
  by (simp add: strncpy_def)

text \<open>The current request buffer starts with blanks and then the line, which ends in a NUL.\<close>

definition header_line :: "aConn \<Rightarrow> char list \<Rightarrow> string \<Rightarrow> char list \<Rightarrow> bool" where
  "header_line c bl line rest \<longleftrightarrow> req_buf c (req_at c) = Inr (bl @ line @ NUL # rest)
     \<and> (\<forall>x \<in> set bl. x = SP \<or> x = NUL) \<and> length bl \<le> req_len (iovReq c) ! req_at c
     \<and> line \<noteq> [] \<and> hd line \<noteq> SP \<and> NUL \<notin> set line"

lemma header_skip:
  assumes "header_line c bl line rest"
  shows "skip_blanks (bl @ line @ NUL # rest) (req_len (iovReq c) ! req_at c) =
    Inr (line @ NUL # rest, req_len (iovReq c) ! req_at c - length bl)"
proof -
  obtain d ds where d: "line = d # ds" using assms by (cases line) (auto simp: header_line_def)
  then have "d \<noteq> NUL" using assms by (auto simp: header_line_def)
  with d assms skip_blanks_run [of bl "req_len (iovReq c) ! req_at c" d "ds @ NUL # rest"]
  show ?thesis by (simp add: header_line_def)
qed

text \<open>What \<open>ProcessHeader\<close> does with the words of the line and the modified buffer \<open>b\<close>.\<close>

definition header_result :: "aConn \<Rightarrow> string list \<Rightarrow> (bool \<times> aConn) result" where
  "header_result c ws =
     (if length ws \<le> 1 then Inr (False, SetError c AERR_TOKENIZER_CMD_INVALID_HDR)
      else if 256 < length (ws ! 1) then Inl OutOfBounds
      else if length ws < 5 then Inl AssertFail
      else (let (b1, flags) = projr (safe_strtoul (Some (ws ! 2)));
                (b2, expt) = projr (safe_strtoul (Some (ws ! 3)));
                (b3, dlen) = projr (safe_strtoul (Some (ws ! 4)));
                c = c\<lparr>cmd := (cmd c)\<lparr>keylen := of_nat (length (ws ! 1)),
                  cmd_key := ws ! 1 @ drop (length (ws ! 1)) (cmd_key (cmd c)),
                  cmd_flags := flags, exptime := expt, datalen := dlen\<rparr>\<rparr>
            in if b1 \<and> b2 \<and> b3 then Inr (True, c)
               else Inr (False, SetError c AERR_TOKENIZER_CMD_INVALID_HDR)))"

lemma safe_strtoul_Some: "\<exists>b v. safe_strtoul (Some s) = Inr (b, v)"
proof -
  obtain x where "safe_strtoul (Some s) = Inr x" by (simp add: safe_strtoul_def)
  then show ?thesis by (cases x) simp
qed

lemma token_nth:
  assumes "tok_result 8 line 0 [] buf0 (tokens, buf)"
  shows "i < length (words line) \<Longrightarrow> i < 7 \<Longrightarrow> token_value buf (tokens ! i) = Some (words line ! i)
      \<and> snd (tokens ! i) = length (words line ! i)"
    and "length (words line) < 7 \<Longrightarrow> token_value buf (tokens ! length (words line)) = None"
    and "length tokens = Suc (min (length (words line)) 7)"
proof -
  have l: "length tokens = Suc (min (length (words line)) 7)"
    and v: "map (token_value buf) (butlast tokens) = map Some (take 7 (words line))"
    and n: "map snd (butlast tokens) = map length (take 7 (words line))"
    and t: "length (words line) < 7 \<Longrightarrow> fst (last tokens) = None"
    using assms by (simp_all add: tok_result_def Let_def)
  show "length tokens = Suc (min (length (words line)) 7)" by (rule l)
  show "token_value buf (tokens ! i) = Some (words line ! i) \<and> snd (tokens ! i) = length (words line ! i)"
    if "i < length (words line)" "i < 7"
  proof -
    have "token_value buf (butlast tokens ! i) = Some (take 7 (words line) ! i)"
      using arg_cong [OF v, of "\<lambda>xs. xs ! i"] that l by simp
    moreover have "snd (butlast tokens ! i) = length (take 7 (words line) ! i)"
      using arg_cong [OF n, of "\<lambda>xs. xs ! i"] that l by simp
    moreover have "butlast tokens ! i = tokens ! i" using that l by (intro nth_butlast) simp
    ultimately show ?thesis using that by simp
  qed
  show "token_value buf (tokens ! length (words line)) = None" if "length (words line) < 7"
  proof -
    have "tokens \<noteq> []" using l by auto
    then have "last tokens = tokens ! length (words line)" using l that by (simp add: last_conv_nth)
    with t [OF that] show ?thesis by (simp add: token_value_def)
  qed
qed

lemma ProcessHeader_result:
  assumes "header_line c bl line rest" "ctype (cmd c) = ACACHED_CMD_SET" "length (cmd_key (cmd c)) = 256"
  shows "\<exists>b. ProcessHeader c = header_result (put_buf c (req_at c) b) (words line)
    \<and> drop (length bl + length line) b = NUL # rest"
proof -
  have buf: "req_buf c (req_at c) = Inr (bl @ line @ NUL # rest)" "NUL \<notin> set line"
    using assms(1) by (auto simp: header_line_def)
  obtain tokens b where tk: "tokenize_command (line @ NUL # rest) 8 = Inr (tokens, b)"
    "tok_result 8 line 0 [] (line @ NUL # rest) (tokens, b)"
    using tokenize_result [of line 8 rest] buf(2) by force
  note nth = token_nth [OF tk(2)]
  let ?ws = "words line"
  let ?c = "put_buf c (req_at c) (bl @ b)"
  have k: "cmd ?c = cmd c" by (simp add: put_buf_def)
  note start = buf(1) header_skip [OF assms(1)] assms(2) tk(1)
  consider "length ?ws \<le> 1" | "2 \<le> length ?ws" "256 < length (?ws ! 1)"
    | "length ?ws = 2" "length (?ws ! 1) \<le> 256" | "length ?ws = 3" "length (?ws ! 1) \<le> 256"
    | "length ?ws = 4" "length (?ws ! 1) \<le> 256" | "5 \<le> length ?ws" "length (?ws ! 1) \<le> 256"
    by linarith
  then have "ProcessHeader c = header_result ?c ?ws"
  proof cases
    case 1
    with start nth(3) show ?thesis by (simp add: ProcessHeader_def header_result_def Let_def)
  next
    case 2
    with start nth(3) nth(1) [of 1] assms(3) k show ?thesis
      by (simp add: ProcessHeader_def header_result_def Let_def strncpy_def)
  next
    case 3
    with start nth(3) nth(1) [of 1] nth(2) assms(3) k show ?thesis
      by (simp add: ProcessHeader_def header_result_def Let_def strncpy_all safe_strtoul_def)
  next
    case 4
    with start nth(3) nth(1) [of 1] nth(1) [of 2] nth(2) assms(3) k show ?thesis
      by (simp add: ProcessHeader_def header_result_def Let_def strncpy_all safe_strtoul_def)
  next
    case 5
    with start nth(3) nth(1) [of 1] nth(1) [of 2] nth(1) [of 3] nth(2) assms(3) k show ?thesis
      by (simp add: ProcessHeader_def header_result_def Let_def strncpy_all)
         (simp add: safe_strtoul_def split_beta)
  next
    case 6
    obtain b1 v1 b2 v2 b3 v3 where "safe_strtoul (Some (?ws ! 2)) = Inr (b1, v1)"
      "safe_strtoul (Some (?ws ! 3)) = Inr (b2, v2)" "safe_strtoul (Some (?ws ! 4)) = Inr (b3, v3)"
      using safe_strtoul_Some by metis
    moreover have "\<not> length tokens \<le> 3" "\<not> length tokens \<le> 4" "2 < length tokens"
      using nth(3) 6(1) by auto
    ultimately show ?thesis
      using 6 start nth(1) [of 1] nth(1) [of 2] nth(1) [of 3] nth(1) [of 4] assms(3) k
      by (simp add: ProcessHeader_def header_result_def Let_def strncpy_all)
  qed
  then show ?thesis
    using tok_result_rest [OF tk(2)] by (intro exI [of _ "bl @ b"]) simp
qed

lemma no_SP_NUL_dec: "SP \<notin> set (dec n)" "NUL \<notin> set (dec n)"
  using all_digits_dec [of n] by (auto simp: all_digits_def digit_val_def)

text \<open>The line that a client sends for SET.\<close>

definition set_line :: "string \<Rightarrow> nat \<Rightarrow> nat \<Rightarrow> nat \<Rightarrow> string" where
  "set_line key f e d = ''set'' @ SP # key @ SP # dec f @ SP # dec e @ SP # dec d"

lemma words_set_line:
  "key \<noteq> [] \<Longrightarrow> SP \<notin> set key \<Longrightarrow> words (set_line key f e d) = [''set'', key, dec f, dec e, dec d]"
  using words_word [of "''set''" "key @ SP # dec f @ SP # dec e @ SP # dec d"]
  by (simp add: set_line_def words_word words_last no_SP_NUL_dec)

text \<open>
  C24: \<open>ProcessHeader\<close> is determined by the words of the header line. A line without an argument is an
  invalid header; a key of more than 256 characters overruns \<open>cmd.key\<close>; a line with a key but without
  all three numbers aborts the process; otherwise key, key length, flags, expiry and length are
  stored, and the header is valid when all three numbers are.
\<close>

theorem ProcessHeader_by_words:
  assumes "header_line c bl line rest" "ctype (cmd c) = ACACHED_CMD_SET" "length (cmd_key (cmd c)) = 256"
  shows "\<exists>b. ProcessHeader c = header_result (put_buf c (req_at c) b) (words line)
    \<and> drop (length bl + length line) b = NUL # rest"
  by (rule ProcessHeader_result [OF assms])

lemma ProcessHeader_set_line:
  assumes "header_line c bl (set_line key f e d) rest" "ctype (cmd c) = ACACHED_CMD_SET"
    and "length (cmd_key (cmd c)) = 256" "key \<noteq> []" "SP \<notin> set key" "length key \<le> 256"
    and "f < 2 ^ 32" "e < 2 ^ 32" "d < 2 ^ 32"
  shows "\<exists>b. ProcessHeader c = Inr (True, (put_buf c (req_at c) b)\<lparr>cmd := (cmd c)\<lparr>
    keylen := of_nat (length key), cmd_key := key @ drop (length key) (cmd_key (cmd c)),
    cmd_flags := of_nat f, exptime := of_nat e, datalen := of_nat d\<rparr>\<rparr>)
    \<and> drop (length bl + length (set_line key f e d)) b = NUL # rest"
proof -
  have "n < 2 ^ 64" if "n < 2 ^ 32" for n :: nat using that by simp
  then have s: "safe_strtoul (Some (dec n)) = Inr (True, of_nat n)" if "n < 2 ^ 32" for n
    using that by (simp add: safe_strtoul_dec)
  obtain b where "ProcessHeader c = header_result (put_buf c (req_at c) b) (words (set_line key f e d))"
    "drop (length bl + length (set_line key f e d)) b = NUL # rest"
    using ProcessHeader_result [OF assms(1-3)] by blast
  then show ?thesis
    using assms(4-9) s by (intro exI [of _ b]) (simp add: words_set_line header_result_def put_buf_def)
qed

text \<open>
  C23: \<open>ProcessHeader\<close> reads back what a client's SET line says: for a key without spaces of at most
  256 characters and three 32-bit numbers printed in decimal, it returns true with the key, its
  length and the three numbers in \<open>cmd\<close>, and changes nothing else but its buffer.
\<close>

theorem ProcessHeader_reads_set_line:
  assumes "header_line c bl (set_line key f e d) rest" "ctype (cmd c) = ACACHED_CMD_SET"
    and "length (cmd_key (cmd c)) = 256" "key \<noteq> []" "SP \<notin> set key" "length key \<le> 256"
    and "f < 2 ^ 32" "e < 2 ^ 32" "d < 2 ^ 32"
  shows "\<exists>b. ProcessHeader c = Inr (True, (put_buf c (req_at c) b)\<lparr>cmd := (cmd c)\<lparr>
    keylen := of_nat (length key), cmd_key := key @ drop (length key) (cmd_key (cmd c)),
    cmd_flags := of_nat f, exptime := of_nat e, datalen := of_nat d\<rparr>\<rparr>)
    \<and> drop (length bl + length (set_line key f e d)) b = NUL # rest"
  by (rule ProcessHeader_set_line [OF assms])

definition set_conn :: aConn where
  "set_conn = fresh_conn\<lparr>cmd := (cmd fresh_conn)\<lparr>ctype := ACACHED_CMD_SET\<rparr>,
     iovReq := (iovReq fresh_conn)\<lparr>
       req_base := (replicate REQ_SIZE None)[0 := Some (set_line ''ab'' 0 0 3 @ NUL # NUL # ''xyz'')],
       req_len := (replicate REQ_SIZE 0)[0 := 18]\<rparr>\<rparr>"

lemma set_conn_header: "header_line set_conn [] (set_line ''ab'' 0 0 3) (NUL # ''xyz'')"
  using no_SP_NUL_dec by (auto simp: header_line_def set_conn_def req_buf_def req_at_def fresh_conn_simps set_line_def)

lemma ProcessHeader_by_words_witness:
  "\<exists>b. ProcessHeader set_conn = header_result (put_buf set_conn (req_at set_conn) b) [''set'', ''ab'', dec 0, dec 0, dec 3]"
proof -
  have "ctype (cmd set_conn) = ACACHED_CMD_SET" "length (cmd_key (cmd set_conn)) = 256"
    by (simp_all add: set_conn_def fresh_conn_simps)
  from ProcessHeader_by_words [OF set_conn_header this] words_set_line [of "''ab''" 0 0 3]
  show ?thesis by auto
qed

lemma ProcessHeader_reads_set_line_witness:
  "\<exists>c. ProcessHeader set_conn = Inr (True, c) \<and> keylen (cmd c) = 2 \<and> datalen (cmd c) = 3"
proof -
  have "length (cmd_key (cmd set_conn)) = 256" by (simp add: set_conn_def fresh_conn_simps)
  from ProcessHeader_reads_set_line [OF set_conn_header _ this] show ?thesis
    by (auto simp: set_conn_def)
qed

end
