(* ===== verification/ConnRecv.thy ===== *)
theory ConnRecv
  imports ConnParse
begin

section \<open>Receiving a command and its body (aConn::ProcessDataRecv)\<close>

text \<open>
  One call of \<open>ProcessDataRecv\<close> makes at most one \<open>read\<close>. The socket is a function \<open>rd\<close> from the size
  asked for to what \<open>read\<close> gives: the bytes, or a return value that is not positive, with \<open>errno\<close>.
  \<open>malloc\<close> is the contents of a new block of a given size.
\<close>

datatype recv = Recv "char list" | RecvFail int int

text \<open>\<open>read\<close> gives between one byte and what was asked for.\<close>

definition recv_ok :: "(nat \<Rightarrow> recv) \<Rightarrow> bool" where
  "recv_ok rd \<longleftrightarrow> (\<forall>n. case rd n of Recv bs \<Rightarrow> 0 < length bs \<and> length bs \<le> n | RecvFail r e \<Rightarrow> r \<le> 0)"

text \<open>\<open>memcpy\<close> or \<open>read\<close> into a buffer.\<close>

definition write_at :: "char list \<Rightarrow> nat \<Rightarrow> char list \<Rightarrow> char list result" where
  "write_at buf off bs = (if length buf < off + length bs then Inl OutOfBounds
     else Inr (take off buf @ bs @ drop (off + length bs) buf))"

definition read_at :: "char list \<Rightarrow> nat \<Rightarrow> nat \<Rightarrow> char list result" where
  "read_at buf off n = (if length buf < off + n then Inl OutOfBounds else Inr (take n (drop off buf)))"

definition size_of_int :: "int \<Rightarrow> nat" where
  "size_of_int i = nat (i mod 2 ^ 64)"

text \<open>Member updates at an index of the request vectors.\<close>

definition upd_req :: "(aConnIovReq \<Rightarrow> aConnIovReq) \<Rightarrow> aConn \<Rightarrow> aConn" where
  "upd_req f c = c\<lparr>iovReq := f (iovReq c)\<rparr>"

definition set_len :: "nat \<Rightarrow> nat \<Rightarrow> aConn \<Rightarrow> aConn" where
  "set_len i n = upd_req (\<lambda>q. q\<lparr>req_len := (req_len q)[i := n]\<rparr>)"

definition set_offset :: "nat \<Rightarrow> u32 \<Rightarrow> aConn \<Rightarrow> aConn" where
  "set_offset i n = upd_req (\<lambda>q. q\<lparr>req_offset := (req_offset q)[i := n]\<rparr>)"

definition set_desc :: "nat \<Rightarrow> nat \<Rightarrow> aConn \<Rightarrow> aConn" where
  "set_desc i b = upd_req (\<lambda>q. q\<lparr>req_desc := (req_desc q)[i := insert b (req_desc q ! i)]\<rparr>)"

definition new_buf :: "(nat \<Rightarrow> char list) \<Rightarrow> nat \<Rightarrow> u32 \<Rightarrow> aConn \<Rightarrow> aConn" where
  "new_buf malloc i n = upd_req (\<lambda>q. q\<lparr>req_alloc := (req_alloc q)[i := n],
     req_base := (req_base q)[i := Some (malloc (unat n))]\<rparr>)"

lemmas upd_defs = upd_req_def set_len_def set_offset_def set_desc_def new_buf_def put_buf_def

lemma upd_req_simps [simp]:
  "cmd (upd_req f c) = cmd c" "dataPendingRead (upd_req f c) = dataPendingRead c"
  "iovReq (upd_req f c) = f (iovReq c)" "conn_state (upd_req f c) = conn_state c"
  by (simp_all add: upd_req_def)

subsection \<open>State cmd_wait\<close>

text \<open>The rest of the \<open>cmd_wait\<close> case once the bytes are in the buffer.\<close>

definition recv_command :: "int \<Rightarrow> aConn \<Rightarrow> (int \<times> aConn) result" where
  "recv_command sent c =
     (let i = req_at c in
      rbind (SetCommandType c) (\<lambda>(ret, c).
      if ret < 0 then Inr (ret, c) else
      rbind (req_buf c i) (\<lambda>buf.
      rbind (IsBufferComplete buf (req_len (iovReq c) ! i)) (\<lambda>(found, buf).
      let c = put_buf c i buf in
      if found \<noteq> 0 then
        (let c = set_desc i REQ_HDR (upd_req (\<lambda>q. q\<lparr>req_indexHdr := req_index q\<rparr>) c) in
         rbind (if ctype (cmd c) = ACACHED_CMD_SET then ProcessHeader (c\<lparr>conn_state := body_wait\<rparr>)
                else (let c = (if ctype (cmd c) = ACACHED_CMD_VERSION
                               then snd (WriteData sent c (''VERSION 1.2alpha'' @ [CR, LF])) else c)
                      in Inr (True, c\<lparr>conn_state := cmd_done\<rparr>))) (\<lambda>(ok, c).
         if \<not> ok then Inr (- 1, c)
         else if found < req_len (iovReq c) ! i
         then Inr (int found, set_offset i (of_nat found) (c\<lparr>dataPendingRead := 1\<rparr>))
         else Inr (int found, c)))
      else Inl AssertFail))))"

definition recv_cmd_wait :: "(nat \<Rightarrow> char list) \<Rightarrow> (nat \<Rightarrow> recv) \<Rightarrow> int \<Rightarrow> aConn \<Rightarrow> (int \<times> aConn) result" where
  "recv_cmd_wait malloc rd sent c =
     (let i = req_at c in
      if length (req_base (iovReq c)) \<le> i then Inl OutOfBounds
      else (let c = new_buf malloc i (of_nat CMD_WAIT_INIT) c in
        case rd CMD_WAIT_INIT of
          RecvFail ret errno \<Rightarrow> Inr (ret, SetErrorErrno c errno)
        | Recv bs \<Rightarrow>
            rbind (write_at (malloc CMD_WAIT_INIT) 0 bs) (\<lambda>buf.
            recv_command sent (set_len i (req_len (iovReq c) ! i + length bs) (put_buf c i buf)))))"

subsection \<open>State body_wait\<close>

text \<open>
  The buffer to fill: where the last partial read left off, or a new one in the next slot. Gives the
  offset to write at, the length still missing (an \<open>int\<close>), the bytes pending in the slot \<open>src\<close> of the
  header, and \<open>src\<close>, which is set in the second case only and only when bytes are pending.
\<close>

definition body_target :: "(nat \<Rightarrow> char list) \<Rightarrow> aConn \<Rightarrow>
    (nat \<times> int \<times> u32 \<times> nat option \<times> aConn) result" where
  "body_target malloc c =
     (let i = req_at c; q = iovReq c in
      if length (req_base q) \<le> i then Inl OutOfBounds
      else if REQ_BODY_PART \<in> req_desc q ! i then
        Inr (unat (req_offset q ! i), sint (datalen (cmd c) + 2 - req_offset q ! i), 0, None, c)
      else
        (let pending = (if dataPendingRead c \<noteq> 0 then of_nat (req_len q ! i) - req_offset q ! i else 0);
             src = (if dataPendingRead c \<noteq> 0 then Some i else None);
             c = upd_req (\<lambda>q. q\<lparr>req_index := req_index q + 1\<rparr>) c
         in if length (req_base q) \<le> Suc i then Inl OutOfBounds
            else Inr (0, sint (datalen (cmd c) + 2), pending, src, new_buf malloc (Suc i) (datalen (cmd c) + 2) c)))"

text \<open>The bytes that came with the header are copied first.\<close>

definition body_pending :: "nat \<Rightarrow> int \<Rightarrow> u32 \<Rightarrow> nat option \<Rightarrow> aConn \<Rightarrow> (nat \<times> int \<times> aConn) result" where
  "body_pending ptr len pending src c =
     (if dataPendingRead c = 0 then Inr (ptr, len, c)
      else (case src of None \<Rightarrow> Inl Uninitialised | Some srcIndex \<Rightarrow>
        (let i = req_at c;
             n = (if word_of_int len \<le> pending then size_of_int len else unat pending);
             (ptr', len') = (if word_of_int len \<le> pending then (ptr, 0)
                             else (ptr + unat pending, sint (word_of_int len - pending))) in
         rbind (req_buf c srcIndex) (\<lambda>sbuf.
         rbind (read_at sbuf (unat (req_offset (iovReq c) ! srcIndex)) n) (\<lambda>bs.
         rbind (req_buf c i) (\<lambda>buf.
         rbind (write_at buf ptr bs) (\<lambda>buf.
         let c = put_buf c i buf in
         if req_alloc (iovReq c) ! i < pending
         then Inr (ptr', len', set_offset srcIndex (of_nat n) (c\<lparr>dataPendingRead := 1\<rparr>))
         else Inr (ptr', len', (set_offset srcIndex 0 (set_len i (req_len (iovReq c) ! i + n) c))
                \<lparr>dataPendingRead := 0\<rparr>))))))))"

text \<open>What is missing is read, and the state set by what has arrived.\<close>

definition body_read :: "(nat \<Rightarrow> recv) \<Rightarrow> nat \<Rightarrow> int \<Rightarrow> aConn \<Rightarrow> (int \<times> bool \<times> aConn) result" where
  "body_read rd ptr len c =
     (let i = req_at c in
      if len = 0 then Inr (0, True, c)
      else (case rd (size_of_int len) of
          RecvFail ret errno \<Rightarrow> Inr (ret, False, SetErrorErrno c errno)
        | Recv bs \<Rightarrow>
            rbind (req_buf c i) (\<lambda>buf.
            rbind (write_at buf ptr bs) (\<lambda>buf.
            Inr (0, True, set_len i (req_len (iovReq c) ! i + length bs) (put_buf c i buf))))))"

definition body_finish :: "aConn \<Rightarrow> int \<times> aConn" where
  "body_finish c =
     (let i = req_at c; q = iovReq c in
      (sint (of_nat (req_len q ! i) :: u32),
       if req_len q ! i < unat (req_alloc q ! i)
       then (set_desc i REQ_BODY_PART (set_offset i (req_offset q ! i + of_nat (req_len q ! i)) c))
              \<lparr>conn_state := body_wait\<rparr>
       else (set_desc i REQ_BODY c)\<lparr>conn_state := cmd_done\<rparr>))"

definition recv_body_wait :: "(nat \<Rightarrow> char list) \<Rightarrow> (nat \<Rightarrow> recv) \<Rightarrow> aConn \<Rightarrow> (int \<times> aConn) result" where
  "recv_body_wait malloc rd c =
     (if 0 < datalen (cmd c) then
        rbind (body_target malloc c) (\<lambda>(ptr, len, pending, src, c).
        rbind (body_pending ptr len pending src c) (\<lambda>(ptr, len, c).
        rbind (body_read rd ptr len c) (\<lambda>(ret, ok, c).
        if ok then Inr (body_finish c) else Inr (ret, c))))
      else Inr (- 1, (SetError c AERR_TOKENIZER_CMD_INVALID_DATALEN)\<lparr>conn_state := cmd_done\<rparr>))"

definition ProcessDataRecv ::
    "(nat \<Rightarrow> char list) \<Rightarrow> (nat \<Rightarrow> recv) \<Rightarrow> int \<Rightarrow> aConn \<Rightarrow> (int \<times> aConn) result" where
  "ProcessDataRecv malloc rd sent c =
     (case conn_state c of
        cmd_wait \<Rightarrow> recv_cmd_wait malloc rd sent c
      | body_wait \<Rightarrow> recv_body_wait malloc rd c
      | hdr_wait \<Rightarrow> Inl AssertFail
      | cmd_done \<Rightarrow> Inl AssertFail)"

subsection \<open>The first read of a body\<close>

lemma req_at_index: "req_index (iovReq c) = of_nat i \<Longrightarrow> i < REQ_SIZE \<Longrightarrow> req_at c = i"
  by (simp add: req_at_def unat_of_nat_small)

lemma req_index_at: "req_index (iovReq c) = of_nat (req_at c)"
  by (simp add: req_at_def)

text \<open>
  A connection that waits for the body of a SET, with nothing of it stored: \<open>n\<close> is what must arrive
  (the data and CR LF), \<open>pend\<close> what came with the header.
\<close>

definition body_due :: "aConn \<Rightarrow> nat \<Rightarrow> char list \<Rightarrow> bool" where
  "body_due c n pend \<longleftrightarrow> conn_ok c \<and> conn_state c = body_wait \<and> 0 < datalen (cmd c)
     \<and> n = unat (datalen (cmd c)) + 2 \<and> n < 2 ^ 31 \<and> Suc (req_at c) < REQ_SIZE
     \<and> REQ_BODY_PART \<notin> req_desc (iovReq c) ! req_at c \<and> req_len (iovReq c) ! Suc (req_at c) = 0
     \<and> (if dataPendingRead c = 0 then pend = []
        else \<exists>buf. req_buf c (req_at c) = Inr buf \<and> req_len (iovReq c) ! req_at c \<le> length buf
          \<and> req_len (iovReq c) ! req_at c < 2 ^ 31
          \<and> unat (req_offset (iovReq c) ! req_at c) \<le> req_len (iovReq c) ! req_at c
          \<and> pend = take (req_len (iovReq c) ! req_at c - unat (req_offset (iovReq c) ! req_at c))
              (drop (unat (req_offset (iovReq c) ! req_at c)) buf))"

text \<open>The connection with the next slot opened.\<close>

definition opened :: "(nat \<Rightarrow> char list) \<Rightarrow> aConn \<Rightarrow> aConn" where
  "opened malloc c = new_buf malloc (Suc (req_at c)) (datalen (cmd c) + 2)
     (upd_req (\<lambda>q. q\<lparr>req_index := req_index q + 1\<rparr>) c)"

lemma opened_simps:
  "Suc (req_at c) < REQ_SIZE \<Longrightarrow> req_at (opened malloc c) = Suc (req_at c)"
  "cmd (opened malloc c) = cmd c" "dataPendingRead (opened malloc c) = dataPendingRead c"
  "req_len (iovReq (opened malloc c)) = req_len (iovReq c)"
  "req_offset (iovReq (opened malloc c)) = req_offset (iovReq c)"
  "req_desc (iovReq (opened malloc c)) = req_desc (iovReq c)"
  "req_alloc (iovReq (opened malloc c)) = (req_alloc (iovReq c))[Suc (req_at c) := datalen (cmd c) + 2]"
  "req_base (iovReq (opened malloc c)) =
     (req_base (iovReq c))[Suc (req_at c) := Some (malloc (unat (datalen (cmd c) + 2)))]"
proof -
  assume a: "Suc (req_at c) < REQ_SIZE"
  have "req_index (iovReq (opened malloc c)) = of_nat (Suc (req_at c))"
    by (simp add: opened_def upd_defs req_index_at)
  then show "req_at (opened malloc c) = Suc (req_at c)" using a by (rule req_at_index)
qed (simp_all add: opened_def upd_defs)

lemma body_target_due:
  assumes "body_due c n pend"
  shows "\<exists>src. body_target malloc c = Inr (0, int n, of_nat (length pend), src, opened malloc c)
    \<and> (dataPendingRead c \<noteq> 0 \<longrightarrow> src = Some (req_at c))"
proof -
  have d: "unat (datalen (cmd c) + 2) = n" and n: "n < 2 ^ 31"
    using assms unat_plus_small [of "datalen (cmd c)" 2] by (auto simp: body_due_def)
  have sd: "sint (datalen (cmd c) + 2) = int n" using sint_small [of "datalen (cmd c) + 2"] d n by simp
  have p: "(if dataPendingRead c \<noteq> 0
       then of_nat (req_len (iovReq c) ! req_at c) - req_offset (iovReq c) ! req_at c else 0) =
      (of_nat (length pend) :: u32)"
  proof (cases "dataPendingRead c = 0")
    case False
    then obtain buf where b: "req_len (iovReq c) ! req_at c \<le> length buf"
      "unat (req_offset (iovReq c) ! req_at c) \<le> req_len (iovReq c) ! req_at c"
      "pend = take (req_len (iovReq c) ! req_at c - unat (req_offset (iovReq c) ! req_at c))
              (drop (unat (req_offset (iovReq c) ! req_at c)) buf)"
      using assms by (auto simp: body_due_def)
    then have "length pend = req_len (iovReq c) ! req_at c - unat (req_offset (iovReq c) ! req_at c)"
      by simp
    with b(2) False show ?thesis by (simp add: of_nat_diff)
  qed (use assms in \<open>simp add: body_due_def\<close>)
  have "Suc (req_at c) < REQ_SIZE" "length (req_base (iovReq c)) = REQ_SIZE"
    "REQ_BODY_PART \<notin> req_desc (iovReq c) ! req_at c"
    using assms by (simp_all add: body_due_def conn_ok_def)
  then show ?thesis using sd unfolding body_target_def Let_def p
    by (simp add: opened_def)
qed

text \<open>The current slot has a buffer of \<open>n\<close> bytes, of which \<open>bs\<close> have arrived.\<close>

definition storing :: "aConn \<Rightarrow> nat \<Rightarrow> char list \<Rightarrow> bool" where
  "storing c n bs \<longleftrightarrow> req_at c < REQ_SIZE \<and> length (req_base (iovReq c)) = REQ_SIZE
     \<and> length (req_len (iovReq c)) = REQ_SIZE \<and> length (req_desc (iovReq c)) = REQ_SIZE
     \<and> length (req_offset (iovReq c)) = REQ_SIZE
     \<and> (\<exists>buf. req_buf c (req_at c) = Inr buf \<and> length buf = n \<and> take (length bs) buf = bs)
     \<and> req_len (iovReq c) ! req_at c = length bs \<and> length bs \<le> n
     \<and> unat (req_alloc (iovReq c) ! req_at c) = n \<and> n < 2 ^ 31 \<and> dataPendingRead c = 0"

lemma write_at_end:
  "take (length bs) buf = bs \<Longrightarrow> length bs + length new \<le> length buf \<Longrightarrow>
    write_at buf (length bs) new = Inr (bs @ new @ drop (length bs + length new) buf)"
  by (simp add: write_at_def)

lemma size_of_int_nat: "n < 2 ^ 64 \<Longrightarrow> size_of_int (int n) = n"
  by (simp add: size_of_int_def)

lemma req_buf_put: "i < length (req_base (iovReq c)) \<Longrightarrow> req_buf (put_buf c i b) i = Inr b"
  by (simp add: req_buf_def put_buf_def)

lemma req_buf_upd_len: "req_buf (set_len i n c) j = req_buf c j" "req_buf (set_offset i v c) j = req_buf c j"
  "req_buf (set_desc i b c) j = req_buf c j" "req_at (set_len i n c) = req_at c"
  "req_at (set_offset i v c) = req_at c" "req_at (set_desc i b c) = req_at c" "req_at (put_buf c i bf) = req_at c"
  by (simp_all add: req_buf_def req_at_def upd_defs)

lemma body_read_storing:
  assumes "storing c n bs" "length bs < n" "rd (n - length bs) = Recv new" "length new \<le> n - length bs"
  shows "\<exists>c'. body_read rd (length bs) (int (n - length bs)) c = Inr (0, True, c') \<and> storing c' n (bs @ new)
    \<and> req_at c' = req_at c \<and> req_desc (iovReq c') = req_desc (iovReq c)
    \<and> req_offset (iovReq c') = req_offset (iovReq c) \<and> cmd c' = cmd c"
proof -
  obtain buf where b: "req_buf c (req_at c) = Inr buf" "length buf = n" "take (length bs) buf = bs"
    using assms(1) by (auto simp: storing_def)
  have sz: "size_of_int (int (n - length bs)) = n - length bs"
    using assms(1) by (intro size_of_int_nat less_imp_diff_less) (simp add: storing_def)
  let ?b = "bs @ new @ drop (length bs + length new) buf"
  let ?c = "set_len (req_at c) (length bs + length new) (put_buf c (req_at c) ?b)"
  have "body_read rd (length bs) (int (n - length bs)) c = Inr (0, True, ?c)"
    using assms b write_at_end [of bs buf new] unfolding body_read_def sz
    by (simp add: Let_def storing_def)
  moreover have "storing ?c n (bs @ new)"
    using assms b by (auto simp: storing_def req_buf_upd_len req_buf_put) (auto simp: upd_defs)
  moreover have "req_at ?c = req_at c" by (simp add: req_buf_upd_len)
  ultimately show ?thesis by (intro exI [of _ ?c]) (simp add: upd_defs)
qed

lemma storing_upd:
  "storing (set_desc i b c) n bs = storing c n bs" "storing (set_offset i v c) n bs = storing c n bs"
  "storing (c\<lparr>conn_state := st\<rparr>) n bs = storing c n bs"
proof -
  show "storing (set_desc i b c) n bs = storing c n bs"
    by (simp only: storing_def req_buf_upd_len) (simp add: set_desc_def)
  show "storing (set_offset i v c) n bs = storing c n bs"
    by (simp only: storing_def req_buf_upd_len) (simp add: set_offset_def)
  show "storing (c\<lparr>conn_state := st\<rparr>) n bs = storing c n bs"
    by (simp add: storing_def req_buf_def req_at_def)
qed

lemma req_at_state [simp]: "req_at (c\<lparr>conn_state := st\<rparr>) = req_at c"
  by (simp add: req_at_def)

lemma body_finish_storing:
  assumes "storing c n bs"
  shows "\<exists>c'. body_finish c = (int (length bs), c') \<and> storing c' n bs \<and> req_at c' = req_at c
    \<and> cmd c' = cmd c \<and> conn_state c' = (if length bs < n then body_wait else cmd_done)
    \<and> (length bs < n \<longrightarrow> REQ_BODY_PART \<in> req_desc (iovReq c') ! req_at c'
        \<and> req_offset (iovReq c') ! req_at c' = req_offset (iovReq c) ! req_at c + of_nat (length bs))"
proof -
  have l: "length bs < 2 ^ 31" and f: "req_len (iovReq c) ! req_at c = length bs"
    "unat (req_alloc (iovReq c) ! req_at c) = n" "req_at c < length (req_desc (iovReq c))"
    "req_at c < length (req_offset (iovReq c))"
    using assms by (simp_all add: storing_def)
  have s: "sint (of_nat (length bs) :: u32) = int (length bs)"
    using l sint_small [of "of_nat (length bs)"] unat_of_nat_small [of "length bs"] by simp
  let ?p = "(set_desc (req_at c) REQ_BODY_PART (set_offset (req_at c)
      (req_offset (iovReq c) ! req_at c + of_nat (length bs)) c))\<lparr>conn_state := body_wait\<rparr>"
  let ?d = "(set_desc (req_at c) REQ_BODY c)\<lparr>conn_state := cmd_done\<rparr>"
  let ?c = "if length bs < n then ?p else ?d"
  have "body_finish c = (int (length bs), ?c)"
    by (simp add: body_finish_def Let_def f s)
  moreover have "storing ?c n bs" using assms by (simp add: storing_upd)
  moreover have "req_at ?c = req_at c" by (simp add: req_buf_upd_len)
  moreover have "cmd ?c = cmd c" by (simp add: set_desc_def set_offset_def)
  moreover have "length bs < n \<longrightarrow> REQ_BODY_PART \<in> req_desc (iovReq ?c) ! req_at ?c
      \<and> req_offset (iovReq ?c) ! req_at ?c = req_offset (iovReq c) ! req_at c + of_nat (length bs)"
    using f by (simp add: req_buf_upd_len) (simp add: set_desc_def set_offset_def)
  moreover have "conn_state ?c = (if length bs < n then body_wait else cmd_done)" by simp
  ultimately show ?thesis by blast
qed

lemma body_pending_due:
  assumes due: "body_due c n pend" and m: "\<And>k. length (malloc k) = k" and "length pend \<le> n"
    and src: "dataPendingRead c \<noteq> 0 \<longrightarrow> src = Some (req_at c)"
  shows "\<exists>c'. body_pending 0 (int n) (of_nat (length pend)) src (opened malloc c) =
      Inr (if length pend = n then 0 else length pend, int (n - length pend), c')
    \<and> storing c' n pend \<and> req_at c' = Suc (req_at c) \<and> cmd c' = cmd c
    \<and> req_desc (iovReq c') = req_desc (iovReq c)
    \<and> req_offset (iovReq c') ! Suc (req_at c) = req_offset (iovReq c) ! Suc (req_at c)
    \<and> conn_ok c' \<and> conn_state c' = body_wait
    \<and> (\<forall>j. j \<noteq> Suc (req_at c) \<longrightarrow> req_len (iovReq c') ! j = req_len (iovReq c) ! j)"
proof -
  let ?c = "opened malloc c" and ?i = "req_at c"
  have i: "Suc ?i < REQ_SIZE" and n: "n < 2 ^ 31" and d: "unat (datalen (cmd c) + 2) = n" and n0: "0 < n"
    using due unat_plus_small [of "datalen (cmd c)" 2] by (auto simp: body_due_def)
  have lens: "length (req_base (iovReq c)) = REQ_SIZE" "length (req_len (iovReq c)) = REQ_SIZE"
    "length (req_desc (iovReq c)) = REQ_SIZE" "length (req_offset (iovReq c)) = REQ_SIZE"
    "length (req_alloc (iovReq c)) = REQ_SIZE" "req_len (iovReq c) ! Suc ?i = 0"
    and ok: "conn_ok c" "conn_state c = body_wait"
    using due by (simp_all add: body_due_def conn_ok_def)
  note o = opened_simps(1) [OF i, of malloc] opened_simps(2-8) [of malloc c]
  have nb: "req_buf ?c (Suc ?i) = Inr (malloc n)" using i lens(1) by (simp add: req_buf_def o d)
  show ?thesis
  proof (cases "dataPendingRead c = 0")
    case True
    then have "pend = []" using due by (simp add: body_due_def)
    moreover have "storing ?c n []"
      using True i n lens nb d m by (auto simp: storing_def o)
    moreover have "body_pending 0 (int n) 0 src ?c = Inr (0, int n, ?c)"
      using True by (simp add: body_pending_def o)
    moreover have "conn_ok ?c" "conn_state ?c = body_wait"
      using ok by (simp_all add: conn_ok_def opened_def upd_defs)
    ultimately show ?thesis using n0 by (intro exI [of _ ?c]) (simp add: o)
  next
    case False
    then obtain buf where b: "req_buf c ?i = Inr buf" "req_len (iovReq c) ! ?i \<le> length buf"
      "unat (req_offset (iovReq c) ! ?i) \<le> req_len (iovReq c) ! ?i"
      "pend = take (req_len (iovReq c) ! ?i - unat (req_offset (iovReq c) ! ?i))
              (drop (unat (req_offset (iovReq c) ! ?i)) buf)"
      using due by (auto simp: body_due_def)
    have pl: "length pend = req_len (iovReq c) ! ?i - unat (req_offset (iovReq c) ! ?i)"
      using b(2,4) by simp
    have rd: "read_at buf (unat (req_offset (iovReq c) ! ?i)) (length pend) = Inr pend"
      using b(2-4) pl by (simp add: read_at_def)
    have sb: "req_buf ?c ?i = Inr buf" using b(1) i lens(1) by (simp add: req_buf_def o)
    have l32: "n < 2 ^ 32" "length pend < 2 ^ 32" using n assms(3) by auto
    have le: "(of_nat n \<le> (of_nat (length pend) :: u32)) \<longleftrightarrow> length pend = n"
      using word_le_of_nat [OF l32] assms(3) by auto
    have sz: "(if length pend = n then size_of_int (int n) else unat (of_nat (length pend) :: u32)) = length pend"
      using l32 n by (simp add: unat_of_nat_small size_of_int_nat)
    have al: "\<not> datalen (cmd c) + 2 < of_nat (length pend)"
      using assms(3) d l32 by (simp add: word_less_nat_alt unat_of_nat_small not_less)
    have w: "write_at (malloc n) 0 pend = Inr (pend @ drop (length pend) (malloc n))"
      using assms(3) m by (simp add: write_at_def)
    have df: "sint (of_nat n - of_nat (length pend) :: u32) = int (n - length pend)"
    proof -
      have "(of_nat n - of_nat (length pend) :: u32) = of_nat (n - length pend)"
        using assms(3) by (simp add: of_nat_diff)
      moreover have "unat (of_nat (n - length pend) :: u32) = n - length pend"
        by (rule unat_of_nat_small) (use l32 in simp)
      ultimately show ?thesis using sint_small [of "of_nat (n - length pend)"] n by simp
    qed
    let ?c1 = "put_buf ?c (Suc ?i) (pend @ drop (length pend) (malloc n))"
    let ?c2 = "(set_offset ?i 0 (set_len (Suc ?i) (length pend) ?c1))\<lparr>dataPendingRead := 0\<rparr>"
    have a1: "req_alloc (iovReq ?c1) ! Suc ?i = datalen (cmd c) + 2" "req_len (iovReq ?c1) ! Suc ?i = 0"
      using i lens by (simp_all add: put_buf_def o)
    have run: "body_pending 0 (int n) (of_nat (length pend)) src ?c =
      Inr (if length pend = n then 0 else length pend, int (n - length pend), ?c2)"
      using False src sb nb rd w al df le sz a1 unat_of_nat_small [OF l32(2)]
      by (simp add: body_pending_def Let_def o word_of_int_nat)
    have "storing ?c2 n pend"
    proof -
      have "req_buf ?c2 (Suc ?i) = Inr (pend @ drop (length pend) (malloc n))"
        using i lens(1) by (simp add: req_buf_def upd_defs o)
      moreover have "req_at ?c2 = Suc ?i" using o(1) by (simp add: req_at_def upd_defs)
      moreover have "length (req_base (iovReq ?c2)) = REQ_SIZE" "length (req_len (iovReq ?c2)) = REQ_SIZE"
        "length (req_desc (iovReq ?c2)) = REQ_SIZE" "length (req_offset (iovReq ?c2)) = REQ_SIZE"
        "req_len (iovReq ?c2) ! Suc ?i = length pend" "req_alloc (iovReq ?c2) ! Suc ?i = datalen (cmd c) + 2"
        using i lens by (simp_all add: upd_defs o)
      ultimately show ?thesis using i n d assms(3) m by (simp add: storing_def)
    qed
    moreover have "req_at ?c2 = Suc ?i" using o(1) by (simp add: req_at_def upd_defs)
    moreover have "cmd ?c2 = cmd c" "req_desc (iovReq ?c2) = req_desc (iovReq c)"
      "req_offset (iovReq ?c2) ! Suc ?i = req_offset (iovReq c) ! Suc ?i"
      by (simp_all add: upd_defs o)
    moreover have "conn_ok ?c2" "conn_state ?c2 = body_wait"
      using ok by (simp_all add: conn_ok_def opened_def upd_defs)
    moreover have "\<forall>j. j \<noteq> Suc ?i \<longrightarrow> req_len (iovReq ?c2) ! j = req_len (iovReq c) ! j"
      by (simp add: upd_defs o)
    ultimately show ?thesis using run by blast
  qed
qed

lemma body_first_read:
  assumes due: "body_due c n pend" and m: "\<And>k. length (malloc k) = k" and le: "length pend \<le> n"
    and rd: "if length pend = n then bs = [] else rd (n - length pend) = Recv bs \<and> length bs \<le> n - length pend"
  shows "\<exists>c'. ProcessDataRecv malloc rd sent c = Inr (int (length (pend @ bs)), c')
    \<and> storing c' n (pend @ bs) \<and> req_at c' = Suc (req_at c) \<and> cmd c' = cmd c
    \<and> conn_state c' = (if length (pend @ bs) < n then body_wait else cmd_done)
    \<and> (length (pend @ bs) < n \<longrightarrow> REQ_BODY_PART \<in> req_desc (iovReq c') ! req_at c'
        \<and> req_offset (iovReq c') ! req_at c' =
            req_offset (iovReq c) ! Suc (req_at c) + of_nat (length (pend @ bs)))"
proof -
  have st: "conn_state c = body_wait" "0 < datalen (cmd c)" using due by (simp_all add: body_due_def)
  obtain src where t: "body_target malloc c = Inr (0, int n, of_nat (length pend), src, opened malloc c)"
    "dataPendingRead c \<noteq> 0 \<longrightarrow> src = Some (req_at c)"
    using body_target_due [OF due] by blast
  obtain c1 where c1: "body_pending 0 (int n) (of_nat (length pend)) src (opened malloc c) =
      Inr (if length pend = n then 0 else length pend, int (n - length pend), c1)"
    "storing c1 n pend" "req_at c1 = Suc (req_at c)" "cmd c1 = cmd c"
    "req_desc (iovReq c1) = req_desc (iovReq c)"
    "req_offset (iovReq c1) ! Suc (req_at c) = req_offset (iovReq c) ! Suc (req_at c)"
    using body_pending_due [OF due m le t(2)] by blast
  obtain c2 where c2: "body_read rd (if length pend = n then 0 else length pend) (int (n - length pend)) c1 =
      Inr (0, True, c2)" "storing c2 n (pend @ bs)" "req_at c2 = req_at c1"
      "req_offset (iovReq c2) = req_offset (iovReq c1)" "cmd c2 = cmd c1"
  proof (cases "length pend = n")
    case True
    with rd c1(2) show ?thesis by (intro that [of c1]) (simp_all add: body_read_def Let_def)
  next
    case False
    with body_read_storing [OF c1(2), of rd bs] rd le show ?thesis by (auto intro: that)
  qed
  from body_finish_storing [OF c2(2)] obtain c3 where c3: "body_finish c2 = (int (length (pend @ bs)), c3)"
    "storing c3 n (pend @ bs)" "req_at c3 = req_at c2" "cmd c3 = cmd c2"
    "conn_state c3 = (if length (pend @ bs) < n then body_wait else cmd_done)"
    "length (pend @ bs) < n \<longrightarrow> REQ_BODY_PART \<in> req_desc (iovReq c3) ! req_at c3
      \<and> req_offset (iovReq c3) ! req_at c3 = req_offset (iovReq c2) ! req_at c2 + of_nat (length (pend @ bs))"
    by blast
  have "ProcessDataRecv malloc rd sent c = Inr (int (length (pend @ bs)), c3)"
    using st t(1) c1(1) c2(1) c3(1) by (simp add: ProcessDataRecv_def recv_body_wait_def)
  with c1 c2 c3 show ?thesis by auto
qed

lemma body_first_read_fails:
  assumes due: "body_due c n pend" and m: "\<And>k. length (malloc k) = k" and lt: "length pend < n"
    and rd: "rd (n - length pend) = RecvFail r e"
  shows "\<exists>c'. ProcessDataRecv malloc rd sent c = Inr (r, SetErrorErrno c' e) \<and> storing c' n pend
    \<and> req_at c' = Suc (req_at c) \<and> cmd c' = cmd c \<and> req_desc (iovReq c') = req_desc (iovReq c)
    \<and> conn_ok c' \<and> conn_state c' = body_wait
    \<and> (\<forall>j. j \<noteq> Suc (req_at c) \<longrightarrow> req_len (iovReq c') ! j = req_len (iovReq c) ! j)"
proof -
  have st: "conn_state c = body_wait" "0 < datalen (cmd c)" using due by (simp_all add: body_due_def)
  obtain src where t: "body_target malloc c = Inr (0, int n, of_nat (length pend), src, opened malloc c)"
    "dataPendingRead c \<noteq> 0 \<longrightarrow> src = Some (req_at c)"
    using body_target_due [OF due] by blast
  obtain c1 where c1: "body_pending 0 (int n) (of_nat (length pend)) src (opened malloc c) =
      Inr (length pend, int (n - length pend), c1)"
    "storing c1 n pend" "req_at c1 = Suc (req_at c)" "cmd c1 = cmd c"
    "req_desc (iovReq c1) = req_desc (iovReq c)" "conn_ok c1" "conn_state c1 = body_wait"
    "\<forall>j. j \<noteq> Suc (req_at c) \<longrightarrow> req_len (iovReq c1) ! j = req_len (iovReq c) ! j"
    using body_pending_due [OF due m less_imp_le [OF lt] t(2)] lt by auto
  have "size_of_int (int (n - length pend)) = n - length pend"
    using due by (intro size_of_int_nat less_imp_diff_less) (simp add: body_due_def)
  with lt rd have "body_read rd (length pend) (int (n - length pend)) c1 = Inr (r, False, SetErrorErrno c1 e)"
    by (simp add: body_read_def Let_def)
  with st t(1) c1 show ?thesis by (auto simp: ProcessDataRecv_def recv_body_wait_def)
qed

subsection \<open>Later reads\<close>

text \<open>A read that continues a partial body writes at the recorded offset.\<close>

lemma body_next_read:
  assumes st: "storing c n bs" "conn_state c = body_wait" "0 < datalen (cmd c)"
    "n = unat (datalen (cmd c)) + 2" "REQ_BODY_PART \<in> req_desc (iovReq c) ! req_at c"
    and off: "req_offset (iovReq c) ! req_at c = of_nat (length bs)" "length bs < n"
    and rd: "rd (n - length bs) = Recv new" "length new \<le> n - length bs"
  shows "\<exists>c'. ProcessDataRecv malloc rd sent c = Inr (int (length (bs @ new)), c') \<and> storing c' n (bs @ new)
    \<and> req_at c' = req_at c \<and> conn_state c' = (if length (bs @ new) < n then body_wait else cmd_done)
    \<and> (length (bs @ new) < n \<longrightarrow> req_offset (iovReq c') ! req_at c' = of_nat (length bs + length (bs @ new)))"
proof -
  have n: "n < 2 ^ 31" "req_at c < REQ_SIZE" "length (req_base (iovReq c)) = REQ_SIZE" "dataPendingRead c = 0"
    using st(1) by (simp_all add: storing_def)
  have l: "length bs < 2 ^ 32" using off(2) n(1) by simp
  have "datalen (cmd c) + 2 - of_nat (length bs) = (of_nat (n - length bs) :: u32)"
    using st(4) off(2) by (simp add: of_nat_diff)
  moreover have "unat (of_nat (n - length bs) :: u32) = n - length bs"
    by (rule unat_of_nat_small) (use n(1) in simp)
  ultimately have "sint (datalen (cmd c) + 2 - of_nat (length bs)) = int (n - length bs)"
    using sint_small [of "of_nat (n - length bs)"] n(1) by simp
  then have t: "body_target malloc c = Inr (length bs, int (n - length bs), 0, None, c)"
    using st(5) n off(1) l by (simp add: body_target_def Let_def unat_of_nat_small)
  obtain c2 where c2: "body_read rd (length bs) (int (n - length bs)) c = Inr (0, True, c2)"
    "storing c2 n (bs @ new)" "req_at c2 = req_at c" "req_offset (iovReq c2) = req_offset (iovReq c)"
    using body_read_storing [OF st(1) off(2), of rd new] rd by blast
  from body_finish_storing [OF c2(2)] obtain c3 where c3: "body_finish c2 = (int (length (bs @ new)), c3)"
    "storing c3 n (bs @ new)" "req_at c3 = req_at c2"
    "conn_state c3 = (if length (bs @ new) < n then body_wait else cmd_done)"
    "length (bs @ new) < n \<longrightarrow>
      req_offset (iovReq c3) ! req_at c3 = req_offset (iovReq c2) ! req_at c2 + of_nat (length (bs @ new))"
    by blast
  have "ProcessDataRecv malloc rd sent c = Inr (int (length (bs @ new)), c3)"
    using st(2,3) t c2(1) c3(1) n(4) by (simp add: ProcessDataRecv_def recv_body_wait_def body_pending_def)
  with c2 c3 off(1) show ?thesis by auto
qed

subsection \<open>More than the body came with the header\<close>

lemma body_pipelined:
  assumes due: "body_due c n pend" and m: "\<And>k. length (malloc k) = k" and gt: "n < length pend"
  shows "\<exists>c'. ProcessDataRecv malloc rd sent c = Inr (0, c') \<and> conn_state c' = body_wait
    \<and> dataPendingRead c' = 1 \<and> ProcessDataRecv malloc rd' sent' c' = Inl Uninitialised"
proof -
  let ?c = "opened malloc c" and ?i = "req_at c"
  have st: "conn_state c = body_wait" "0 < datalen (cmd c)" using due by (simp_all add: body_due_def)
  have i: "Suc ?i < REQ_SIZE" and n: "n < 2 ^ 31" and d: "unat (datalen (cmd c) + 2) = n" and n0: "0 < n"
    using due unat_plus_small [of "datalen (cmd c)" 2] by (auto simp: body_due_def)
  have lens: "length (req_base (iovReq c)) = REQ_SIZE" "length (req_len (iovReq c)) = REQ_SIZE"
    "length (req_desc (iovReq c)) = REQ_SIZE" "length (req_offset (iovReq c)) = REQ_SIZE"
    "length (req_alloc (iovReq c)) = REQ_SIZE" "req_len (iovReq c) ! Suc ?i = 0"
    using due by (simp_all add: body_due_def conn_ok_def)
  note o = opened_simps(1) [OF i, of malloc] opened_simps(2-8) [of malloc c]
  have p: "dataPendingRead c \<noteq> 0" using due gt by (auto simp: body_due_def split: if_splits)
  obtain src where t: "body_target malloc c = Inr (0, int n, of_nat (length pend), src, ?c)" "src = Some ?i"
    using body_target_due [OF due, of malloc] p by blast
  obtain buf where b: "req_buf c ?i = Inr buf" "req_len (iovReq c) ! ?i \<le> length buf"
      "req_len (iovReq c) ! ?i < 2 ^ 31"
      "unat (req_offset (iovReq c) ! ?i) \<le> req_len (iovReq c) ! ?i"
      "pend = take (req_len (iovReq c) ! ?i - unat (req_offset (iovReq c) ! ?i))
              (drop (unat (req_offset (iovReq c) ! ?i)) buf)"
    using due p by (auto simp: body_due_def)
  have pl: "length pend = req_len (iovReq c) ! ?i - unat (req_offset (iovReq c) ! ?i)"
    using b(2,5) by simp
  have l32: "n < 2 ^ 32" "length pend < 2 ^ 32" using n b(3) pl by auto
  have nb: "req_buf ?c (Suc ?i) = Inr (malloc n)" using i lens(1) by (simp add: req_buf_def o d)
  have sb: "req_buf ?c ?i = Inr buf" using b(1) i lens(1) by (simp add: req_buf_def o)
  have rd: "read_at buf (unat (req_offset (iovReq c) ! ?i)) n = Inr (take n pend)"
    using b(2,4,5) pl gt by (simp add: read_at_def)
  have w: "write_at (malloc n) 0 (take n pend) = Inr (take n pend)"
    using gt m by (simp add: write_at_def)
  have le: "of_nat n \<le> (of_nat (length pend) :: u32)" using word_le_of_nat [OF l32] gt by simp
  have al: "datalen (cmd c) + 2 < of_nat (length pend)"
    using gt d l32 by (simp add: word_less_nat_alt unat_of_nat_small)
  let ?c1 = "put_buf ?c (Suc ?i) (take n pend)"
  let ?c2 = "set_offset ?i (of_nat n) (?c1\<lparr>dataPendingRead := 1\<rparr>)"
  have a1: "req_alloc (iovReq ?c1) ! Suc ?i = datalen (cmd c) + 2"
    using i lens by (simp add: put_buf_def o)
  have pend: "body_pending 0 (int n) (of_nat (length pend)) src ?c = Inr (0, 0, ?c2)"
    using p t(2) sb nb rd w al le a1 n
    by (simp add: body_pending_def Let_def o word_of_int_nat size_of_int_nat)
  have at2: "req_at ?c2 = Suc ?i" using o(1) by (simp add: req_at_def upd_defs)
  have f2: "req_len (iovReq ?c2) ! Suc ?i = 0" "req_alloc (iovReq ?c2) ! Suc ?i = datalen (cmd c) + 2"
    "Suc ?i < length (req_desc (iovReq ?c2))" "length (req_base (iovReq ?c2)) = REQ_SIZE" "cmd ?c2 = cmd c"
    "dataPendingRead ?c2 = 1"
    using i lens by (simp_all add: upd_defs o)
  let ?c3 = "(set_desc (Suc ?i) REQ_BODY_PART (set_offset (Suc ?i)
     (req_offset (iovReq ?c2) ! Suc ?i) ?c2))\<lparr>conn_state := body_wait\<rparr>"
  have fin: "body_finish ?c2 = (0, ?c3)"
    using f2 d n0 unfolding body_finish_def Let_def at2 by simp
  have first: "ProcessDataRecv malloc rd sent c = Inr (0, ?c3)" for rd
    using st t(1) pend fin by (simp add: ProcessDataRecv_def recv_body_wait_def body_read_def Let_def)
  have at3: "req_at ?c3 = Suc ?i" using at2 by (simp add: req_at_def upd_defs)
  have f3: "REQ_BODY_PART \<in> req_desc (iovReq ?c3) ! Suc ?i" "dataPendingRead ?c3 = 1"
    "length (req_base (iovReq ?c3)) = REQ_SIZE" "cmd ?c3 = cmd c" "conn_state ?c3 = body_wait"
    using f2 by (simp_all add: set_desc_def set_offset_def)
  have "ProcessDataRecv malloc rd' sent' ?c3 = Inl Uninitialised"
    using st(2) i f3 unfolding ProcessDataRecv_def recv_body_wait_def body_target_def at3 Let_def
    by (simp add: body_pending_def)
  with first f3 show ?thesis by blast
qed

subsection \<open>A SET command arrives\<close>

lemma set_line_starts: "starts (set_line key f e d @ rest) ''set'' = Inr True"
  by (simp add: starts_def set_line_def)

lemma no_CR_dec: "CR \<notin> set (dec n)"
  using all_digits_dec [of n] by (auto simp: all_digits_def digit_val_def)

lemma CR_set_line: "CR \<notin> set key \<Longrightarrow> CR \<notin> set (set_line key f e d)"
  by (simp add: set_line_def no_CR_dec)

lemma NUL_set_line: "NUL \<notin> set key \<Longrightarrow> NUL \<notin> set (set_line key f e d)"
  by (simp add: set_line_def no_SP_NUL_dec)

lemma length_set_line: "5 < length (set_line key f e d) + 2"
  by (simp add: set_line_def)

lemma hd_set_line: "set_line key f e d \<noteq> []" "hd (set_line key f e d) = CHR ''s''"
  by (simp_all add: set_line_def)

lemma SetCommandType_set:
  assumes "req_buf c (req_at c) = Inr (set_line key f e d @ rest)" "5 < req_len (iovReq c) ! req_at c"
  shows "SetCommandType c = Inr (cmd_code ACACHED_CMD_SET, c\<lparr>cmd := (cmd c)\<lparr>ctype := ACACHED_CMD_SET\<rparr>\<rparr>)"
proof -
  have "skip_blanks (set_line key f e d @ rest) n = Inr (set_line key f e d @ rest, n)" for n
    by (simp add: set_line_def)
  with assms set_line_starts show ?thesis
    by (simp add: SetCommandType_def command_of_def)
qed

text \<open>A connection that waits for a command, with nothing pending in its first two slots.\<close>

definition idle :: "aConn \<Rightarrow> bool" where
  "idle c \<longleftrightarrow> conn_ok c \<and> conn_state c = cmd_wait \<and> req_index (iovReq c) = 0
     \<and> req_len (iovReq c) ! 0 = 0 \<and> req_len (iovReq c) ! 1 = 0
     \<and> REQ_BODY_PART \<notin> req_desc (iovReq c) ! 0 \<and> dataPendingRead c = 0"

lemma Reset_idle: "conn_ok c \<Longrightarrow> dataPendingRead c = 0 \<Longrightarrow> idle (aConn_Reset c)"
  by (simp add: idle_def Reset_ok) (simp add: aConn_Reset_def nth_append)

lemma recv_set_command:
  assumes idle: "idle c" and m: "\<And>k. length (malloc k) = k"
    and key: "key \<noteq> []" "SP \<notin> set key" "CR \<notin> set key" "NUL \<notin> set key" "length key \<le> 256"
    and nums: "f < 2 ^ 32" "e < 2 ^ 32" "0 < d" "d + 2 < 2 ^ 31"
    and rd: "rd CMD_WAIT_INIT = Recv (set_line key f e d @ CR # LF # body)"
      "length (set_line key f e d @ CR # LF # body) \<le> CMD_WAIT_INIT"
  shows "\<exists>c'. ProcessDataRecv malloc rd sent c = Inr (int (length (set_line key f e d) + 2), c')
    \<and> body_due c' (d + 2) body \<and> req_at c' = 0 \<and> dataPendingRead c' = (if body = [] then 0 else 1)
    \<and> cmd c' = (cmd c)\<lparr>ctype := ACACHED_CMD_SET, keylen := of_nat (length key),
        cmd_key := key @ drop (length key) (cmd_key (cmd c)),
        cmd_flags := of_nat f, exptime := of_nat e, datalen := of_nat d\<rparr>
    \<and> REQ_HDR \<in> req_desc (iovReq c') ! 0 \<and> req_indexHdr (iovReq c') = 0"
proof -
  define L where "L = set_line key f e d"
  define N where "N = length (L @ CR # LF # body)"
  define rest where "rest = body @ drop N (malloc CMD_WAIT_INIT)"
  have ok: "conn_ok c" "conn_state c = cmd_wait" "req_at c = 0" "req_len (iovReq c) ! 0 = 0"
    "req_len (iovReq c) ! 1 = 0" "REQ_BODY_PART \<notin> req_desc (iovReq c) ! 0" "dataPendingRead c = 0"
    using idle by (simp_all add: idle_def req_at_def)
  have lens: "length (req_base (iovReq c)) = REQ_SIZE" "length (req_len (iovReq c)) = REQ_SIZE"
    "length (req_desc (iovReq c)) = REQ_SIZE" "length (req_offset (iovReq c)) = REQ_SIZE"
    "length (req_alloc (iovReq c)) = REQ_SIZE" "length (cmd_key (cmd c)) = 256"
    using ok(1) by (simp_all add: conn_ok_def)
  have N: "N \<le> CMD_WAIT_INIT" "5 < N" "length L + 2 + length body = N"
    using rd(2) length_set_line [of key f e d] by (simp_all add: N_def L_def)
  define c0 where "c0 = new_buf malloc 0 (of_nat CMD_WAIT_INIT) c"
  define c1 where "c1 = set_len 0 N (put_buf c0 0 (L @ CR # LF # rest))"
  have w: "write_at (malloc CMD_WAIT_INIT) 0 (L @ CR # LF # body) = Inr (L @ CR # LF # rest)"
    using N m by (simp add: write_at_def rest_def N_def)
  have "ProcessDataRecv malloc rd sent c = recv_cmd_wait malloc rd sent c"
    using ok by (simp add: ProcessDataRecv_def)
  also have "\<dots> = recv_command sent c1"
    using lens rd(1) w ok(3,4) by (simp add: recv_cmd_wait_def Let_def c1_def c0_def L_def N_def)
      (simp add: upd_defs)
  finally have step1: "ProcessDataRecv malloc rd sent c = recv_command sent c1" .
  have f1: "req_at c1 = 0" "req_len (iovReq c1) = (req_len (iovReq c))[0 := N]"
    "req_base (iovReq c1) = (req_base (iovReq c))[0 := Some (L @ CR # LF # rest)]" "cmd c1 = cmd c"
    "dataPendingRead c1 = 0" "req_desc (iovReq c1) = req_desc (iovReq c)" "conn_ok c1"
    "req_offset (iovReq c1) = req_offset (iovReq c)"
    using ok lens by (simp_all add: c1_def c0_def upd_defs req_at_def conn_ok_def)
  have b1: "req_buf c1 0 = Inr (L @ CR # LF # rest)" using f1(3) lens by (simp add: req_buf_def)
  define c2 where "c2 = c1\<lparr>cmd := (cmd c1)\<lparr>ctype := ACACHED_CMD_SET\<rparr>\<rparr>"
  have sc: "SetCommandType c1 = Inr (cmd_code ACACHED_CMD_SET, c2)"
    using SetCommandType_set [of c1 key f e d "CR # LF # rest"] b1 f1(1,2) lens(2) N(2)
    by (simp add: L_def c2_def)
  have b2: "req_buf c2 0 = Inr (L @ CR # LF # rest)" using f1(3) lens by (simp add: req_buf_def c2_def)
  have ic: "IsBufferComplete (L @ CR # LF # rest) N = Inr (length L + 2, L @ NUL # NUL # rest)"
    using IsBufferComplete_crlf [of L N rest] CR_set_line key N(2) by (simp add: L_def)
  define c3 where "c3 = (set_desc 0 REQ_HDR (upd_req (\<lambda>q. q\<lparr>req_indexHdr := req_index q\<rparr>)
     (put_buf c2 0 (L @ NUL # NUL # rest))))\<lparr>conn_state := body_wait\<rparr>"
  have f3: "req_at c3 = 0" "req_len (iovReq c3) = (req_len (iovReq c))[0 := N]"
    "req_base (iovReq c3) = (req_base (iovReq c))[0 := Some (L @ NUL # NUL # rest)]"
    "cmd c3 = (cmd c)\<lparr>ctype := ACACHED_CMD_SET\<rparr>" "dataPendingRead c3 = 0"
    "req_desc (iovReq c3) = (req_desc (iovReq c))[0 := insert REQ_HDR (req_desc (iovReq c) ! 0)]"
    "conn_state c3 = body_wait" "req_offset (iovReq c3) = req_offset (iovReq c)" "conn_ok c3"
    "req_indexHdr (iovReq c3) = 0"
    using f1 idle by (simp_all add: c3_def c2_def c1_def c0_def upd_defs req_at_def conn_ok_def idle_def)
  have "header_line c3 [] L (NUL # rest)"
    using f3 lens hd_set_line [of key f e d] NUL_set_line key(4)
    by (simp add: header_line_def req_buf_def L_def)
  then obtain b where b: "ProcessHeader c3 = Inr (True, (put_buf c3 0 b)\<lparr>cmd := (cmd c3)\<lparr>
      keylen := of_nat (length key), cmd_key := key @ drop (length key) (cmd_key (cmd c3)),
      cmd_flags := of_nat f, exptime := of_nat e, datalen := of_nat d\<rparr>\<rparr>)"
    "drop (length L) b = NUL # NUL # rest"
    using ProcessHeader_set_line [of c3 "[]" key f e d "NUL # rest"] f3(1,4) lens(6) key nums
    by (auto simp: L_def)
  define c4 where "c4 = (put_buf c3 0 b)\<lparr>cmd := (cmd c3)\<lparr>
      keylen := of_nat (length key), cmd_key := key @ drop (length key) (cmd_key (cmd c3)),
      cmd_flags := of_nat f, exptime := of_nat e, datalen := of_nat d\<rparr>\<rparr>"
  define c5 where "c5 = (if body = [] then c4
      else set_offset 0 (of_nat (length L + 2)) (c4\<lparr>dataPendingRead := 1\<rparr>))"
  have rl: "req_len (iovReq (put_buf c2 0 bf)) ! 0 = N" for bf
    using f1(2) lens(2) by (simp add: put_buf_def c2_def)
  have l4: "req_len (iovReq c4) ! 0 = N" using f3(2) lens(2) by (simp add: c4_def put_buf_def)
  have ct: "ctype (cmd (set_desc i v (upd_req g (put_buf c2 j bf)))) = ACACHED_CMD_SET" for i v g j bf
    by (simp add: set_desc_def put_buf_def c2_def)
  have l2: "req_len (iovReq c2) ! 0 = N" using f1(2) lens(2) by (simp add: c2_def)
  have bn: "Suc (Suc (length L)) < N \<longleftrightarrow> body \<noteq> []" using N(3) by (cases body) auto
  have "recv_command sent c1 = Inr (int (length L + 2), c5)"
    using sc b2 ic b(1) bn l4 ct l2
    by (simp add: recv_command_def f1(1) Let_def c5_def flip: c3_def c4_def)
  moreover have f5: "req_at c5 = 0" "conn_ok c5" "conn_state c5 = body_wait" "datalen (cmd c5) = of_nat d"
    "req_len (iovReq c5) = (req_len (iovReq c))[0 := N]" "dataPendingRead c5 = (if body = [] then 0 else 1)"
    "req_base (iovReq c5) = (req_base (iovReq c))[0 := Some b]"
    "req_desc (iovReq c5) = (req_desc (iovReq c))[0 := insert REQ_HDR (req_desc (iovReq c) ! 0)]"
    "body \<noteq> [] \<Longrightarrow> req_offset (iovReq c5) ! 0 = of_nat (length L + 2)"
    "cmd c5 = (cmd c)\<lparr>ctype := ACACHED_CMD_SET, keylen := of_nat (length key),
        cmd_key := key @ drop (length key) (cmd_key (cmd c)),
        cmd_flags := of_nat f, exptime := of_nat e, datalen := of_nat d\<rparr>"
    "req_indexHdr (iovReq c5) = 0" "REQ_HDR \<in> req_desc (iovReq c5) ! 0"
    using f3 lens key(5) by (simp_all add: c5_def c4_def upd_defs req_at_def conn_ok_def)
  moreover have "body_due c5 (d + 2) body"
  proof -
    have dl: "unat (of_nat d :: u32) = d" using nums by (simp add: unat_of_nat_small)
    then have d0: "0 < datalen (cmd c5)" using nums(3) f5(4) by (simp add: word_less_nat_alt)
    have lb: "drop (length L + 2) b = rest"
      using arg_cong [OF b(2), of "drop 2"] by (simp add: add.commute)
    have "length b - length L = Suc (Suc (length rest))"
      using arg_cong [OF b(2), of length] by simp
    moreover have "length body \<le> length rest" by (simp add: rest_def)
    ultimately have "N \<le> length b" using N(3) by linarith
    moreover have "unat (of_nat (length L + 2) :: u32) = length L + 2"
      using N by (intro unat_of_nat_small) simp
    moreover have "N - (length L + 2) = length body" "length L + 2 \<le> N" using N(3) by simp_all
    ultimately show ?thesis
      using f5 ok lens d0 dl nums(4) lb N(1) unfolding body_due_def
      by (simp add: req_buf_def rest_def)
  qed
  ultimately show ?thesis using step1 by (auto simp: L_def)
qed

subsection \<open>Properties\<close>

text \<open>
  C20: a SET line that arrives on an idle connection, alone or with a part of its body behind it, is
  taken: the return value is the length of the line, key, flags, expiry and length are in \<open>cmd\<close>, and
  the connection waits for a body of the length and CR LF, with the bytes behind the line pending.
\<close>

theorem set_command_received:
  assumes "idle c" "\<forall>k. length (malloc k) = k"
    and "key \<noteq> []" "SP \<notin> set key" "CR \<notin> set key" "NUL \<notin> set key" "length key \<le> 256"
    and "f < 2 ^ 32" "e < 2 ^ 32" "0 < d" "d + 2 < 2 ^ 31"
    and "rd CMD_WAIT_INIT = Recv (set_line key f e d @ CR # LF # body)"
    and "length (set_line key f e d @ CR # LF # body) \<le> CMD_WAIT_INIT"
  shows "\<exists>c'. ProcessDataRecv malloc rd sent c = Inr (int (length (set_line key f e d) + 2), c')
    \<and> body_due c' (d + 2) body \<and> req_at c' = 0 \<and> dataPendingRead c' = (if body = [] then 0 else 1)
    \<and> cmd c' = (cmd c)\<lparr>ctype := ACACHED_CMD_SET, keylen := of_nat (length key),
        cmd_key := key @ drop (length key) (cmd_key (cmd c)),
        cmd_flags := of_nat f, exptime := of_nat e, datalen := of_nat d\<rparr>"
proof -
  have "\<And>k. length (malloc k) = k" using assms(2) by simp
  from recv_set_command [where rd = rd, OF assms(1) this assms(3-13)] show ?thesis by blast
qed

definition zeros :: "nat \<Rightarrow> char list" where
  "zeros k = replicate k NUL"

lemma fresh_idle: "idle fresh_conn"
  by (simp add: idle_def fresh_conn_ok fresh_conn_simps)

lemma set_line_ab: "length (set_line ''ab'' 0 0 3) = 12"
  by (simp add: set_line_def dec.simps)

lemma set_command_received_witness:
  "\<exists>c'. ProcessDataRecv zeros (\<lambda>_. Recv (set_line ''ab'' 0 0 3 @ CR # LF # ''xyz'')) 0 fresh_conn =
      Inr (14, c') \<and> body_due c' 5 ''xyz''"
  using set_command_received [of fresh_conn zeros "''ab''" 0 0 3
      "\<lambda>_. Recv (set_line ''ab'' 0 0 3 @ CR # LF # ''xyz'')" "''xyz''" 0]
  by (auto simp: fresh_idle zeros_def set_line_ab)

text \<open>
  C21: the first call that reads a body: the pending bytes and those read are stored in this order in
  the next slot, in a buffer of exactly the size of the body; the command is done when they are
  all of it, and otherwise the connection goes on waiting for the rest.
\<close>

theorem body_first_part_stored:
  assumes "body_due c n pend" "\<forall>k. length (malloc k) = k" "length pend \<le> n"
    and "if length pend = n then bs = [] else rd (n - length pend) = Recv bs \<and> length bs \<le> n - length pend"
  shows "\<exists>c'. ProcessDataRecv malloc rd sent c = Inr (int (length (pend @ bs)), c')
    \<and> storing c' n (pend @ bs) \<and> req_at c' = Suc (req_at c)
    \<and> conn_state c' = (if length (pend @ bs) < n then body_wait else cmd_done)"
proof -
  have "\<And>k. length (malloc k) = k" using assms(2) by simp
  from body_first_read [where rd = rd, OF assms(1) this assms(3,4)] show ?thesis by blast
qed

text \<open>The connection in the middle of a SET of a 3-byte value, the bytes \<open>bs\<close> behind the header.\<close>

definition due_conn :: "char list \<Rightarrow> aConn" where
  "due_conn bs = fresh_conn\<lparr>conn_state := body_wait, dataPendingRead := (if bs = [] then 0 else 1),
     cmd := (cmd fresh_conn)\<lparr>ctype := ACACHED_CMD_SET, datalen := 3\<rparr>,
     iovReq := (iovReq fresh_conn)\<lparr>req_base := (replicate REQ_SIZE None)[0 := Some bs],
       req_len := (replicate REQ_SIZE 0)[0 := length bs]\<rparr>\<rparr>"

lemma due_conn_due: "length bs < 2 ^ 31 \<Longrightarrow> body_due (due_conn bs) 5 bs"
  using fresh_conn_ok
  by (simp add: body_due_def due_conn_def conn_ok_def fresh_conn_simps req_at_def req_buf_def)

lemma body_first_part_stored_witness:
  "\<exists>c'. ProcessDataRecv zeros (\<lambda>_. Recv [CHR ''z'', CR, LF]) 0 (due_conn ''xy'') = Inr (5, c')
     \<and> storing c' 5 [CHR ''x'', CHR ''y'', CHR ''z'', CR, LF] \<and> conn_state c' = cmd_done"
  using body_first_part_stored [OF due_conn_due [of "''xy''"], of zeros "[CHR ''z'', CR, LF]"
      "\<lambda>_. Recv [CHR ''z'', CR, LF]" 0]
  by (auto simp: zeros_def)

text \<open>
  A second read completes a partial body: it is stored behind the first part, and the command is
  done when the body is whole. When it is still partial, the offset recorded for the next read is
  the sum of both running totals, too far by the length of the first part, so that a body that
  arrives in three pieces is put together wrongly.
\<close>

theorem body_second_part_stored:
  assumes "storing c n bs" "conn_state c = body_wait" "0 < datalen (cmd c)"
    and "n = unat (datalen (cmd c)) + 2" "REQ_BODY_PART \<in> req_desc (iovReq c) ! req_at c"
    and "req_offset (iovReq c) ! req_at c = of_nat (length bs)" "length bs < n"
    and "rd (n - length bs) = Recv new" "length new \<le> n - length bs"
  shows "\<exists>c'. ProcessDataRecv malloc rd sent c = Inr (int (length (bs @ new)), c')
    \<and> storing c' n (bs @ new) \<and> req_at c' = req_at c
    \<and> conn_state c' = (if length (bs @ new) < n then body_wait else cmd_done)
    \<and> (length (bs @ new) < n \<longrightarrow>
         req_offset (iovReq c') ! req_at c' = of_nat (length bs + length (bs @ new)))"
  by (rule body_next_read [where rd = rd, OF assms])

lemma part_conn: "\<exists>c. storing c 5 ''xy'' \<and> conn_state c = body_wait \<and> datalen (cmd c) = 3
    \<and> REQ_BODY_PART \<in> req_desc (iovReq c) ! req_at c \<and> req_offset (iovReq c) ! req_at c = 2"
proof -
  have "\<And>k. length (zeros k) = k" by (simp add: zeros_def)
  from body_first_read [OF due_conn_due [of "[]"] this, of "''xy''" "\<lambda>_. Recv ''xy''" 0]
  obtain c' where "storing c' 5 ''xy''" "cmd c' = cmd (due_conn [])" "conn_state c' = body_wait"
    "REQ_BODY_PART \<in> req_desc (iovReq c') ! req_at c'"
    "req_offset (iovReq c') ! req_at c' = req_offset (iovReq (due_conn [])) ! Suc (req_at (due_conn [])) + of_nat 2"
    by auto
  then show ?thesis
    by (intro exI [of _ c']) (simp add: due_conn_def fresh_conn_simps req_at_def)
qed

lemma body_second_part_stored_witness:
  "\<exists>c c'. ProcessDataRecv zeros (\<lambda>_. Recv ''z'') 0 c = Inr (3, c') \<and> storing c' 5 ''xyz''
     \<and> req_offset (iovReq c') ! req_at c' = 5"
proof -
  obtain c where c: "storing c 5 ''xy''" "conn_state c = body_wait" "datalen (cmd c) = 3"
    "REQ_BODY_PART \<in> req_desc (iovReq c) ! req_at c" "req_offset (iovReq c) ! req_at c = 2"
    using part_conn by blast
  have u: "unat (3 :: u32) = 3" by simp
  have "\<exists>c'. ProcessDataRecv zeros (\<lambda>_. Recv ''z'') 0 c = Inr (int (length (''xy'' @ ''z'')), c')
    \<and> storing c' 5 (''xy'' @ ''z'') \<and> req_at c' = req_at c
    \<and> conn_state c' = (if length (''xy'' @ ''z'') < 5 then body_wait else cmd_done)
    \<and> (length (''xy'' @ ''z'') < 5 \<longrightarrow>
         req_offset (iovReq c') ! req_at c' = of_nat (length ''xy'' + length (''xy'' @ ''z'')))"
    by (rule body_second_part_stored [where rd = "\<lambda>_. Recv ''z''"])
      (use c u in \<open>simp_all only: list.size, simp_all\<close>)
  then obtain c' where c': "ProcessDataRecv zeros (\<lambda>_. Recv ''z'') 0 c = Inr (3, c')" "storing c' 5 ''xyz''"
    "req_offset (iovReq c') ! req_at c' = 5" by auto
  show ?thesis by (rule exI [of _ c], rule exI [of _ c']) (simp add: c')
qed

text \<open>
  C27: when the first part of the body came with the header and the read of the rest fails (with
  \<open>EAGAIN\<close>, say, on the non-blocking socket), the next call opens another slot and reads the body
  from its beginning: the bytes that came with the header are not part of it.
\<close>

theorem pending_body_lost_on_failed_read:
  assumes "body_due c n pend" "\<forall>k. length (malloc k) = k" "length pend < n"
    and "rd (n - length pend) = RecvFail r err"
    and "Suc (Suc (req_at c)) < REQ_SIZE" "req_len (iovReq c) ! Suc (Suc (req_at c)) = 0"
    and "REQ_BODY_PART \<notin> req_desc (iovReq c) ! Suc (req_at c)"
    and "rd' n = Recv bs" "length bs \<le> n"
  shows "\<exists>c1 c2. ProcessDataRecv malloc rd sent c = Inr (r, c1)
    \<and> ProcessDataRecv malloc rd' sent' c1 = Inr (int (length bs), c2)
    \<and> storing c2 n bs \<and> req_at c2 = Suc (Suc (req_at c))"
proof -
  have m: "\<And>k. length (malloc k) = k" using assms(2) by simp
  obtain c' where c': "ProcessDataRecv malloc rd sent c = Inr (r, SetErrorErrno c' err)" "storing c' n pend"
    "req_at c' = Suc (req_at c)" "cmd c' = cmd c" "req_desc (iovReq c') = req_desc (iovReq c)" "conn_ok c'"
    "conn_state c' = body_wait"
    "\<forall>j. j \<noteq> Suc (req_at c) \<longrightarrow> req_len (iovReq c') ! j = req_len (iovReq c) ! j"
    using body_first_read_fails [where rd = rd, OF assms(1) m assms(3,4)] by blast
  let ?c = "SetErrorErrno c' err"
  have n: "0 < n" "n < 2 ^ 31" "0 < datalen (cmd c)" "n = unat (datalen (cmd c)) + 2"
    using assms(1) by (auto simp: body_due_def)
  have at: "req_at ?c = Suc (req_at c)" using c'(3) by (simp add: req_at_def SetErrorErrno_def)
  have "dataPendingRead c' = 0" using c'(2) by (simp add: storing_def)
  then have "body_due ?c n []"
    using c' n assms(5-7) at by (simp add: body_due_def SetErrorErrno_def conn_ok_def)
  from body_first_read [OF this m, of bs rd' sent'] n(1) assms(8,9) c'(1) at show ?thesis by auto
qed

lemma pending_body_lost_on_failed_read_witness:
  "\<exists>c1 c2. ProcessDataRecv zeros (\<lambda>_. RecvFail (- 1) 11) 0 (due_conn ''xy'') = Inr (- 1, c1)
    \<and> ProcessDataRecv zeros (\<lambda>_. Recv [CHR ''z'', CR, LF]) 0 c1 = Inr (3, c2)
    \<and> storing c2 5 [CHR ''z'', CR, LF] \<and> req_at c2 = 2"
proof -
  have at: "req_at (due_conn ''xy'') = 0" by (simp add: due_conn_def fresh_conn_simps req_at_def)
  have "\<exists>c1 c2. ProcessDataRecv zeros (\<lambda>_. RecvFail (- 1) 11) 0 (due_conn ''xy'') = Inr (- 1, c1)
    \<and> ProcessDataRecv zeros (\<lambda>_. Recv [CHR ''z'', CR, LF]) 0 c1 = Inr (int (length [CHR ''z'', CR, LF]), c2)
    \<and> storing c2 5 [CHR ''z'', CR, LF] \<and> req_at c2 = Suc (Suc (req_at (due_conn ''xy'')))"
    by (rule pending_body_lost_on_failed_read [OF due_conn_due])
      (simp_all add: at, simp_all add: zeros_def due_conn_def fresh_conn_simps)
  then show ?thesis by (simp add: at numeral_2_eq_2)
qed



end
