(* ===== verification/ConnReq.thy ===== *)
theory ConnReq
  imports SGA ConnRecv
begin

section \<open>Posting a command to the workers (aConnReq.cpp)\<close>

text \<open>
  A command that was read whole becomes a message. A connection has one command in progress at a time
  (\<open>Busy\<close>); the others wait in its \<open>PendingCmdQ\<close>. A SET goes to a worker, a GET becomes one message for
  each key, a QUIT closes the connection.

  The buffer at \<open>cmdptr\<close> is handed over with the message: the connection keeps a copy of the pointer in
  its request vector until \<open>Reset\<close>, which its caller runs next, and does not use it.
\<close>

subsection \<open>Closing (closeConnection of threadComm.cpp)\<close>

text \<open>
  The log statement behind \<open>Reset\<close> calls \<open>Revoke\<close> in its arguments, and \<open>main\<close> enables its log group.
\<close>

definition closeConnection :: "int \<Rightarrow> ptr \<Rightarrow> server \<Rightarrow> (int \<times> server) result" where
  "closeConnection fd ev w =
     rbind (fetch (events w) ev) (\<lambda>e.
       let w = w\<lparr>watched := watched w - {ev}, closed := fd # closed w\<rparr> in
       rbind (if ev_aC e \<noteq> NULL then
                rbind (fetch (conns w) (ev_aC e)) (\<lambda>c.
                  let c = (aConn_Reset c)\<lparr>commRead_wptr := NULL, ev_loop := NULL\<rparr>; c = snd (Revoke c)
                  in Inr (snd (aConnRelease (upd_conn (ev_aC e) c w) (ev_aC e))))
              else Inr w) (\<lambda>w.
       Inr (0, w\<lparr>events := (events w)(ev := None)\<rparr>)))"

subsection \<open>GET\<close>

text \<open>
  The keys are the words of the line after the first (\<open>strtok\<close> with a space). Each gets a message; the
  last one clears \<open>concPending\<close> before it is posted.
\<close>

definition gets_key :: "ptr \<Rightarrow> string \<Rightarrow> bool \<Rightarrow> server \<Rightarrow> server result option" where
  "gets_key ac key lastkey w =
     obind (map_option Inr (aMsgAllocate w)) (\<lambda>(am, w).
     Some (rbind (fetch (conns w) ac) (\<lambda>c.
       rbind (MsgHdrIN_Init am (aMsg_Init KVDATA ac (ctype (cmd c))) key (int (length key)) 0) (\<lambda>a.
       let c = c\<lparr>reqCount := reqCount c + 1\<rparr>;
           c = (if lastkey then
                  (let (r, c) = IsconcPending c in if r \<noteq> 0 then snd (concPendingReset c) else c)
                else c)
       in rbind (Post2KVdata (upd_conn ac c (upd_msg am a w)) am) (\<lambda>(_, w). Inr w)))))"

fun gets_loop :: "ptr \<Rightarrow> string list \<Rightarrow> server \<Rightarrow> server result option" where
  "gets_loop ac [] w = Some (Inr w)"
| "gets_loop ac (k # ks) w = obind (gets_key ac k (ks = []) w) (gets_loop ac ks)"

definition Post2KVdataGets :: "ptr \<Rightarrow> ptr \<Rightarrow> server \<Rightarrow> (int \<times> server) result option" where
  "Post2KVdataGets ac amcmd w =
     obind (Some (fetch (msgs w) amcmd)) (\<lambda>a.
     obind (Some (fetch (conns w) ac)) (\<lambda>c.
     obind (case cmdptr a of None \<Rightarrow> Some (Inl NullDeref) | Some buf \<Rightarrow>
              gets_loop ac (tl (words (cstr buf))) (upd_conn ac (snd (concPendingSet c)) w)) (\<lambda>w.
     obind (Some (fetch (msgs w) amcmd)) (\<lambda>a.
     Some (Inr (0, snd (aMsgRelease (upd_msg amcmd (a\<lparr>cmdptr := None\<rparr>) w) amcmd)))))))"

subsection \<open>One command at a time\<close>

text \<open>Leaving the \<open>Busy\<close> state: \<open>__sync_bool_compare_and_swap(&Busy, 1, 0)\<close>.\<close>

definition not_busy :: "aConn \<Rightarrow> aConn" where
  "not_busy c = c\<lparr>Busy := snd (sync_bool_cas (Busy c) 1 0)\<rparr>"

text \<open>
  What a message leads to once its connection is busy. The command is the one in the connection at this
  time, not the one in the message.
\<close>

definition start_command :: "ptr \<Rightarrow> ptr \<Rightarrow> server \<Rightarrow> (int \<times> server) result option" where
  "start_command ac am w =
     obind (Some (fetch (msgs w) am)) (\<lambda>a.
     obind (Some (fetch (conns w) (am_aC a))) (\<lambda>mc.
     if ctype (cmd mc) = ACACHED_CMD_GETS then Post2KVdataGets ac am w
     else if ctype (cmd mc) = ACACHED_CMD_QUIT then
       Some (rbind (closeConnection (cSockFd mc) (commRead_wptr mc) w) (\<lambda>(_, w).
         rbind (fetch (conns w) ac) (\<lambda>c.
         Inr (0, snd (aMsgRelease (upd_conn ac (not_busy c) w) am)))))
     else Some (Post2KVdata w am)))"

text \<open>
  \<open>Post2KVdataTSQ\<close>; \<open>am\<close> may be NULL, which asks for a pending command. In the busy case the log
  statement reads \<open>aM->aC->cmd.ctype\<close>.
\<close>

definition Post2KVdataTSQ :: "ptr \<Rightarrow> ptr \<Rightarrow> server \<Rightarrow> (int \<times> server) result option" where
  "Post2KVdataTSQ ac am w =
     obind (Some (fetch (conns w) ac)) (\<lambda>c.
     let (free, busy) = sync_bool_cas (Busy c) 0 1 in
     if free then
       (let (am1, pq) = aSQget (PendingCmdQ c);
            pq = (if am1 \<noteq> NULL \<and> am \<noteq> NULL then snd (aSQput pq am) else pq);
            am = (if am1 \<noteq> NULL then am1 else am);
            c = c\<lparr>Busy := busy, PendingCmdQ := pq\<rparr>
        in if am \<noteq> NULL then
             obind (start_command ac am (upd_conn ac c w)) (\<lambda>(_, w). Some (Inr (0, w)))
           else Some (Inr (0, upd_conn ac (not_busy c) w)))
     else
       Some (rbind (fetch (msgs w) am) (\<lambda>a.
         rbind (fetch (conns w) (am_aC a)) (\<lambda>_.
         Inr (0, upd_conn ac (c\<lparr>PendingCmdQ := snd (aSQput (PendingCmdQ c) am)\<rparr>) w)))))"

subsection \<open>The message of a command\<close>

text \<open>The header buffers, from the last to the first: each must be one of a header, and is freed.\<close>

definition free_hdr :: "nat \<Rightarrow> aConn \<Rightarrow> aConn result" where
  "free_hdr i c = (let d = req_desc (iovReq c) in
     if length d \<le> i then Inl OutOfBounds
     else if REQ_HDR \<in> d ! i \<or> REQ_HDR_PART \<in> d ! i then FreeIov c i else Inl AssertFail)"

fun free_hdrs :: "nat \<Rightarrow> aConn \<Rightarrow> aConn result" where
  "free_hdrs 0 c = free_hdr 0 c"
| "free_hdrs (Suc i) c = rbind (free_hdr (Suc i) c) (free_hdrs i)"

definition req_base_at :: "aConn \<Rightarrow> nat \<Rightarrow> char list option result" where
  "req_base_at c i = (if length (req_base (iovReq c)) \<le> i then Inl OutOfBounds
     else Inr (req_base (iovReq c) ! i))"

definition set_message :: "ptr \<Rightarrow> ptr \<Rightarrow> server \<Rightarrow> server result" where
  "set_message ac am w =
     rbind (fetch (conns w) ac) (\<lambda>c. let k = cmd c; hdr_index = req_indexHdr (iovReq c) in
       rbind (MsgHdrIN_Init am (aMsg_Init KVDATA ac (ctype k)) (cmd_key k) (sint (keylen k)) 0) (\<lambda>a.
       rbind (req_base_at c (req_at c)) (\<lambda>b.
       rbind (if sint hdr_index < 0 then Inr c else free_hdrs (unat hdr_index) c) (\<lambda>c.
       Inr (upd_conn ac c (upd_msg am (a\<lparr>cmdptr := b,
         KVdataSet := \<lparr>set_flag = sint (cmd_flags k), set_exptime = sint (exptime k),
           set_vallen = sint (datalen k)\<rparr>\<rparr>) w))))))"

definition Post2KVdataSet :: "ptr \<Rightarrow> server \<Rightarrow> (int \<times> server) result option" where
  "Post2KVdataSet ac w =
     obind (map_option Inr (aMsgAllocate w)) (\<lambda>(am, w).
     obind (Some (set_message ac am w)) (\<lambda>w.
     obind (Post2KVdataTSQ ac am w) (\<lambda>(_, w). Some (Inr (0, w)))))"

definition gets_message :: "ptr \<Rightarrow> ptr \<Rightarrow> server \<Rightarrow> server result" where
  "gets_message ac am w =
     rbind (fetch (conns w) ac) (\<lambda>c.
     rbind (req_base_at c (req_at c)) (\<lambda>b.
     Inr (upd_msg am ((aMsg_Init KVDATA ac (ctype (cmd c)))\<lparr>cmdptr := b\<rparr>) w)))"

definition Post2KVdataGetsPre :: "ptr \<Rightarrow> server \<Rightarrow> (int \<times> server) result option" where
  "Post2KVdataGetsPre ac w =
     obind (Some (fetch (conns w) ac)) (\<lambda>c.
     if req_index (iovReq c) \<noteq> 0 then Some (Inl AssertFail)
     else
       obind (map_option Inr (aMsgAllocate w)) (\<lambda>(am, w).
       obind (Some (gets_message ac am w)) (\<lambda>w.
       obind (Post2KVdataTSQ ac am w) (\<lambda>(_, w). Some (Inr (0, w))))))"

definition Post2KVdataQuit :: "ptr \<Rightarrow> server \<Rightarrow> (int \<times> server) result option" where
  "Post2KVdataQuit ac w =
     obind (map_option Inr (aMsgAllocate w)) (\<lambda>(am, w).
     obind (Some (fetch (conns w) ac)) (\<lambda>c.
     obind (Post2KVdataTSQ ac am (upd_msg am (aMsg_Init KVDATA ac (ctype (cmd c))) w)) (\<lambda>(_, w).
     Some (Inr (0, w)))))"

definition aConn_Post2KVdata :: "ptr \<Rightarrow> server \<Rightarrow> (int \<times> server) result option" where
  "aConn_Post2KVdata ac w =
     obind (Some (fetch (conns w) ac)) (\<lambda>c.
     if ctype (cmd c) = ACACHED_CMD_GETS then Post2KVdataGetsPre ac w
     else if ctype (cmd c) = ACACHED_CMD_SET then Post2KVdataSet ac w
     else if ctype (cmd c) = ACACHED_CMD_QUIT then Post2KVdataQuit ac w
     else Some (Inr (- 1, w)))"

end
