(* ===== verification/ConnReply.thy ===== *)
theory ConnReply
  imports Conn Util
begin

section \<open>Writing replies (aConnReply.cpp)\<close>

text \<open>
  Replies are queued in the reply vectors and sent with \<open>sendmsg\<close>. What the kernel does is a list of
  outcomes, one for each call: it takes some bytes, or fails with an \<open>errno\<close>. A function that calls
  it until something happens returns \<open>None\<close> when the list runs out, and the outcomes left
  otherwise. The bytes taken are appended to \<open>wire\<close>.
\<close>

datatype outcome = Sent nat | SendFail int

abbreviation (input) EINTR :: int where "EINTR \<equiv> 4"
abbreviation (input) EAGAIN :: int where "EAGAIN \<equiv> 11"

subsection \<open>The bytes of the reply vectors\<close>

definition iov_bytes :: "store \<Rightarrow> iobase \<Rightarrow> nat \<Rightarrow> char list result" where
  "iov_bytes m b n = (if n = 0 then Inr [] else
     (case b of NullBase \<Rightarrow> Inl NullDeref
      | Copied cs \<Rightarrow> if n \<le> length cs then Inr (take n cs) else Inl OutOfBounds
      | Value p off \<Rightarrow> (case m p of None \<Rightarrow> Inl UseAfterFree
          | Some k \<Rightarrow> if off + n \<le> length (kvbytes k) then Inr (take n (drop off (kvbytes k)))
                     else Inl OutOfBounds)))"

fun gather :: "store \<Rightarrow> iobase list \<Rightarrow> nat list \<Rightarrow> char list result" where
  "gather m (b # bs) (n # ns) = rbind (iov_bytes m b n) (\<lambda>x. rbind (gather m bs ns) (\<lambda>y. Inr (x @ y)))"
| "gather m _ _ = Inr []"

definition rep_window :: "aConn \<Rightarrow> nat \<Rightarrow> nat \<Rightarrow> (iobase list \<times> nat list) result" where
  "rep_window c start count = (if length (rep_base (iovReply c)) < start + count then Inl OutOfBounds
     else Inr (take count (drop start (rep_base (iovReply c))), take count (drop start (rep_len (iovReply c)))))"

text \<open>The bytes of the vectors from \<open>start\<close>, \<open>count\<close> of them, and one \<open>sendmsg\<close> of these.\<close>

definition reply_bytes :: "store \<Rightarrow> aConn \<Rightarrow> nat \<Rightarrow> nat \<Rightarrow> char list result" where
  "reply_bytes m c start count = rbind (rep_window c start count) (\<lambda>(bs, ns). gather m bs ns)"

definition transmit :: "store \<Rightarrow> aConn \<Rightarrow> nat \<Rightarrow> nat \<Rightarrow> nat \<Rightarrow> aConn result" where
  "transmit m c start count n =
     rbind (reply_bytes m c start count) (\<lambda>bs. Inr (c\<lparr>wire := wire c @ take n bs\<rparr>))"

subsection \<open>CheckIOVTotalWritten\<close>

fun iov_scan :: "u32 \<Rightarrow> nat \<Rightarrow> u32 \<Rightarrow> u32 \<Rightarrow> nat \<Rightarrow> nat list \<Rightarrow> u32 \<times> u32 \<times> nat" where
  "iov_scan writeret i tot tmptotal found [] = (tot, tmptotal, found)"
| "iov_scan writeret i tot tmptotal found (n # ns) =
     (let tot = tot + of_nat n in
      if writeret \<le> tot \<and> tmptotal = 0 then iov_scan writeret (Suc i) tot tot i ns
      else iov_scan writeret (Suc i) tot tmptotal found ns)"

fun advance :: "nat \<Rightarrow> iobase \<Rightarrow> iobase" where
  "advance n NullBase = NullBase"
| "advance n (Copied cs) = Copied (drop n cs)"
| "advance n (Value p off) = Value p (off + n)"

text \<open>
  The boolean result, \<open>*iovEnd\<close> (\<open>None\<close> when it is not set) and \<open>*totalptr\<close>. When the last vector was
  written in part, its base and length are moved past what was written.
\<close>

definition CheckIOVTotalWritten :: "aConn \<Rightarrow> nat \<Rightarrow> nat \<Rightarrow> u32 \<Rightarrow> (bool \<times> nat option \<times> u32 \<times> aConn) result" where
  "CheckIOVTotalWritten c start count writeret =
     rbind (rep_window c start count) (\<lambda>(bs, ns).
       let (full, tmptotal, found) = iov_scan writeret 0 0 0 0 ns;
           tot = (if tmptotal \<noteq> 0 then tmptotal else full);
           i = (if tmptotal \<noteq> 0 then found else count) in
       if tot = writeret then Inr (True, Some (start + i + 1), full, c)
       else if writeret < tot then
         (let e = start + i; r = iovReply c in
          if length (rep_len r) \<le> e then Inl OutOfBounds
          else (let seek = unat (writeret - (tot - of_nat (rep_len r ! e))) in
            Inr (False, Some e, full,
              c\<lparr>iovReply := r\<lparr>rep_base := (rep_base r)[e := advance seek (rep_base r ! e)],
                rep_len := (rep_len r)[e := rep_len r ! e - seek]\<rparr>\<rparr>)))
       else Inr (False, None, full, c))"

subsection \<open>Sending\<close>

text \<open>\<open>sendmsg\<close>, again while it fails with \<open>EINTR\<close>: its return value and \<open>errno\<close>.\<close>

fun sendmsg_retry :: "store \<Rightarrow> aConn \<Rightarrow> nat \<Rightarrow> nat \<Rightarrow> outcome list \<Rightarrow>
    (int \<times> int \<times> outcome list \<times> aConn) result option" where
  "sendmsg_retry m c start count [] = None"
| "sendmsg_retry m c start count (Sent n # outs) =
     Some (rbind (transmit m c start count n) (\<lambda>c. Inr (int n, 0, outs, c)))"
| "sendmsg_retry m c start count (SendFail e # outs) =
     (if e = EINTR then sendmsg_retry m c start count outs else Some (Inr (- 1, e, outs, c)))"

text \<open>A negative \<open>count\<close> is more vectors than \<open>sendmsg\<close> takes: it fails with \<open>EMSGSIZE\<close>.\<close>

definition WriteIOVReply :: "store \<Rightarrow> aConn \<Rightarrow> nat \<Rightarrow> int \<Rightarrow> outcome list \<Rightarrow>
    (int \<times> outcome list \<times> aConn) result option" where
  "WriteIOVReply m c start count outs =
     (let (free, flag) = sync_bool_cas (writingflag c) 0 1 in
      if \<not> free then Some (Inr (- 2, outs, c))
      else (let c = c\<lparr>writingflag := flag\<rparr>; count = min count (int IOV_MAX) in
        map_option (\<lambda>r. rbind r (\<lambda>(writeret, errno, outs, c).
          if writeret \<le> 0 then Inr (writeret, outs, c\<lparr>writingflag := snd (sync_bool_cas (writingflag c) 1 0)\<rparr>)
          else rbind (CheckIOVTotalWritten c start (nat count) (word_of_int writeret)) (\<lambda>(_, iovEnd, _, c).
            case iovEnd of None \<Rightarrow> Inl Uninitialised
            | Some e \<Rightarrow> Inr (writeret, outs,
                c\<lparr>windexlast := snd (sync_val_cas (windexlast c) (of_nat start) (of_nat e)),
                  writingflag := snd (sync_bool_cas (writingflag c) 1 0)\<rparr>))))
          (if count < 0 then Some (Inr (- 1, 90, outs, c)) else sendmsg_retry m c start (nat count) outs)))"

definition WriteAllOnceIMM :: "store \<Rightarrow> aConn \<Rightarrow> nat \<Rightarrow> nat \<Rightarrow> outcome list \<Rightarrow>
    (int \<times> outcome list \<times> aConn) result option" where
  "WriteAllOnceIMM m c start iovCount outs =
     (if iovCount \<noteq> 1 then Some (Inl AssertFail)
      else map_option (\<lambda>r. rbind r (\<lambda>(writeret, errno, outs, c). Inr (writeret, outs, c)))
             (sendmsg_retry m c start iovCount outs))"

text \<open>
  \<open>do_select\<close>: up to \<open>tries\<close> waits while they time out; the value of the last.
\<close>

fun select_retry :: "nat \<Rightarrow> (int \<times> bool) list \<Rightarrow> (int \<times> (int \<times> bool) list) option" where
  "select_retry 0 sels = None"
| "select_retry (Suc tries) sels =
     (case wait_for_io_or_timeout sels of None \<Rightarrow> None
      | Some (r, sels) \<Rightarrow> if r = 0 \<and> 0 < tries then select_retry tries sels else Some (r, sels))"

text \<open>
  \<open>WriteAllOnce\<close> from \<open>do_write\<close> on. The code sets \<open>start\<close> to \<open>iovEnd\<close> before it subtracts their
  difference from \<open>iovCount\<close>, which thus does not change.
\<close>

fun write_all :: "store \<Rightarrow> aConn \<Rightarrow> nat \<Rightarrow> nat \<Rightarrow> int \<Rightarrow> outcome list \<Rightarrow> (int \<times> bool) list \<Rightarrow>
    (int \<times> outcome list \<times> aConn) result option" where
  "write_all m c start iovCount totalcount [] sels = None"
| "write_all m c start iovCount totalcount (SendFail e # outs) sels =
     (if e = EINTR then write_all m c start iovCount totalcount outs sels
      else if e = EAGAIN then
        (case select_retry 5 sels of None \<Rightarrow> None
         | Some (r, sels) \<Rightarrow> if r < 0 then Some (Inr (r, outs, c))
             else write_all m c start iovCount totalcount outs sels)
      else Some (Inr (- 1, outs, c)))"
| "write_all m c start iovCount totalcount (Sent n # outs) sels =
     (case transmit m c start iovCount n of Inl e \<Rightarrow> Some (Inl e)
      | Inr c \<Rightarrow>
        if n = 0 then Some (Inr (0, outs, c))
        else (case CheckIOVTotalWritten c start iovCount (of_nat n) of Inl e \<Rightarrow> Some (Inl e)
          | Inr (done, iovEnd, tot, c) \<Rightarrow>
             if done then Some (Inr (totalcount + int n, outs, c))
             else (case iovEnd of None \<Rightarrow> Some (Inl Uninitialised)
               | Some e \<Rightarrow> write_all m c e iovCount (totalcount + int n) outs sels)))"

definition WriteAllOnce :: "store \<Rightarrow> aConn \<Rightarrow> nat \<Rightarrow> nat \<Rightarrow> outcome list \<Rightarrow> (int \<times> bool) list \<Rightarrow>
    (int \<times> outcome list \<times> aConn) result option" where
  "WriteAllOnce m c start iovCount outs sels = write_all m c start iovCount 0 outs sels"

subsection \<open>Queueing\<close>

text \<open>
  \<open>strncpy\<close> of \<open>len\<close> bytes from the memory \<open>src\<close>, into a block of \<open>len + 1\<close> zero bytes.
\<close>

definition copy_of :: "char list \<Rightarrow> nat \<Rightarrow> char list result" where
  "copy_of src len = (if length src < len \<and> NUL \<notin> set src then Inl OutOfBounds
     else Inr (take len (cstr src @ replicate len NUL) @ [NUL]))"

definition AddIOVReply :: "aConn \<Rightarrow> iobase \<Rightarrow> nat \<Rightarrow> bool \<Rightarrow> nat \<Rightarrow> (u32 \<times> aConn) result" where
  "AddIOVReply c src len do_malloc index =
     (let r = iovReply c in
      if length (rep_base r) \<le> index then Inl OutOfBounds
      else rbind (if do_malloc then
                    (case src of Copied cs \<Rightarrow> rbind (copy_of cs len) (\<lambda>cs. Inr (Copied cs))
                     | NullBase \<Rightarrow> Inl NullDeref | Value p off \<Rightarrow> Inl OutOfBounds)
                  else Inr src) (\<lambda>b.
        let d = rep_desc r ! index; d = (if do_malloc then insert REPLY_MALLOC d else d) in
        Inr (of_nat len, c\<lparr>iovReply := r\<lparr>rep_base := (rep_base r)[index := b],
          rep_base2 := (rep_base2 r)[index := b], rep_len := (rep_len r)[index := len],
          rep_desc := (rep_desc r)[index := insert REPLY_WRITTEN d]\<rparr>\<rparr>)))"

text \<open>\<open>snprintf(buf, 512, "VALUE %s 0 %d 1\r\n", key, vallen)\<close>\<close>

definition dec_int :: "int \<Rightarrow> string" where
  "dec_int i = (if i < 0 then CHR ''-'' # dec (nat (- i)) else dec (nat i))"

definition value_line :: "string \<Rightarrow> u32 \<Rightarrow> string" where
  "value_line key vallen =
     take 511 (''VALUE '' @ key @ '' 0 '' @ dec_int (sint vallen) @ '' 1'' @ [CR, LF])"

text \<open>
  \<open>QReply\<close>. The key is a C string; the two bytes behind the value in the block become CR LF. The
  loop that looks for a vector not yet written tests the newest one each time (\<open>index\<close>, not \<open>i\<close>),
  which \<open>AddIOVReply\<close> has marked, so it never finds one.
\<close>

definition QReply :: "store \<Rightarrow> aConn \<Rightarrow> ptr \<Rightarrow> char list \<Rightarrow> outcome list \<Rightarrow>
    (int \<times> outcome list \<times> store \<times> aConn) result option" where
  "QReply m c p key outs =
     (case load m p of Inl e \<Rightarrow> Some (Inl e) | Inr k \<Rightarrow>
      (let text = value_line (cstr key) (kv_vallen k);
           off = unat (kv_keylen k); e = off + unat (kv_vallen k) in
       if length (kvbytes k) < e + 2 then Some (Inl OutOfBounds)
       else
       (let m = m(p \<mapsto> k\<lparr>kvbytes := (kvbytes k)[e := CR, Suc e := LF]\<rparr>);
            (ix, next_ix) = atomicIncr2GetAdd (rep_index (iovReply c));
            c = c\<lparr>iovReply := (iovReply c)\<lparr>rep_index := next_ix\<rparr>\<rparr>; index = unat ix in
        case rbind (AddIOVReply c (Copied (text @ [NUL])) (length text) True index) (\<lambda>(s1, c).
             rbind (AddIOVReply c (Value p off) (unat (kv_vallen k + 2)) False (index + 1)) (\<lambda>(s2, c).
             Inr (s1 + s2, c))) of
          Inl e \<Rightarrow> Some (Inl e)
        | Inr (sz, c) \<Rightarrow>
          (let c = c\<lparr>totalsize := totalsize c + sz\<rparr>; y = windexlast c; count = of_nat (index + 1) - y in
           if totalsize c > 126 * 1024 \<or> count > 1024
           then map_option (\<lambda>r. rbind r (\<lambda>(ret, outs, c).
                  Inr (0, outs, m, if 0 < ret then c\<lparr>totalsize := totalsize c - word_of_int ret\<rparr> else c)))
                  (WriteIOVReply m c (unat y) (sint count) outs)
           else Some (Inr (0, outs, m, c))))))"

subsection \<open>What a partial write leaves\<close>

lemma iov_scan_found: "tmp \<noteq> 0 \<Longrightarrow>
    iov_scan w i tot tmp f ns = (tot + of_nat (sum_list ns), tmp, f)"
  by (induction ns arbitrary: i tot) (auto simp: Let_def)

lemma iov_scan_spec:
  assumes "t < w" "w \<le> t + sum_list ns" "t + sum_list ns < 2 ^ 32"
  shows "\<exists>j < length ns. t + sum_list (take j ns) < w \<and> w \<le> t + sum_list (take (Suc j) ns)
    \<and> iov_scan (of_nat w) i (of_nat t) 0 f ns =
        (of_nat (t + sum_list ns), of_nat (t + sum_list (take (Suc j) ns)), i + j)"
  using assms
proof (induction ns arbitrary: i t)
  case (Cons n ns)
  have l: "w < 2 ^ 32" "t + n < 2 ^ 32" using Cons.prems by auto
  show ?case
  proof (cases "w \<le> t + n")
    case True
    have "(of_nat (t + n) :: u32) \<noteq> 0"
      using unat_of_nat_small [OF l(2)] True Cons.prems(1) by (metis le_zero_eq not_less_zero unsigned_0)
    moreover have "(of_nat w :: u32) \<le> of_nat (t + n)" using word_le_of_nat l True by blast
    ultimately show ?thesis
      using True Cons.prems(1)
      by (intro exI [of _ 0]) (simp add: Let_def iov_scan_found add.assoc)
  next
    case False
    then have "\<not> (of_nat w :: u32) \<le> of_nat (t + n)" using word_le_of_nat l by blast
    moreover obtain j where j: "j < length ns" "t + n + sum_list (take j ns) < w"
      "w \<le> t + n + sum_list (take (Suc j) ns)"
      "iov_scan (of_nat w) (Suc i) (of_nat (t + n)) 0 f ns =
        (of_nat (t + n + sum_list ns), of_nat (t + n + sum_list (take (Suc j) ns)), Suc i + j)"
      using Cons.IH [of "t + n" "Suc i"] Cons.prems False by auto
    ultimately show ?thesis
      by (intro exI [of _ "Suc j"]) (simp add: Let_def add.assoc)
  qed
qed simp

lemma iov_scan_from_0:
  assumes "0 < w" "w \<le> N" "N < 2 ^ 32" "sum_list ns = N"
  shows "\<exists>j < length ns. sum_list (take j ns) < w \<and> w \<le> sum_list (take (Suc j) ns)
    \<and> iov_scan (of_nat w) 0 0 0 0 ns = (of_nat N, of_nat (sum_list (take (Suc j) ns)), j)"
  using iov_scan_spec [of 0 w ns 0 0] assms by simp

lemma iov_bytes_length: "iov_bytes m b n = Inr x \<Longrightarrow> length x = n"
  by (auto simp: iov_bytes_def split: if_splits iobase.splits option.splits)

lemma gather_length: "gather m bs ns = Inr D \<Longrightarrow> length bs = length ns \<Longrightarrow> length D = sum_list ns"
  by (induction m bs ns arbitrary: D rule: gather.induct)
    (auto simp: rbind_eq_Inr_iff dest: iov_bytes_length)

lemma gather_drop: "gather m bs ns = Inr D \<Longrightarrow> length bs = length ns \<Longrightarrow>
    gather m (drop k bs) (drop k ns) = Inr (drop (sum_list (take k ns)) D)"
proof (induction m bs ns arbitrary: D k rule: gather.induct)
  case (1 m b bs n ns)
  then obtain x y where "iov_bytes m b n = Inr x" "gather m bs ns = Inr y" "D = x @ y"
    by (auto simp: rbind_eq_Inr_iff)
  with 1 show ?case by (cases k) (auto dest: iov_bytes_length)
qed simp_all

lemma iov_bytes_advance:
  "iov_bytes m b n = Inr x \<Longrightarrow> s \<le> n \<Longrightarrow> iov_bytes m (advance s b) (n - s) = Inr (drop s x)"
  by (cases b) (auto simp: iov_bytes_def drop_take add.commute split: if_splits option.splits)

lemma gather_append: "length bs = length ns \<Longrightarrow> gather m (bs @ bs') (ns @ ns') =
    rbind (gather m bs ns) (\<lambda>x. rbind (gather m bs' ns') (\<lambda>y. Inr (x @ y)))"
proof (induction bs ns rule: list_induct2)
  case (Cons b bs n ns)
  then show ?case
    by (cases "iov_bytes m b n"; cases "gather m bs ns"; cases "gather m bs' ns'") simp_all
qed (cases "gather m bs' ns'"; simp)

lemma gather_zeros: "\<forall>n \<in> set ns. n = 0 \<Longrightarrow> gather m bs ns = Inr []"
  by (induction m bs ns rule: gather.induct) (auto simp: iov_bytes_def)

text \<open>
  \<open>queued m c e t D\<close>: the vectors from \<open>e\<close> to \<open>t\<close> hold the bytes \<open>D\<close>, and those behind are empty.
\<close>

definition lens :: "aConn \<Rightarrow> nat \<Rightarrow> nat \<Rightarrow> nat list" where
  "lens c e t = take (t - e) (drop e (rep_len (iovReply c)))"

definition bases :: "aConn \<Rightarrow> nat \<Rightarrow> nat \<Rightarrow> iobase list" where
  "bases c e t = take (t - e) (drop e (rep_base (iovReply c)))"

definition queued :: "store \<Rightarrow> aConn \<Rightarrow> nat \<Rightarrow> nat \<Rightarrow> char list \<Rightarrow> bool" where
  "queued m c e t D \<longleftrightarrow> length (rep_base (iovReply c)) = REPLY_SIZE \<and> length (rep_len (iovReply c)) = REPLY_SIZE
     \<and> e \<le> t \<and> t \<le> REPLY_SIZE \<and> gather m (bases c e t) (lens c e t) = Inr D
     \<and> (\<forall>i. t \<le> i \<and> i < REPLY_SIZE \<longrightarrow> rep_len (iovReply c) ! i = 0)"

lemma queued_length: "queued m c e t D \<Longrightarrow> sum_list (lens c e t) = length D"
  using gather_length [of m "bases c e t" "lens c e t" D] by (simp add: queued_def bases_def lens_def)

lemma window_split:
  assumes "e \<le> t" "t \<le> e + k" "e + k \<le> length xs"
  shows "take k (drop e xs) = take (t - e) (drop e xs) @ take (e + k - t) (drop t xs)"
proof -
  have "k = (t - e) + (e + k - t)" using assms by simp
  then have "take k (drop e xs) = take ((t - e) + (e + k - t)) (drop e xs)" by simp
  also have "\<dots> = take (t - e) (drop e xs) @ take (e + k - t) (drop (t - e) (drop e xs))"
    by (rule take_add)
  finally show ?thesis using assms by simp
qed

lemma queued_window:
  assumes "queued m c e t D" "t \<le> e + cnt" "e + cnt \<le> REPLY_SIZE"
  shows "\<exists>zs. rep_window c e cnt = Inr (bases c e t @ take (e + cnt - t) (drop t (rep_base (iovReply c))), lens c e t @ zs)
    \<and> (\<forall>z \<in> set zs. z = 0) \<and> reply_bytes m c e cnt = Inr D"
proof -
  let ?zs = "take (e + cnt - t) (drop t (rep_len (iovReply c)))"
  have q: "length (rep_base (iovReply c)) = REPLY_SIZE" "length (rep_len (iovReply c)) = REPLY_SIZE"
    "e \<le> t" "t \<le> REPLY_SIZE" "gather m (bases c e t) (lens c e t) = Inr D"
    and zero: "\<forall>i. t \<le> i \<and> i < REPLY_SIZE \<longrightarrow> rep_len (iovReply c) ! i = 0"
    using assms(1) by (simp_all add: queued_def)
  have z: "\<forall>z \<in> set ?zs. z = 0"
  proof
    fix z assume "z \<in> set ?zs"
    then obtain i where i: "i < e + cnt - t" "i < REPLY_SIZE - t" "z = rep_len (iovReply c) ! (t + i)"
      using q by (auto simp: in_set_conv_nth)
    then have "t \<le> t + i \<and> t + i < REPLY_SIZE" by linarith
    with zero [rule_format, OF this] i(3) show "z = 0" by simp
  qed
  have w: "rep_window c e cnt = Inr (bases c e t @ take (e + cnt - t) (drop t (rep_base (iovReply c))), lens c e t @ ?zs)"
    using assms(2,3) q window_split [of e t cnt "rep_base (iovReply c)"] window_split [of e t cnt "rep_len (iovReply c)"]
    by (simp add: rep_window_def bases_def lens_def)
  have len: "length (bases c e t) = length (lens c e t)" using q by (simp add: bases_def lens_def)
  have "gather m (bases c e t @ take (e + cnt - t) (drop t (rep_base (iovReply c)))) (lens c e t @ ?zs) = Inr D"
    unfolding gather_append [OF len] q(5) gather_zeros [OF z] by simp
  then have "reply_bytes m c e cnt = Inr D"
    by (simp only: reply_bytes_def w rbind_Inr prod.case)
  with w z show ?thesis by blast
qed

text \<open>A number of bytes that ends at the end of a vector.\<close>

definition boundary :: "aConn \<Rightarrow> nat \<Rightarrow> nat \<Rightarrow> nat \<Rightarrow> bool" where
  "boundary c e t x \<longleftrightarrow> (\<exists>k \<le> t - e. sum_list (take k (lens c e t)) = x)"

lemma sum_take_mono: "j \<le> k \<Longrightarrow> sum_list (take j ns) \<le> sum_list (take k (ns :: nat list))"
  by (metis le_add_diff_inverse le_add1 sum_list_append take_add)

lemma sum_take_append_zero: "\<forall>z \<in> set zs. z = (0 :: nat) \<Longrightarrow>
    sum_list (take k (ns @ zs)) = sum_list (take k ns)"
  by (simp add: sum_list_eq_0_iff) (metis in_set_takeD)

lemma sum_take_Suc: "j < length ns \<Longrightarrow> sum_list (take (Suc j) ns) = sum_list (take j ns) + (ns ! j :: nat)"
  by (simp add: take_Suc_conv_app_nth)

text \<open>What \<open>CheckIOVTotalWritten\<close> finds when \<open>w\<close> of the queued bytes were written.\<close>

lemma check_cases:
  assumes q: "queued m c e t D" and win: "t \<le> e + cnt" "e + cnt \<le> REPLY_SIZE"
    and w: "0 < w" "w \<le> length D" "length D < 2 ^ 32"
  shows "\<exists>j < t - e. sum_list (take j (lens c e t)) < w \<and> w \<le> sum_list (take (Suc j) (lens c e t))
    \<and> CheckIOVTotalWritten c e cnt (of_nat w) = Inr
       (if w = sum_list (take (Suc j) (lens c e t)) then (True, Some (e + j + 1), of_nat (length D), c)
        else (False, Some (e + j), of_nat (length D),
          c\<lparr>iovReply := (iovReply c)\<lparr>
            rep_base := (rep_base (iovReply c))[e + j := advance (w - sum_list (take j (lens c e t))) (rep_base (iovReply c) ! (e + j))],
            rep_len := (rep_len (iovReply c))[e + j := rep_len (iovReply c) ! (e + j) - (w - sum_list (take j (lens c e t)))]\<rparr>\<rparr>))"
proof -
  obtain zs where zs: "rep_window c e cnt =
      Inr (bases c e t @ take (e + cnt - t) (drop t (rep_base (iovReply c))), lens c e t @ zs)"
    "\<forall>z \<in> set zs. z = 0"
    using queued_window [OF q win] by blast
  have q': "length (rep_len (iovReply c)) = REPLY_SIZE" "e \<le> t" "t \<le> REPLY_SIZE"
    using q by (simp_all add: queued_def)
  then have ll: "length (lens c e t) = t - e" by (simp add: lens_def)
  have sum: "sum_list (lens c e t @ zs) = length D"
    using queued_length [OF q] zs(2) by simp
  obtain j where j: "j < length (lens c e t @ zs)" "sum_list (take j (lens c e t @ zs)) < w"
    "w \<le> sum_list (take (Suc j) (lens c e t @ zs))"
    "iov_scan (of_nat w) 0 0 0 0 (lens c e t @ zs) =
      (of_nat (length D), of_nat (sum_list (take (Suc j) (lens c e t @ zs))), j)"
    using iov_scan_from_0 [OF w sum] by blast
  let ?s = "\<lambda>k. sum_list (take k (lens c e t))"
  have j': "?s j < w" "w \<le> ?s (Suc j)" "iov_scan (of_nat w) 0 0 0 0 (lens c e t @ zs) =
      (of_nat (length D), of_nat (?s (Suc j)), j)"
    using j(2-4) by (simp_all only: sum_take_append_zero [OF zs(2)])
  have jl: "j < t - e"
  proof (rule ccontr)
    assume "\<not> j < t - e"
    then have "take j (lens c e t) = lens c e t" "take (Suc j) (lens c e t) = lens c e t"
      using ll by simp_all
    with j'(1,2) show False by simp
  qed
  have le: "?s (Suc j) \<le> length D"
    using sum_take_mono [of "Suc j" "t - e" "lens c e t"] jl queued_length [OF q] ll by simp
  then have l32: "w < 2 ^ 32" "?s (Suc j) < 2 ^ 32" using w by auto
  have nth: "rep_len (iovReply c) ! (e + j) = lens c e t ! j" using jl q' by (simp add: lens_def)
  have suc: "?s (Suc j) = ?s j + lens c e t ! j" using sum_take_Suc jl ll by simp
  have tmp: "(of_nat (?s (Suc j)) :: u32) \<noteq> 0"
    using unat_of_nat_small [OF l32(2)] j'(2) w(1) by (metis le_zero_eq not_less_zero unsigned_0)
  have eq: "(of_nat (?s (Suc j)) = (of_nat w :: u32)) \<longleftrightarrow> w = ?s (Suc j)"
    using unat_of_nat_small [OF l32(1)] unat_of_nat_small [OF l32(2)] by metis
  have lt: "(of_nat w < (of_nat (?s (Suc j)) :: u32)) \<longleftrightarrow> w < ?s (Suc j)"
    by (rule word_less_of_nat [OF l32])
  have seek: "unat (of_nat w - (of_nat (?s (Suc j)) - of_nat (lens c e t ! j)) :: u32) = w - ?s j"
  proof -
    have "(of_nat w - (of_nat (?s (Suc j)) - of_nat (lens c e t ! j)) :: u32) = of_nat (w - ?s j)"
      using suc j'(1) by (simp add: of_nat_diff)
    moreover have "unat (of_nat (w - ?s j) :: u32) = w - ?s j"
      by (rule unat_of_nat_small) (use l32 in simp)
    ultimately show ?thesis by simp
  qed
  have "e + j < length (rep_len (iovReply c))" using jl q' by simp
  then have "CheckIOVTotalWritten c e cnt (of_nat w) = Inr
       (if w = ?s (Suc j) then (True, Some (e + j + 1), of_nat (length D), c)
        else (False, Some (e + j), of_nat (length D),
          c\<lparr>iovReply := (iovReply c)\<lparr>
            rep_base := (rep_base (iovReply c))[e + j := advance (w - ?s j) (rep_base (iovReply c) ! (e + j))],
            rep_len := (rep_len (iovReply c))[e + j := rep_len (iovReply c) ! (e + j) - (w - ?s j)]\<rparr>\<rparr>))"
    using zs(1) j'(2,3) tmp eq lt seek
    by (simp add: CheckIOVTotalWritten_def Let_def nth del: take_Suc sum_list.Cons)
  with jl j'(1,2) show ?thesis by blast
qed

lemma check_done:
  assumes q: "queued m c e t D" and win: "t \<le> e + cnt" "e + cnt \<le> REPLY_SIZE"
    and w: "0 < w" "w \<le> length D" "length D < 2 ^ 32" and b: "boundary c e t w"
  shows "\<exists>i. CheckIOVTotalWritten c e cnt (of_nat w) = Inr (True, Some i, of_nat (length D), c)"
proof -
  from check_cases [OF q win w] obtain j where j: "j < t - e" "sum_list (take j (lens c e t)) < w"
    "w \<le> sum_list (take (Suc j) (lens c e t))"
    and run: "CheckIOVTotalWritten c e cnt (of_nat w) = Inr
       (if w = sum_list (take (Suc j) (lens c e t)) then (True, Some (e + j + 1), of_nat (length D), c)
        else (False, Some (e + j), of_nat (length D),
          c\<lparr>iovReply := (iovReply c)\<lparr>
            rep_base := (rep_base (iovReply c))[e + j := advance (w - sum_list (take j (lens c e t))) (rep_base (iovReply c) ! (e + j))],
            rep_len := (rep_len (iovReply c))[e + j := rep_len (iovReply c) ! (e + j) - (w - sum_list (take j (lens c e t)))]\<rparr>\<rparr>))"
    by blast
  obtain k where k: "sum_list (take k (lens c e t)) = w" using b by (auto simp: boundary_def)
  have "\<not> k \<le> j" using sum_take_mono [of k j "lens c e t"] j(2) k by linarith
  then have "sum_list (take (Suc j) (lens c e t)) \<le> w"
    using sum_take_mono [of "Suc j" k "lens c e t"] k by simp
  with j(3) have "w = sum_list (take (Suc j) (lens c e t))" by simp
  with run show ?thesis by simp
qed

lemma check_partial:
  assumes q: "queued m c e t D" and win: "t \<le> e + cnt" "e + cnt \<le> REPLY_SIZE"
    and w: "0 < w" "w \<le> length D" "length D < 2 ^ 32" and b: "\<not> boundary c e t w"
  shows "\<exists>e' c'. CheckIOVTotalWritten c e cnt (of_nat w) = Inr (False, Some e', of_nat (length D), c')
    \<and> e \<le> e' \<and> queued m c' e' t (drop w D) \<and> wire c' = wire c
    \<and> (\<forall>x > 0. boundary c' e' t x \<longrightarrow> boundary c e t (w + x))"
proof -
  let ?s = "\<lambda>k. sum_list (take k (lens c e t))"
  from check_cases [OF q win w] obtain j where j: "j < t - e" "?s j < w" "w \<le> ?s (Suc j)"
    and run: "CheckIOVTotalWritten c e cnt (of_nat w) = Inr
       (if w = ?s (Suc j) then (True, Some (e + j + 1), of_nat (length D), c)
        else (False, Some (e + j), of_nat (length D),
          c\<lparr>iovReply := (iovReply c)\<lparr>
            rep_base := (rep_base (iovReply c))[e + j := advance (w - ?s j) (rep_base (iovReply c) ! (e + j))],
            rep_len := (rep_len (iovReply c))[e + j := rep_len (iovReply c) ! (e + j) - (w - ?s j)]\<rparr>\<rparr>))"
    by blast
  have ne: "w \<noteq> ?s (Suc j)" using b j(1) unfolding boundary_def by (metis Suc_leI)
  define r where "r = w - ?s j"
  define c' where "c' = c\<lparr>iovReply := (iovReply c)\<lparr>
            rep_base := (rep_base (iovReply c))[e + j := advance r (rep_base (iovReply c) ! (e + j))],
            rep_len := (rep_len (iovReply c))[e + j := rep_len (iovReply c) ! (e + j) - r]\<rparr>\<rparr>"
  have q': "length (rep_base (iovReply c)) = REPLY_SIZE" "length (rep_len (iovReply c)) = REPLY_SIZE"
    "e \<le> t" "t \<le> REPLY_SIZE" "gather m (bases c e t) (lens c e t) = Inr D"
    "\<forall>i. t \<le> i \<and> i < REPLY_SIZE \<longrightarrow> rep_len (iovReply c) ! i = 0"
    using q by (simp_all add: queued_def)
  have ll: "length (lens c e t) = t - e" "length (bases c e t) = t - e" using q' by (simp_all add: lens_def bases_def)
  obtain n ns where n: "drop j (lens c e t) = n # ns" using j(1) ll by (cases "drop j (lens c e t)") auto
  obtain b0 bs where bb: "drop j (bases c e t) = b0 # bs" using j(1) ll by (cases "drop j (bases c e t)") auto
  have at: "lens c e t ! j = n" "bases c e t ! j = b0"
    using n bb j(1) ll by (metis nth_via_drop)+
  have at': "rep_len (iovReply c) ! (e + j) = n" "rep_base (iovReply c) ! (e + j) = b0"
    using at j(1) q' by (simp_all add: lens_def bases_def)
  have rn: "r < n" "0 < r" using j ne at(1) sum_take_Suc [of j "lens c e t"] ll by (auto simp: r_def)
  have nl: "lens c' (e + j) t = (n - r) # ns"
    using n j(1) q' at'(1) unfolding lens_def c'_def
    by (simp add: drop_update_swap take_update_swap drop_take add.commute)
  have nb: "bases c' (e + j) t = advance r b0 # bs"
    using bb j(1) q' at'(2) unfolding bases_def c'_def
    by (simp add: drop_update_swap take_update_swap drop_take add.commute)
  have g: "gather m (b0 # bs) (n # ns) = Inr (drop (?s j) D)"
    using gather_drop [OF q'(5), of j] n bb ll by simp
  then obtain x y where xy: "iov_bytes m b0 n = Inr x" "gather m bs ns = Inr y" "drop (?s j) D = x @ y"
    by (auto simp: rbind_eq_Inr_iff)
  have "gather m (bases c' (e + j) t) (lens c' (e + j) t) = Inr (drop r x @ y)"
    using nl nb xy iov_bytes_advance [OF xy(1), of r] rn by simp
  moreover have "drop r x @ y = drop w D"
  proof -
    have "length x = n" using xy(1) by (rule iov_bytes_length)
    then have "drop r x @ y = drop r (x @ y)" using rn by simp
    also have "\<dots> = drop r (drop (?s j) D)" by (simp only: xy(3))
    also have "\<dots> = drop w D" using j(2) by (simp add: r_def)
    finally show ?thesis .
  qed
  ultimately have "queued m c' (e + j) t (drop w D)"
    using q' j(1) by (auto simp: queued_def c'_def nth_list_update)
  moreover have "boundary c e t (w + x)" if x: "0 < x" "boundary c' (e + j) t x" for x
  proof -
    obtain k where k: "k \<le> t - (e + j)" "sum_list (take k ((n - r) # ns)) = x"
      using x(2) nl by (auto simp: boundary_def)
    with x(1) obtain i where i: "k = Suc i" by (cases k) auto
    have "take (j + k) (lens c e t) = take j (lens c e t) @ take k (n # ns)"
      using n by (simp add: take_add)
    then have "?s (j + k) = ?s j + n + sum_list (take i ns)" using i by simp
    also have "\<dots> = w + x" using k(2) i rn j(2) by (simp add: r_def)
    finally show ?thesis using k(1) j(1) unfolding boundary_def by (intro exI [of _ "j + k"]) linarith
  qed
  moreover have "CheckIOVTotalWritten c e cnt (of_nat w) = Inr (False, Some (e + j), of_nat (length D), c')"
    using run ne by (simp add: c'_def r_def)
  ultimately show ?thesis by (intro exI [of _ "e + j"] exI [of _ c']) (simp add: c'_def)
qed

lemma queued_wire [simp]: "queued m (c\<lparr>wire := x\<rparr>) e t D = queued m c e t D"
  "boundary (c\<lparr>wire := x\<rparr>) e t n = boundary c e t n"
  by (simp_all add: queued_def bases_def lens_def boundary_def)

lemma transmit_queued:
  assumes "queued m c e t D" "t \<le> e + cnt" "e + cnt \<le> REPLY_SIZE"
  shows "transmit m c e cnt n = Inr (c\<lparr>wire := wire c @ take n D\<rparr>)"
  using queued_window [OF assms] by (auto simp: transmit_def)

lemma write_all_sent:
  assumes "queued m c e t D" "t \<le> e + cnt" "t + cnt \<le> REPLY_SIZE" "length D < 2 ^ 32"
    and "xs \<noteq> []" "\<forall>x \<in> set xs. 0 < x" "sum_list xs = length D"
    and "\<forall>k. 0 < k \<and> k < length xs \<longrightarrow> \<not> boundary c e t (sum_list (take k xs))"
  shows "\<exists>c'. write_all m c e cnt tot (map Sent xs @ outs) sels = Some (Inr (tot + int (length D), outs, c'))
    \<and> wire c' = wire c @ D"
  using assms
proof (induction xs arbitrary: c e D tot)
  case (Cons x xs)
  have et: "e \<le> t" using Cons.prems(1) by (simp add: queued_def)
  then have win: "e + cnt \<le> REPLY_SIZE" using Cons.prems(3) by simp
  have x: "0 < x" "x \<le> length D" using Cons.prems(6,7) by auto
  let ?c = "c\<lparr>wire := wire c @ take x D\<rparr>"
  note tr = transmit_queued [OF Cons.prems(1,2) win, of x]
  have q: "queued m ?c e t D" using Cons.prems(1) by simp
  show ?case
  proof (cases "xs = []")
    case True
    then have "x = length D" using Cons.prems(7) by simp
    moreover have "boundary ?c e t (length D)"
      using queued_length [OF Cons.prems(1)] by (auto simp: boundary_def lens_def intro!: exI [of _ "t - e"])
    ultimately show ?thesis
      using True tr x check_done [OF q Cons.prems(2) win x Cons.prems(4)] by auto
  next
    case False
    have nb: "\<not> boundary ?c e t x" using Cons.prems(8) [rule_format, of 1] False by simp
    obtain e' c' where c': "CheckIOVTotalWritten ?c e cnt (of_nat x) = Inr (False, Some e', of_nat (length D), c')"
      "e \<le> e'" "queued m c' e' t (drop x D)" "wire c' = wire c @ take x D"
      "\<forall>y > 0. boundary c' e' t y \<longrightarrow> boundary c e t (x + y)"
      using check_partial [OF q Cons.prems(2) win x Cons.prems(4) nb] by auto
    have "\<exists>c2. write_all m c' e' cnt (tot + int x) (map Sent xs @ outs) sels =
        Some (Inr (tot + int x + int (length (drop x D)), outs, c2)) \<and> wire c2 = wire c' @ drop x D"
    proof (rule Cons.IH [OF c'(3)])
      show "t \<le> e' + cnt" "t + cnt \<le> REPLY_SIZE" "length (drop x D) < 2 ^ 32" "xs \<noteq> []"
        "\<forall>x \<in> set xs. 0 < x" "sum_list xs = length (drop x D)"
        using c'(2) Cons.prems False by auto
      show "\<forall>k. 0 < k \<and> k < length xs \<longrightarrow> \<not> boundary c' e' t (sum_list (take k xs))"
      proof (intro allI impI notI)
        fix k assume k: "0 < k \<and> k < length xs" "boundary c' e' t (sum_list (take k xs))"
        then have "0 < sum_list (take k xs)" using Cons.prems(6) by (cases xs; cases k) auto
        with c'(5) k(2) have "boundary c e t (x + sum_list (take k xs))" by blast
        with Cons.prems(8) [rule_format, of "Suc k"] k(1) show False by simp
      qed
    qed
    then show ?thesis using tr c'(1,4) x by auto
  qed
qed simp

lemma write_all_stops:
  assumes "queued m c e t D" "t \<le> e + cnt" "e + cnt \<le> REPLY_SIZE" "length D < 2 ^ 32"
    and "0 < x" "x \<le> length D" "boundary c e t x"
  shows "write_all m c e cnt tot (Sent x # outs) sels =
    Some (Inr (tot + int x, outs, c\<lparr>wire := wire c @ take x D\<rparr>))"
proof -
  have "queued m (c\<lparr>wire := wire c @ take x D\<rparr>) e t D" "boundary (c\<lparr>wire := wire c @ take x D\<rparr>) e t x"
    using assms(1,7) by simp_all
  from check_done [OF this(1) assms(2,3,5,6,4) this(2)] transmit_queued [OF assms(1-3), of x] assms(5)
  show ?thesis by auto
qed

subsection \<open>Properties of sending\<close>

text \<open>
  \<open>CheckIOVTotalWritten\<close> after a write of a part of the queued bytes: when the part ends inside a
  vector, it returns false with the index of that vector, and the vectors from there on hold
  exactly the bytes that were not written; when it ends at the end of a vector, it returns true
  and leaves the vectors, whether or not there are more of them.
\<close>

theorem CheckIOVTotalWritten_remaining:
  assumes "queued m c e t D" "t \<le> e + cnt" "e + cnt \<le> REPLY_SIZE"
    and "0 < w" "w \<le> length D" "length D < 2 ^ 32"
  shows "if boundary c e t w
    then \<exists>i. CheckIOVTotalWritten c e cnt (of_nat w) = Inr (True, Some i, of_nat (length D), c)
    else \<exists>e' c'. CheckIOVTotalWritten c e cnt (of_nat w) = Inr (False, Some e', of_nat (length D), c')
      \<and> e \<le> e' \<and> queued m c' e' t (drop w D)"
  using check_done [OF assms] check_partial [OF assms] by auto

text \<open>A connection with two queued vectors.\<close>

definition reply_conn :: aConn where
  "reply_conn = fresh_conn\<lparr>iovReply := (iovReply fresh_conn)\<lparr>
     rep_base := (replicate REPLY_SIZE NullBase)[0 := Copied ''abc'', 1 := Copied ''de''],
     rep_len := (replicate REPLY_SIZE 0)[0 := 3, 1 := 2]\<rparr>\<rparr>"

lemma reply_conn_fields:
  "rep_base (iovReply reply_conn) = (replicate REPLY_SIZE NullBase)[0 := Copied ''abc'', Suc 0 := Copied ''de'']"
  "rep_len (iovReply reply_conn) = (replicate REPLY_SIZE 0)[0 := 3, Suc 0 := 2]"
  by (simp_all add: reply_conn_def)

lemma reply_conn_lens: "lens reply_conn 0 2 = [3, 2]" "bases reply_conn 0 2 = [Copied ''abc'', Copied ''de'']"
proof -
  have r: "take 2 ((replicate REPLY_SIZE x)[0 := a, Suc 0 := b]) = [a, b]" for x a b :: 'a
    by (rule nth_equalityI) (auto simp: less_2_cases_iff)
  show "lens reply_conn 0 2 = [3, 2]" "bases reply_conn 0 2 = [Copied ''abc'', Copied ''de'']"
    unfolding lens_def bases_def reply_conn_fields diff_zero drop_0 r by (rule refl)+
qed

lemma reply_conn_queued: "queued Map.empty reply_conn 0 2 ''abcde''"
  unfolding queued_def reply_conn_lens
proof (intro conjI allI impI)
  show "gather Map.empty [Copied ''abc'', Copied ''de''] [3, 2] = Inr ''abcde''"
    by (simp add: iov_bytes_def)
  fix i assume i: "2 \<le> i \<and> i < REPLY_SIZE"
  then show "rep_len (iovReply reply_conn) ! i = 0"
    unfolding reply_conn_fields by (simp add: nth_list_update)
qed (simp_all add: reply_conn_fields)

lemma reply_conn_boundary: "boundary reply_conn 0 2 x \<longleftrightarrow> x = 0 \<or> x = 3 \<or> x = 5"
proof -
  have e: "(\<exists>k \<le> 2. P k) \<longleftrightarrow> P 0 \<or> P 1 \<or> P (2 :: nat)" for P
    by (auto simp: le_Suc_eq numeral_2_eq_2)
  show ?thesis unfolding boundary_def reply_conn_lens diff_zero e
    by (simp add: eq_commute [of _ x])
qed

lemma CheckIOVTotalWritten_remaining_witness:
  "\<exists>e' c'. CheckIOVTotalWritten reply_conn 0 2 4 = Inr (False, Some e', 5, c') \<and> queued Map.empty c' e' 2 ''e''"
  using CheckIOVTotalWritten_remaining [OF reply_conn_queued, of 2 4] by (auto simp: reply_conn_boundary)

text \<open>
  C22: \<open>WriteAllOnce\<close> sends all that is queued, in order and once, when the kernel takes it in any number
  of pieces none of which, but the last, ends at the end of a vector: it returns the number of
  bytes queued.
\<close>

theorem WriteAllOnce_sends_everything:
  assumes "queued m c start t D" "t + (t - start) \<le> REPLY_SIZE" "length D < 2 ^ 32"
    and "xs \<noteq> []" "\<forall>x \<in> set xs. 0 < x" "sum_list xs = length D"
    and "\<forall>k. 0 < k \<and> k < length xs \<longrightarrow> \<not> boundary c start t (sum_list (take k xs))"
  shows "\<exists>c'. WriteAllOnce m c start (t - start) (map Sent xs @ outs) sels = Some (Inr (int (length D), outs, c'))
    \<and> wire c' = wire c @ D"
proof -
  have "t \<le> start + (t - start)" by simp
  from write_all_sent [OF assms(1) this assms(2-7), of 0 outs sels] show ?thesis
    by (simp add: WriteAllOnce_def)
qed

lemma WriteAllOnce_sends_everything_witness:
  "\<exists>c'. WriteAllOnce Map.empty reply_conn 0 2 [Sent 2, Sent 2, Sent 1] [] = Some (Inr (5, [], c'))
    \<and> wire c' = ''abcde''"
proof -
  have "\<forall>k. 0 < k \<and> k < length [2, 2, 1 :: nat] \<longrightarrow> \<not> boundary reply_conn 0 2 (sum_list (take k [2, 2, 1]))"
  proof (intro allI impI)
    fix k assume "0 < k \<and> k < length [2, 2, 1 :: nat]"
    then have "k = 1 \<or> k = 2" by auto
    then show "\<not> boundary reply_conn 0 2 (sum_list (take k [2, 2, 1]))" by (auto simp: reply_conn_boundary)
  qed
  from WriteAllOnce_sends_everything [OF reply_conn_queued _ _ _ _ _ this, of "[]" "[]"]
  show ?thesis by (simp add: reply_conn_def fresh_conn_simps)
qed

text \<open>
  C26: when the kernel takes a part of the bytes that ends at the end of a vector, \<open>WriteAllOnce\<close>
  takes this for all: it returns with the rest unsent.
\<close>

theorem WriteAllOnce_stops_at_vector_end:
  assumes "queued m c start t D" "t \<le> REPLY_SIZE" "length D < 2 ^ 32"
    and "0 < x" "x < length D" "boundary c start t x"
  shows "WriteAllOnce m c start (t - start) (Sent x # outs) sels =
    Some (Inr (int x, outs, c\<lparr>wire := wire c @ take x D\<rparr>))"
proof -
  have "start \<le> t" using assms(1) by (simp add: queued_def)
  then have "t \<le> start + (t - start)" "start + (t - start) \<le> REPLY_SIZE" using assms(2) by simp_all
  from write_all_stops [OF assms(1) this assms(3,4) _ assms(6), of 0] assms(5) show ?thesis
    by (simp add: WriteAllOnce_def)
qed

lemma WriteAllOnce_stops_at_vector_end_witness:
  "WriteAllOnce Map.empty reply_conn 0 2 [Sent 3, Sent 2] [] =
     Some (Inr (3, [Sent 2], reply_conn\<lparr>wire := wire reply_conn @ ''abc''\<rparr>))"
  using WriteAllOnce_stops_at_vector_end [OF reply_conn_queued, of 3 "[Sent 2]" "[]"]
  by (simp add: reply_conn_boundary)

subsection \<open>Properties of QReply\<close>

lemma copy_of_text: "NUL \<notin> set s \<Longrightarrow> copy_of (s @ [NUL]) (length s) = Inr (s @ [NUL])"
  by (simp add: copy_of_def cstr_append_NUL)

lemma NUL_value_line: "NUL \<notin> set key \<Longrightarrow> NUL \<notin> set (value_line key n)"
proof -
  have d: "NUL \<notin> set (dec k)" for k using all_digits_dec [of k] by (auto simp: all_digits_def digit_val_def)
  assume "NUL \<notin> set key"
  with d have "NUL \<notin> set (''VALUE '' @ key @ '' 0 '' @ dec_int (sint n) @ '' 1'' @ [CR, LF])"
    by (simp add: dec_int_def)
  then show ?thesis unfolding value_line_def by (meson in_set_takeD)
qed

lemma take_two: "Suc i < length xs \<Longrightarrow> take 2 (drop i xs) = [xs ! i, xs ! Suc i]"
  by (rule nth_equalityI) (auto simp: less_2_cases_iff)

lemma value_in_block:
  assumes "off + n + 2 \<le> length bs"
  shows "take (n + 2) (drop off (bs[off + n := a, Suc (off + n) := b])) = take n (drop off bs) @ [a, b]"
  using assms by (intro nth_equalityI) (auto simp: nth_append nth_list_update less_Suc_eq nth_Cons')

text \<open>A reply vector after \<open>AddIOVReply\<close>.\<close>

definition reply_at :: "nat \<Rightarrow> iobase \<Rightarrow> nat \<Rightarrow> bool \<Rightarrow> aConn \<Rightarrow> aConn" where
  "reply_at i b n copied c = (let r = iovReply c in
     c\<lparr>iovReply := r\<lparr>rep_base := (rep_base r)[i := b], rep_base2 := (rep_base2 r)[i := b],
       rep_len := (rep_len r)[i := n],
       rep_desc := (rep_desc r)[i := insert REPLY_WRITTEN
         (if copied then insert REPLY_MALLOC (rep_desc r ! i) else rep_desc r ! i)]\<rparr>\<rparr>)"

lemma AddIOVReply_copy:
  assumes "NUL \<notin> set txt" "i < length (rep_base (iovReply c))" "n = length txt"
  shows "AddIOVReply c (Copied txt) n True i = Inr (of_nat n, reply_at i (Copied (txt @ [NUL])) n True c)"
  using assms by (simp add: AddIOVReply_def Let_def copy_of_def cstr_no_NUL reply_at_def)

lemma AddIOVReply_value:
  "i < length (rep_base (iovReply c)) \<Longrightarrow> AddIOVReply c b n False i = Inr (of_nat n, reply_at i b n False c)"
  by (simp add: AddIOVReply_def Let_def reply_at_def)

lemma reply_at_ok: "conn_ok c \<Longrightarrow> conn_ok (reply_at i b n cp c)"
  by (simp add: conn_ok_def reply_at_def Let_def)

text \<open>A block whose value is followed by CR LF, and a connection in which it is queued.\<close>

definition crlf :: "KVdata \<Rightarrow> KVdata" where
  "crlf k = (let e = unat (kv_keylen k) + unat (kv_vallen k) in
     k\<lparr>kvbytes := (kvbytes k)[e := CR, Suc e := LF]\<rparr>)"

definition queue_value :: "string \<Rightarrow> ptr \<Rightarrow> KVdata \<Rightarrow> nat \<Rightarrow> aConn \<Rightarrow> aConn" where
  "queue_value line p k i c =
     (let n = unat (kv_vallen k); c = c\<lparr>iovReply := (iovReply c)\<lparr>rep_index := of_nat i + 2\<rparr>\<rparr>;
          c = reply_at i (Copied (line @ [NUL])) (length line) True c;
          c = reply_at (i + 1) (Value p (unat (kv_keylen k))) (n + 2) False c
      in c\<lparr>totalsize := totalsize c + of_nat (length line + n + 2)\<rparr>)"

lemma queue_value_simps:
  "rep_index (iovReply (queue_value line p k i c)) = of_nat i + 2"
  "rep_base (iovReply (queue_value line p k i c)) =
     (rep_base (iovReply c))[i := Copied (line @ [NUL]), Suc i := Value p (unat (kv_keylen k))]"
  "rep_len (iovReply (queue_value line p k i c)) =
     (rep_len (iovReply c))[i := length line, Suc i := unat (kv_vallen k) + 2]"
  "totalsize (queue_value line p k i c) = totalsize c + of_nat (length line + unat (kv_vallen k) + 2)"
  by (simp_all add: queue_value_def reply_at_def Let_def)

lemma QReply_eq:
  assumes k: "m p = Some k" "unat (kv_keylen k) + unat (kv_vallen k) + 2 \<le> length (kvbytes k)"
    and v: "unat (kv_vallen k) + 2 < 2 ^ 32" and ok: "conn_ok c" and i: "rep_index (iovReply c) = of_nat i"
    "windexlast c = 0" "i < 1000" and key: "NUL \<notin> set key" "cstr buf = key"
    and small: "unat (totalsize c) + length (value_line key (kv_vallen k)) + unat (kv_vallen k) + 2 \<le> 126 * 1024"
  shows "QReply m c p buf outs =
    Some (Inr (0, outs, m(p \<mapsto> crlf k), queue_value (value_line key (kv_vallen k)) p k i c))"
    and "unat (totalsize (queue_value (value_line key (kv_vallen k)) p k i c)) =
      unat (totalsize c) + length (value_line key (kv_vallen k)) + unat (kv_vallen k) + 2"
proof -
  let ?t = "value_line key (kv_vallen k)" and ?n = "unat (kv_vallen k)" and ?kl = "unat (kv_keylen k)"
  let ?c = "queue_value ?t p k i c"
  let ?c1 = "c\<lparr>iovReply := (iovReply c)\<lparr>rep_index := of_nat i + 2\<rparr>\<rparr>"
  let ?c2 = "reply_at i (Copied (?t @ [NUL])) (length ?t) True ?c1"
  let ?c3 = "reply_at (i + 1) (Value p ?kl) (?n + 2) False ?c2"
  have lens: "length (rep_base (iovReply c)) = REPLY_SIZE" using ok by (simp add: conn_ok_def)
  have ui: "unat (rep_index (iovReply c)) = i" using i(1,3) unat_of_nat_small [of i] by simp
  have un: "unat (kv_vallen k + 2) = ?n + 2" using v unat_plus_small [of "kv_vallen k" 2] by simp
  have a1: "AddIOVReply ?c1 (Copied (?t @ [NUL])) (length ?t) True i = Inr (of_nat (length ?t), ?c2)"
    using copy_of_text [OF NUL_value_line [OF key(1)]] lens i(3)
    by (simp add: AddIOVReply_def Let_def reply_at_def)
  have a2: "AddIOVReply ?c2 (Value p ?kl) (?n + 2) False (i + 1) = Inr (of_nat (?n + 2), ?c3)"
    using lens i(3) by (intro AddIOVReply_value) (simp add: reply_at_def Let_def)
  have tot: "totalsize ?c = of_nat (unat (totalsize c) + length ?t + ?n + 2)"
    by (simp add: queue_value_simps algebra_simps)
  have "unat (totalsize c) + length ?t + ?n + 2 < 2 ^ 32" using small by simp
  then show ts: "unat (totalsize ?c) = unat (totalsize c) + length ?t + ?n + 2"
    unfolding tot by (rule unat_of_nat_small)
  then have le: "\<not> totalsize ?c > 126 * 1024" using small by (simp add: word_less_nat_alt)
  have ix: "\<not> (of_nat (i + 1) :: u32) - windexlast c > 1024"
    using i(2,3) unat_of_nat_small [of "i + 1"] by (simp add: word_less_nat_alt)
  have eq: "?c = ?c3\<lparr>totalsize := totalsize c + (of_nat (length ?t) + of_nat (?n + 2))\<rparr>"
    "totalsize ?c3 = totalsize c" "windexlast ?c3 = windexlast c"
    by (simp_all add: queue_value_def reply_at_def Let_def algebra_simps)
  have ld: "load m p = Inr k" by (rule load_Some) (rule k(1))
  have len: "\<not> length (kvbytes k) < ?kl + ?n + 2" using k(2) by simp
  have wx: "windexlast (?c3\<lparr>totalsize := x\<rparr>) = windexlast c" for x using eq(3) by simp
  show "QReply m c p buf outs = Some (Inr (0, outs, m(p \<mapsto> crlf k), ?c))"
    using le unfolding QReply_def ld key(2) atomicIncr2GetAdd_def Let_def prod.case sum.case ui
    by (simp only: i(1) a1 a2 un len ix eq wx if_False prod.case sum.case rbind_Inr Let_def crlf_def) (simp add: ix [simplified])
qed

lemma QReply_queued:
  assumes k: "m p = Some k" "unat (kv_keylen k) + unat (kv_vallen k) + 2 \<le> length (kvbytes k)"
    and v: "unat (kv_vallen k) + 2 < 2 ^ 32" and ok: "conn_ok c" and i: "rep_index (iovReply c) = of_nat i"
    "windexlast c = 0" "i < 1000" and key: "NUL \<notin> set key"
    and small: "unat (totalsize c) + length (value_line key (kv_vallen k)) + unat (kv_vallen k) + 2 \<le> 126 * 1024"
  defines "text \<equiv> value_line key (kv_vallen k)" and "kl \<equiv> unat (kv_keylen k)" and "n \<equiv> unat (kv_vallen k)"
  shows "\<exists>c'. QReply m c p (key @ [NUL]) outs =
      Some (Inr (0, outs, m(p \<mapsto> k\<lparr>kvbytes := (kvbytes k)[kl + n := CR, Suc (kl + n) := LF]\<rparr>), c'))
    \<and> rep_index (iovReply c') = of_nat (i + 2) \<and> unat (totalsize c') = unat (totalsize c) + length text + n + 2
    \<and> rep_window c' i 2 = Inr ([Copied (text @ [NUL]), Value p kl], [length text, n + 2])"
proof -
  let ?c = "queue_value text p k i c"
  have kb: "cstr (key @ [NUL]) = key" using cstr_append_NUL [OF key, of "[]"] by simp
  have "length (rep_base (iovReply c)) = REPLY_SIZE" "length (rep_len (iovReply c)) = REPLY_SIZE"
    using ok by (simp_all add: conn_ok_def)
  then have "rep_window ?c i 2 = Inr ([Copied (text @ [NUL]), Value p kl], [length text, n + 2])"
    using i(3) by (simp add: rep_window_def queue_value_simps take_two kl_def n_def)
  then show ?thesis
    using QReply_eq(1) [where m = m and p = p and buf = "key @ [NUL]", OF k v ok i key kb small, of outs]
      QReply_eq(2) [where m = m and p = p and buf = "key @ [NUL]", OF k v ok i key kb small]
    by (intro exI [of _ ?c]) (simp add: queue_value_simps(1) crlf_def Let_def text_def kl_def n_def)
qed

text \<open>
  C25: \<open>QReply\<close> on a live block queues two vectors, at the next two indices: the line
  \<open>VALUE key 0 length 1\<close>, in a copy, and the value with CR LF behind it, in the block itself. It adds
  their size to \<open>totalsize\<close> and returns 0, sending nothing while at most 126 KB are queued, in few vectors.
\<close>

theorem QReply_queues_value:
  assumes "m p = Some k" "unat (kv_keylen k) + unat (kv_vallen k) + 2 \<le> length (kvbytes k)"
    and "unat (kv_vallen k) + 2 < 2 ^ 32" "conn_ok c" "rep_index (iovReply c) = of_nat i"
    and "windexlast c = 0" "i < 1000" "NUL \<notin> set key"
    and "unat (totalsize c) + length (value_line key (kv_vallen k)) + unat (kv_vallen k) + 2 \<le> 126 * 1024"
  shows "\<exists>m' c'. QReply m c p (key @ [NUL]) outs = Some (Inr (0, outs, m', c'))
    \<and> rep_index (iovReply c') = of_nat (i + 2)
    \<and> unat (totalsize c') =
        unat (totalsize c) + length (value_line key (kv_vallen k)) + unat (kv_vallen k) + 2
    \<and> reply_bytes m' c' i 2 = Inr (value_line key (kv_vallen k)
        @ take (unat (kv_vallen k)) (drop (unat (kv_keylen k)) (kvbytes k)) @ [CR, LF])"
proof -
  let ?text = "value_line key (kv_vallen k)" and ?kl = "unat (kv_keylen k)" and ?n = "unat (kv_vallen k)"
  let ?m = "m(p \<mapsto> k\<lparr>kvbytes := (kvbytes k)[?kl + ?n := CR, Suc (?kl + ?n) := LF]\<rparr>)"
  obtain c' where c': "QReply m c p (key @ [NUL]) outs = Some (Inr (0, outs, ?m, c'))"
    "rep_index (iovReply c') = of_nat (i + 2)"
    "unat (totalsize c') = unat (totalsize c) + length ?text + ?n + 2"
    "rep_window c' i 2 = Inr ([Copied (?text @ [NUL]), Value p ?kl], [length ?text, ?n + 2])"
    using QReply_queued [where m = m, OF assms, of outs] by blast
  have "iov_bytes ?m (Value p ?kl) (?n + 2) = Inr (take ?n (drop ?kl (kvbytes k)) @ [CR, LF])"
    using assms(2) value_in_block [OF assms(2), of CR LF] by (simp add: iov_bytes_def)
  moreover have "iov_bytes ?m (Copied (?text @ [NUL])) (length ?text) = Inr ?text"
    by (auto simp: iov_bytes_def)
  ultimately have "reply_bytes ?m c' i 2 = Inr (?text @ take ?n (drop ?kl (kvbytes k)) @ [CR, LF])"
    using c'(4) by (simp add: reply_bytes_def del: fun_upd_apply)
  with c' show ?thesis by blast
qed

text \<open>A block that holds the value \<open>x\<close> under the key \<open>ab\<close>.\<close>

definition ab_block :: KVdata where
  "ab_block = \<lparr>nxt = NULL, prv = NULL, kv_keylen = 2, kv_vallen = 1, kvbytes = ''abx'' @ [NUL, NUL]\<rparr>"

lemma ab_line: "value_line ''ab'' 1 = ''VALUE ab 0 1 1'' @ [CR, LF]"
proof -
  have "dec 1 = ''1''" by code_simp
  then show ?thesis by (simp add: value_line_def dec_int_def)
qed

lemma QReply_queues_value_witness:
  "\<exists>m' c'. QReply [5 \<mapsto> ab_block] fresh_conn 5 (''ab'' @ [NUL]) [] = Some (Inr (0, [], m', c'))
    \<and> reply_bytes m' c' 0 2 = Inr (''VALUE ab 0 1 1'' @ [CR, LF] @ ''x'' @ [CR, LF])"
proof -
  have "windexlast fresh_conn = 0" by (simp add: fresh_conn_def aConn_new_def aConn_Reset_def Let_def)
  then show ?thesis
    using QReply_queues_value [of "[5 \<mapsto> ab_block]" 5 ab_block fresh_conn 0 "''ab''" "[]"]
    by (auto simp: ab_block_def ab_line fresh_conn_ok fresh_conn_simps)
qed



end
