(* ===== verification/KVThread.thy ===== *)
theory KVThread
  imports ConnReq ConnReply
begin

section \<open>The worker threads (threadKVdata.cpp)\<close>

text \<open>
  What a worker does with one message. The handlers run here as a whole; how two workers interleave on
  the counters of one connection is the subject of another theory. \<open>outs\<close> and \<open>sels\<close> are what the
  kernel answers to \<open>sendmsg\<close> and \<open>select\<close>, \<open>pipe_ok\<close> whether the write to the pipe of the comm thread
  succeeds. \<open>None\<close> is a handler that waits for ever, or for an answer that is not in the list.
\<close>

subsection \<open>The block of a SET\<close>

text \<open>
  \<open>sizeof(KVdata)\<close> is 32, and \<open>data\<close> is at offset 24. The size is computed modulo \<open>2 ^ 32\<close> and passed on
  as an \<open>int\<close>; a negative one makes \<open>malloc\<close> fail.
\<close>

definition block_size :: "int \<Rightarrow> int \<Rightarrow> int" where
  "block_size klen vlen = sint (word_of_int (32 + klen + vlen + 2) :: u32)"

definition new_block :: "aMsg \<Rightarrow> KVdata result" where
  "new_block a =
     (let klen = hdr_keylen (am_hdr a); vlen = set_vallen (KVdataSet a); datasize = block_size klen vlen;
          kl = unat (word_of_int klen :: u32); vl = unat (word_of_int vlen :: u32) in
      if datasize < 0 then Inl NullDeref else if datasize < 24 then Inl OutOfBounds
      else rbind (read_at (hdr_key (am_hdr a)) 0 kl) (\<lambda>key.
        rbind (case cmdptr a of None \<Rightarrow> if vl = 0 then Inr [] else Inl NullDeref
               | Some b \<Rightarrow> read_at b 0 vl) (\<lambda>val.
        rbind (write_at (replicate (nat datasize - 24) NUL) 0 key) (\<lambda>bs.
        rbind (write_at bs kl val) (\<lambda>bs.
        Inr \<lparr>nxt = NULL, prv = NULL, kv_keylen = word_of_int klen, kv_vallen = word_of_int vlen,
          kvbytes = bs\<rparr>)))))"

subsection \<open>Completion of a command\<close>

text \<open>The counters of the reply are cleared.\<close>

definition clear_reply :: "aConn \<Rightarrow> aConn" where
  "clear_reply c = c\<lparr>windexlast := 0, totalsize := 0, iovReply := (iovReply c)\<lparr>rep_index := 0\<rparr>,
     replyCount := 0, writingflag := 0\<rparr>"

text \<open>When commands are pending, the comm thread is told.\<close>

definition check_pending :: "bool \<Rightarrow> ptr \<Rightarrow> server \<Rightarrow> server result" where
  "check_pending pipe_ok ac w =
     rbind (fetch (conns w) ac) (\<lambda>c.
       let (e, pq) = aSQempty (PendingCmdQ c); w = upd_conn ac (c\<lparr>PendingCmdQ := pq\<rparr>) w in
       if e then Inr w
       else (let (_, c, pipe) = CheckPendingCmdQ pipe_ok c (pipes w (aTcommptr c))
             in Inr (w\<lparr>pipes := (pipes w)(aTcommptr c := pipe)\<rparr>)))"

text \<open>The message is marked as done and goes back to the pool.\<close>

definition finish_msg :: "ptr \<Rightarrow> server \<Rightarrow> server result" where
  "finish_msg am w =
     rbind (fetch (msgs w) am) (\<lambda>a.
     Inr (snd (aMsgRelease (upd_msg am (aMsg_Init SUCCESS (am_aC a) (am_ctype a)) w) am)))"

subsection \<open>SET\<close>

definition STORED :: "char list" where "STORED = ''STORED'' @ [CR, LF]"
definition END_line :: "char list" where "END_line = ''END'' @ [CR, LF]"

text \<open>
  The reply: \<open>STORED\<close> is queued at the next index, and then the vector 0 is sent. What is sent is not
  looked at. Then the connection is free for its next command.
\<close>

definition set_reply :: "store \<Rightarrow> outcome list \<Rightarrow> aConn \<Rightarrow> (outcome list \<times> aConn) result option" where
  "set_reply m outs c =
     (let (ix, next_ix) = atomicIncrGetAdd (rep_index (iovReply c));
          c = c\<lparr>iovReply := (iovReply c)\<lparr>rep_index := next_ix\<rparr>\<rparr> in
      obind (Some (AddIOVReply c (Copied STORED) 8 True (unat ix))) (\<lambda>(_, c).
      obind (WriteAllOnceIMM m c 0 1 outs) (\<lambda>(_, outs, c).
      Some (Inr (outs, clear_reply (not_busy c))))))"

definition store_block :: "aMsg \<Rightarrow> server \<Rightarrow> server result option" where
  "store_block a w =
     obind (Some (new_block a)) (\<lambda>b.
       let p = brk w; h = ahashtableptr w; h = h\<lparr>mem := (mem h)(p \<mapsto> b)\<rparr> in
       obind (ahashtable_set h (hdr_hashval (am_hdr a)) p) (\<lambda>(_, h).
       Some (Inr (w\<lparr>brk := Suc p, ahashtableptr := h\<rparr>))))"

definition kv_set :: "bool \<Rightarrow> outcome list \<Rightarrow> ptr \<Rightarrow> server \<Rightarrow> (outcome list \<times> server) result option" where
  "kv_set pipe_ok outs am w =
     obind (Some (fetch (msgs w) am)) (\<lambda>a.
     obind (store_block a (upd_msg am (a\<lparr>cmdptr := None\<rparr>) w)) (\<lambda>w.
     obind (Some (fetch (conns w) (am_aC a))) (\<lambda>c.
     obind (set_reply (mem (ahashtableptr w)) outs c) (\<lambda>(outs, c).
     Some (rbind (check_pending pipe_ok (am_aC a) (upd_conn (am_aC a) c w)) (\<lambda>w.
       rbind (fetch (conns w) (am_aC a)) (\<lambda>c.
       rbind (finish_msg am (upd_conn (am_aC a) (snd (Revoke c)) w)) (\<lambda>w.
       Inr (outs, w)))))))))"

subsection \<open>GET\<close>

text \<open>One key: its value is queued, or the error type is set.\<close>

definition not_found_text :: "char list" where
  "not_found_text = ''CLIENT_ERROR NOT FOUND '' @ [CR, LF, NUL]"

definition gets_value :: "outcome list \<Rightarrow> ptr \<Rightarrow> server \<Rightarrow> (outcome list \<times> server) result option" where
  "gets_value outs am w =
     obind (Some (fetch (msgs w) am)) (\<lambda>a.
     obind (ahashtable_get (ahashtableptr w) (am_hdr a)) (\<lambda>(ret, hdr, h).
       let w = (upd_msg am (a\<lparr>am_hdr := hdr\<rparr>) w)\<lparr>ahashtableptr := h\<rparr> in
       obind (Some (fetch (conns w) (am_aC a))) (\<lambda>c.
       if ret < 0 then
         Some (Inr (outs, upd_conn (am_aC a) (snd (Revoke (c\<lparr>aerrtype := AERR_TYPE_APP_GETS\<rparr>)))
           (upd_msg am (a\<lparr>am_hdr := hdr,
              ErrBuf := not_found_text @ drop (length not_found_text) (ErrBuf a)\<rparr>) w)))
       else
         obind (QReply (mem h) c (hdr_KVdataptr hdr) (hdr_key hdr) outs) (\<lambda>(_, outs, m, c).
         Some (Inr (outs, upd_conn (am_aC a) (snd (Revoke c)) (w\<lparr>ahashtableptr := h\<lparr>mem := m\<rparr>\<rparr>)))))))"

text \<open>
  The reply is sent in pieces of at most \<open>IOV_MAX\<close> vectors; the total of what was sent is only logged.
  A piece of exactly \<open>IOV_MAX\<close> vectors is not the last even when nothing is left, and
  the next piece then has \<open>IOV_MAX\<close> vectors again.
\<close>

partial_function (option) write_chunks :: "store \<Rightarrow> aConn \<Rightarrow> nat \<Rightarrow> nat \<Rightarrow> outcome list \<Rightarrow> (int \<times> bool) list \<Rightarrow>
    (outcome list \<times> aConn) result option" where
  "write_chunks m c start count outs sels =
     (let newcount = min count IOV_MAX; rest = (if IOV_MAX < count then count - IOV_MAX else count) in
      case WriteAllOnce m c start newcount outs sels of
        None \<Rightarrow> None
      | Some (Inl e) \<Rightarrow> Some (Inl e)
      | Some (Inr (ret, outs, c)) \<Rightarrow>
          (if 0 < ret \<and> IOV_MAX \<le> newcount then write_chunks m c (start + newcount) rest outs sels
           else Some (Inr (outs, c))))"

text \<open>The vectors of the reply are cleared; the copies they pointed to are not freed.\<close>

definition clear_vectors :: "nat \<Rightarrow> aConn \<Rightarrow> aConn" where
  "clear_vectors n c = (let r = iovReply c in c\<lparr>iovReply := r\<lparr>
     rep_base := replicate n NullBase @ drop n (rep_base r), rep_base2 := replicate n NullBase @ drop n (rep_base2 r),
     rep_len := replicate n 0 @ drop n (rep_len r), rep_offset := replicate n 0 @ drop n (rep_offset r),
     rep_alloc := replicate n 0 @ drop n (rep_alloc r), rep_desc := replicate n {} @ drop n (rep_desc r)\<rparr>\<rparr>)"

text \<open>
  The end of a GET: \<open>END\<close> is queued and all is sent. The worker waits while another one writes
  (\<open>writingflag\<close>) and until every vector from \<open>windexlast\<close> on is marked as written: run alone, it waits
  for ever when this is not so at once, or when \<open>windexlast\<close> is already past the end.
\<close>

definition gets_end :: "store \<Rightarrow> outcome list \<Rightarrow> (int \<times> bool) list \<Rightarrow> aConn \<Rightarrow>
    (outcome list \<times> aConn) result option" where
  "gets_end m outs sels c =
     (let (ix, next_ix) = atomicIncrGetAdd (rep_index (iovReply c));
          c = c\<lparr>iovReply := (iovReply c)\<lparr>rep_index := next_ix\<rparr>\<rparr> in
      obind (Some (AddIOVReply c (Copied END_line) 5 True (unat ix))) (\<lambda>(sz, c).
        let n = unat ix + 1; y = unat (windexlast c);
            c = c\<lparr>totalsize := totalsize c + sz, iovReply := (iovReply c)\<lparr>rep_index := 0\<rparr>\<rparr> in
        if n < y \<or> writingflag c \<noteq> 0 \<or> \<not> (\<forall>i \<in> set [y..<n]. REPLY_WRITTEN \<in> rep_desc (iovReply c) ! i) then None
        else obind (write_chunks m c y (n - y) outs sels) (\<lambda>(outs, c).
          Some (Inr (outs, clear_vectors n (clear_reply c))))))"

text \<open>
  The worker that answers the last key finds \<open>replyCount = reqCount\<close>, with no key still to be posted
  (\<open>concPending\<close>), and ends the command.
\<close>

definition gets_complete :: "bool \<Rightarrow> outcome list \<Rightarrow> (int \<times> bool) list \<Rightarrow> ptr \<Rightarrow> server \<Rightarrow>
    (outcome list \<times> server) result option" where
  "gets_complete pipe_ok outs sels ac w =
     obind (Some (fetch (conns w) ac)) (\<lambda>c.
       let c = c\<lparr>replyCount := snd (atomicIncrAddGet (replyCount c))\<rparr>; (pending, c) = IsconcPending c in
       if pending \<noteq> 0 then Some (Inr (outs, upd_conn ac c w))
       else
         (let (ret, v) = sync_val_cas (replyCount c) (reqCount c) 0; c = c\<lparr>replyCount := v\<rparr> in
          if ret \<noteq> reqCount c then Some (Inr (outs, upd_conn ac c w))
          else
            obind (gets_end (mem (ahashtableptr w)) outs sels (c\<lparr>reqCount := 0\<rparr>)) (\<lambda>(outs, c).
              let c = not_busy (c\<lparr>conWatchSent := snd (atomicSet (conWatchSent c))\<rparr>) in
              Some (rbind (check_pending pipe_ok ac (upd_conn ac c w)) (\<lambda>w. Inr (outs, w))))))"

definition kv_gets :: "bool \<Rightarrow> outcome list \<Rightarrow> (int \<times> bool) list \<Rightarrow> ptr \<Rightarrow> server \<Rightarrow>
    (outcome list \<times> server) result option" where
  "kv_gets pipe_ok outs sels am w =
     obind (Some (fetch (msgs w) am)) (\<lambda>a.
     obind (gets_value outs am w) (\<lambda>(outs, w).
     obind (gets_complete pipe_ok outs sels (am_aC a) w) (\<lambda>(outs, w).
     Some (rbind (finish_msg am w) (\<lambda>w. Inr (outs, w))))))"

subsection \<open>The loop body\<close>

text \<open>Any other command is dropped, with its message.\<close>

definition kv_handle :: "bool \<Rightarrow> outcome list \<Rightarrow> (int \<times> bool) list \<Rightarrow> ptr \<Rightarrow> server \<Rightarrow>
    (outcome list \<times> server) result option" where
  "kv_handle pipe_ok outs sels am w =
     obind (Some (fetch (msgs w) am)) (\<lambda>a.
     if am_type a \<noteq> KVDATA then Some (Inl AssertFail)
     else if am_ctype a = ACACHED_CMD_SET then kv_set pipe_ok outs am w
     else if am_ctype a = ACACHED_CMD_GETS then kv_gets pipe_ok outs sels am w
     else Some (Inr (outs, w)))"

text \<open>
  The messages a worker takes from its queue, one after the other. \<open>sels\<close> answers the waits of each.
\<close>

fun kv_run :: "bool \<Rightarrow> (int \<times> bool) list \<Rightarrow> ptr list \<Rightarrow> outcome list \<Rightarrow> server \<Rightarrow>
    (outcome list \<times> server) result option" where
  "kv_run pipe_ok sels [] outs w = Some (Inr (outs, w))"
| "kv_run pipe_ok sels (am # ams) outs w =
     obind (kv_handle pipe_ok outs sels am w) (\<lambda>(outs, w). kv_run pipe_ok sels ams outs w)"

end
