(* ===== verification/KVSet.thy ===== *)
theory KVSet
  imports KVThread KVRefine
begin

section \<open>What a SET does\<close>

text \<open>
  The SET handler of a worker against the specification of the table: the block it builds is put in the
  bucket of its key, the reply \<open>STORED\<close> is sent, and the connection is free for its next command.
\<close>

subsection \<open>The block\<close>

text \<open>The block of a key and a value: both, and ten bytes of zeros behind.\<close>

definition block_for :: "string \<Rightarrow> char list \<Rightarrow> KVdata" where
  "block_for key val = \<lparr>nxt = NULL, prv = NULL, kv_keylen = of_nat (length key),
     kv_vallen = of_nat (length val), kvbytes = key @ val @ replicate 10 NUL\<rparr>"

text \<open>A message that carries a SET of a key and a value.\<close>

definition set_msg :: "aMsg \<Rightarrow> string \<Rightarrow> char list \<Rightarrow> bool" where
  "set_msg a key val \<longleftrightarrow> am_type a = KVDATA \<and> am_ctype a = ACACHED_CMD_SET
     \<and> (\<exists>rest. hdr_key (am_hdr a) = key @ rest) \<and> hdr_keylen (am_hdr a) = int (length key)
     \<and> (\<exists>rest. cmdptr a = Some (val @ rest)) \<and> set_vallen (KVdataSet a) = int (length val)
     \<and> length key + length val + 34 < 2 ^ 31"

lemma unat_word_of_int: "n < 2 ^ 32 \<Longrightarrow> unat (word_of_int (int n) :: u32) = n"
  using unat_of_nat_small [of n] by simp

lemma sint_of_nat_small:
  assumes "n < 2 ^ 31"
  shows "sint (of_nat n :: u32) = int n"
proof -
  have u: "unat (of_nat n :: u32) = n" by (rule unat_of_nat_small) (use assms in simp)
  then show ?thesis using sint_small [of "of_nat n"] assms by (simp only: u)
qed

lemma block_size_eq:
  assumes "k + v + 34 < 2 ^ 31"
  shows "block_size (int k) (int v) = int (k + v + 34)"
proof -
  have "32 + int k + int v + 2 = int (k + v + 34)" by simp
  then have "block_size (int k) (int v) = sint (of_nat (k + v + 34) :: u32)"
    unfolding block_size_def by (simp only: word_of_int_nat)
  also have "\<dots> = int (k + v + 34)"
    by (rule sint_of_nat_small [OF assms])
  finally show ?thesis .
qed

lemma new_block_set_msg:
  assumes "set_msg a key val"
  shows "new_block a = Inr (block_for key val)"
proof -
  obtain r1 r2 where a: "hdr_key (am_hdr a) = key @ r1" "hdr_keylen (am_hdr a) = int (length key)"
    "cmdptr a = Some (val @ r2)" "set_vallen (KVdataSet a) = int (length val)"
    and len: "length key + length val + 34 < 2 ^ 31"
    using assms by (auto simp: set_msg_def)
  have n: "nat (int (length key + length val + 34)) - 24 = length key + length val + 10" by simp
  have u: "unat (word_of_int (int (length key)) :: u32) = length key"
    "unat (word_of_int (int (length val)) :: u32) = length val"
    using unat_word_of_int [of "length key"] unat_word_of_int [of "length val"] len by simp_all
  show ?thesis
    unfolding new_block_def a Let_def block_size_eq [OF len] n u
    by (simp add: read_at_def write_at_def block_for_def replicate_add)
qed

subsection \<open>Into the table\<close>

text \<open>The table of the server holds the buckets \<open>A\<close>, at addresses handed out before.\<close>

definition srv_table :: "server \<Rightarrow> (nat \<Rightarrow> bucket) \<Rightarrow> bool" where
  "srv_table w A \<longleftrightarrow> table_rel (ahashtableptr w) A \<and> 0 < brk w \<and> (\<forall>b. fst ` set (A b) \<subseteq> {..<brk w})"

lemma table_rel_new_block:
  assumes "table_rel h A" "\<forall>b. p \<notin> fst ` set (A b)"
  shows "table_rel (h\<lparr>mem := (mem h)(p \<mapsto> k)\<rparr>) A"
proof -
  have "bucket_ok (h\<lparr>mem := (mem h)(p \<mapsto> k)\<rparr>) (A b) b" if "b < length (hashtable h)" for b
  proof (rule bucket_ok_cong)
    show "bucket_ok h (A b) b" using assms(1) that by (simp add: table_rel_def)
  qed (use assms(2) in auto)
  then show ?thesis using assms(1) by (simp add: table_rel_def table_shape_def)
qed

lemma entry_ok_block_for: "length key < 2 ^ 32 \<Longrightarrow> entry_ok (entry_of (block_for key val))"
  by (simp add: entry_of_def block_for_def unat_of_nat_small)

lemma bucket_of_mem [simp]: "bucket_of (h\<lparr>mem := m\<rparr>) = bucket_of h"
  by (simp add: bucket_of_def fun_eq_iff)

lemma store_block_set_msg:
  assumes a: "set_msg a key val" and w: "srv_table w A"
  defines "e \<equiv> entry_of (block_for key val)"
    and "b \<equiv> bucket_of (ahashtableptr w) (hdr_hashval (am_hdr a))"
  shows "\<exists>h. store_block a w = Some (Inr (w\<lparr>brk := Suc (brk w), ahashtableptr := h\<rparr>))
    \<and> srv_table (w\<lparr>brk := Suc (brk w), ahashtableptr := h\<rparr>) (A(b := bucket_put (set_key e) (brk w, e) (A b)))
    \<and> bucket_of h = bucket_of (ahashtableptr w)"
proof -
  let ?h = "ahashtableptr w" and ?p = "brk w"
  let ?h1 = "?h\<lparr>mem := (mem ?h)(?p \<mapsto> block_for key val)\<rparr>"
  have fresh: "\<forall>b. ?p \<notin> fst ` set (A b)" using w by (fastforce simp: srv_table_def)
  have rel: "table_rel ?h1 A" using table_rel_new_block [OF _ fresh] w by (simp add: srv_table_def)
  have len: "length key < 2 ^ 32" using a by (auto simp: set_msg_def)
  have pos: "?p \<noteq> NULL" using w by (simp add: srv_table_def)
  have blk: "block_of ?h1 ?p = Some e" by (simp add: block_of_def e_def)
  obtain h where h: "ahashtable_set ?h1 (hdr_hashval (am_hdr a)) ?p = Some (Inr (0, h))"
    "table_rel h (A(b := bucket_put (set_key e) (?p, e) (A b)))" "bucket_of h = bucket_of ?h1"
    using set_rel [OF rel blk _ pos, of "hdr_hashval (am_hdr a)"] fresh entry_ok_block_for [OF len, of val]
    by (auto simp: b_def e_def)
  have sub: "fst ` set (bucket_put (set_key e) (?p, e) (A b)) \<subseteq> {..<Suc ?p}"
    using set_bucket_put [of "set_key e" "(?p, e)" "A b"] w by (fastforce simp: srv_table_def)
  have "srv_table (w\<lparr>brk := Suc ?p, ahashtableptr := h\<rparr>) (A(b := bucket_put (set_key e) (?p, e) (A b)))"
    using h(2) sub w by (fastforce simp: srv_table_def)
  moreover have "store_block a w = Some (Inr (w\<lparr>brk := Suc ?p, ahashtableptr := h\<rparr>))"
    using h(1) new_block_set_msg [OF a] by (simp add: store_block_def Let_def)
  ultimately show ?thesis using h(3) by auto
qed

subsection \<open>The reply\<close>

lemma STORED_text: "NUL \<notin> set STORED" "length STORED = 8"
  by (simp_all add: STORED_def)

lemma send_one:
  assumes "rep_base (iovReply c) = (bs :: iobase list)[0 := Copied (txt @ [NUL])]"
    "rep_len (iovReply c) = (ns :: nat list)[0 := length txt]" "bs \<noteq> []" "ns \<noteq> []" "txt \<noteq> []"
  shows "WriteAllOnceIMM m c 0 1 (Sent (length txt) # outs) =
    Some (Inr (int (length txt), outs, c\<lparr>wire := wire c @ txt\<rparr>))"
proof -
  have "take 1 (bs[0 := Copied (txt @ [NUL])]) = [Copied (txt @ [NUL])]" "take 1 (ns[0 := length txt]) = [length txt]"
    using assms(3,4) by (cases bs; cases ns; simp)+
  then have "reply_bytes m c 0 1 = Inr txt"
    using assms by (simp add: reply_bytes_def rep_window_def iov_bytes_def Suc_le_eq)
  then show ?thesis by (simp add: WriteAllOnceIMM_def transmit_def)
qed

text \<open>What a connection looks like when nothing of a reply is left, apart from stale vectors.\<close>

lemma set_reply_sent:
  assumes "conn_ok c" "rep_index (iovReply c) = 0" "Busy c = 1"
  shows "\<exists>c'. set_reply m (Sent 8 # outs) c = Some (Inr (outs, c')) \<and> conn_ok c' \<and> Busy c' = 0
    \<and> wire c' = wire c @ STORED \<and> rep_index (iovReply c') = 0 \<and> windexlast c' = 0 \<and> totalsize c' = 0
    \<and> replyCount c' = 0 \<and> writingflag c' = 0 \<and> reqCount c' = reqCount c \<and> concPending c' = concPending c
    \<and> PendingCmdQ c' = PendingCmdQ c \<and> cmd c' = cmd c \<and> cSockFd c' = cSockFd c \<and> aTcommptr c' = aTcommptr c
    \<and> rep_len (iovReply c') = (rep_len (iovReply c))[0 := 8]"
proof -
  define c1 where "c1 = c\<lparr>iovReply := (iovReply c)\<lparr>rep_index := 1\<rparr>\<rparr>"
  define c2 where "c2 = reply_at 0 (Copied (STORED @ [NUL])) 8 True c1"
  have len: "rep_base (iovReply c1) \<noteq> []" "rep_len (iovReply c1) \<noteq> []"
    using assms(1) by (auto simp: conn_ok_def c1_def)
  have add: "AddIOVReply c1 (Copied STORED) 8 True 0 = Inr (of_nat 8, c2)"
    using len STORED_text unfolding c2_def by (intro AddIOVReply_copy) auto
  have "rep_base (iovReply c2) = (rep_base (iovReply c1))[0 := Copied (STORED @ [NUL])]"
    "rep_len (iovReply c2) = (rep_len (iovReply c1))[0 := length STORED]"
    by (simp_all add: c2_def reply_at_def Let_def STORED_text)
  moreover have "STORED \<noteq> []" using STORED_text by auto
  ultimately have send: "WriteAllOnceIMM m c2 0 1 (Sent 8 # outs) =
      Some (Inr (8, outs, c2\<lparr>wire := wire c2 @ STORED\<rparr>))"
    using send_one [OF _ _ len, of c2 STORED m outs] STORED_text by simp
  have "set_reply m (Sent 8 # outs) c = Some (Inr (outs, clear_reply (not_busy (c2\<lparr>wire := wire c2 @ STORED\<rparr>))))"
    using add send assms(2) by (simp add: set_reply_def atomicIncrGetAdd_def c1_def Let_def)
  then show ?thesis
    using assms by (simp add: clear_reply_def not_busy_def sync_bool_cas_def c2_def c1_def reply_at_def Let_def
        conn_ok_def)
qed

subsection \<open>Completion\<close>

lemma upd_simps [simp]:
  "conns (upd_conn p c w) = (conns w)(p \<mapsto> c)" "msgs (upd_conn p c w) = msgs w"
  "conns (upd_msg p a w) = conns w" "msgs (upd_msg p a w) = (msgs w)(p \<mapsto> a)"
  "pipes (upd_conn p c w) = pipes w" "pipes (upd_msg p a w) = pipes w"
  "brk (upd_conn p c w) = brk w" "brk (upd_msg p a w) = brk w"
  "ahashtableptr (upd_conn p c w) = ahashtableptr w" "ahashtableptr (upd_msg p a w) = ahashtableptr w"
  "aFBSQGaMsg (upd_conn p c w) = aFBSQGaMsg w" "aFBSQGaMsg (upd_msg p a w) = aFBSQGaMsg w"
  "aFBSQGaConn (upd_conn p c w) = aFBSQGaConn w" "aFBSQGaConn (upd_msg p a w) = aFBSQGaConn w"
  "aTSQGKVdata (upd_conn p c w) = aTSQGKVdata w" "aTSQGKVdata (upd_msg p a w) = aTSQGKVdata w"
  "events (upd_conn p c w) = events w" "events (upd_msg p a w) = events w"
  "numCores (upd_conn p c w) = numCores w" "numCores (upd_msg p a w) = numCores w"
  "sga_hashsize (upd_conn p c w) = sga_hashsize w" "sga_hashsize (upd_msg p a w) = sga_hashsize w"
  "sga_hashmask (upd_conn p c w) = sga_hashmask w" "sga_hashmask (upd_msg p a w) = sga_hashmask w"
  by (simp_all add: upd_conn_def upd_msg_def)

text \<open>
  \<open>check_pending\<close> leaves the connection as it was, but for its queue having been locked and unlocked;
  the comm thread is told when commands are pending.
\<close>

definition pending_note :: "aConn \<Rightarrow> (ptr \<Rightarrow> MsgPipe_t list) \<Rightarrow> ptr \<Rightarrow> MsgPipe_t list" where
  "pending_note c ps = (if Q (PendingCmdQ c) = [] then ps
     else ps(aTcommptr c := ps (aTcommptr c) @ [\<lparr>initType = CHR ''P'', pipe_fd = cSockFd c\<rparr>]))"

lemma check_pending_spec:
  assumes "conns w ac = Some c"
  shows "check_pending True ac w = Inr ((upd_conn ac (c\<lparr>PendingCmdQ := (PendingCmdQ c)\<lparr>mutexQ := False\<rparr>\<rparr>) w)
    \<lparr>pipes := pending_note c (pipes w)\<rparr>)"
  using assms
  by (simp add: check_pending_def sharedq_defs Let_def CheckPendingCmdQ_def pending_note_def)

lemma finish_msg_spec:
  assumes "msgs w am = Some a"
  shows "finish_msg am w = Inr ((upd_msg am (aMsg_Init SUCCESS (am_aC a) (am_ctype a)) w)
    \<lparr>aFBSQGaMsg := snd (aSGARelease (aFBSQGaMsg w) am)\<rparr>)"
  using assms by (simp add: finish_msg_def aMsgRelease_def split: prod.splits)

subsection \<open>The handler\<close>

lemma srv_table_frame:
  "ahashtableptr w' = ahashtableptr w \<Longrightarrow> brk w' = brk w \<Longrightarrow> srv_table w' A = srv_table w A"
  by (simp add: srv_table_def)

lemma kv_set_run:
  assumes a: "msgs w am = Some a" "set_msg a key val" "am_aC a = ac"
    and c: "conns w ac = Some c" "conn_ok c" "Busy c = 1" "rep_index (iovReply c) = 0"
    and w: "srv_table w A"
  defines "e \<equiv> entry_of (block_for key val)"
    and "b \<equiv> bucket_of (ahashtableptr w) (hdr_hashval (am_hdr a))"
  shows "\<exists>w' c'. kv_handle True (Sent 8 # outs) sels am w = Some (Inr (outs, w'))
    \<and> srv_table w' (A(b := bucket_put (set_key e) (brk w, e) (A b)))
    \<and> bucket_of (ahashtableptr w') = bucket_of (ahashtableptr w)
    \<and> conns w' = (conns w)(ac \<mapsto> c') \<and> conn_ok c' \<and> wire c' = wire c @ STORED \<and> Busy c' = 0
    \<and> rep_index (iovReply c') = 0 \<and> windexlast c' = 0 \<and> totalsize c' = 0 \<and> replyCount c' = 0
    \<and> writingflag c' = 0 \<and> reqCount c' = reqCount c \<and> concPending c' = concPending c
    \<and> rep_len (iovReply c') = (rep_len (iovReply c))[0 := 8]
    \<and> Q (PendingCmdQ c') = Q (PendingCmdQ c) \<and> pipes w' = pending_note c (pipes w)
    \<and> msgs w' = (msgs w)(am \<mapsto> aMsg_Init SUCCESS ac ACACHED_CMD_SET)
    \<and> aFBSQGaMsg w' = snd (aSGARelease (aFBSQGaMsg w) am)"
proof -
  let ?w1 = "upd_msg am (a\<lparr>cmdptr := None\<rparr>) w"
  have w1: "srv_table ?w1 A" using w by (simp add: srv_table_def)
  obtain h where h: "store_block a ?w1 = Some (Inr (?w1\<lparr>brk := Suc (brk w), ahashtableptr := h\<rparr>))"
    "srv_table (?w1\<lparr>brk := Suc (brk w), ahashtableptr := h\<rparr>) (A(b := bucket_put (set_key e) (brk w, e) (A b)))"
    "bucket_of h = bucket_of (ahashtableptr w)"
    using store_block_set_msg [OF a(2) w1] unfolding b_def e_def by auto
  let ?w2 = "?w1\<lparr>brk := Suc (brk w), ahashtableptr := h\<rparr>"
  obtain c1 where c1: "set_reply (mem h) (Sent 8 # outs) c = Some (Inr (outs, c1))"
    "conn_ok c1" "Busy c1 = 0" "wire c1 = wire c @ STORED" "rep_index (iovReply c1) = 0" "windexlast c1 = 0"
    "totalsize c1 = 0" "replyCount c1 = 0" "writingflag c1 = 0" "reqCount c1 = reqCount c"
    "concPending c1 = concPending c" "PendingCmdQ c1 = PendingCmdQ c" "cSockFd c1 = cSockFd c"
    "aTcommptr c1 = aTcommptr c" "rep_len (iovReply c1) = (rep_len (iovReply c))[0 := 8]"
    using set_reply_sent [OF c(2,4,3), of "mem h" outs] by blast
  define c2 where "c2 = c1\<lparr>PendingCmdQ := (PendingCmdQ c1)\<lparr>mutexQ := False\<rparr>\<rparr>"
  define c3 where "c3 = snd (Revoke c2)"
  let ?w3 = "(upd_conn ac c2 (upd_conn ac c1 ?w2))\<lparr>pipes := pending_note c1 (pipes w)\<rparr>"
  have chk: "check_pending True ac (upd_conn ac c1 ?w2) = Inr ?w3"
    using check_pending_spec [of "upd_conn ac c1 ?w2" ac c1] by (simp add: c2_def)
  have fin: "finish_msg am (upd_conn ac c3 ?w3) = Inr ((upd_msg am (aMsg_Init SUCCESS ac ACACHED_CMD_SET)
      (upd_conn ac c3 ?w3))\<lparr>aFBSQGaMsg := snd (aSGARelease (aFBSQGaMsg w) am)\<rparr>)"
    using finish_msg_spec [of "upd_conn ac c3 ?w3" am "a\<lparr>cmdptr := None\<rparr>"] a by (simp add: set_msg_def)
  let ?w4 = "(upd_msg am (aMsg_Init SUCCESS ac ACACHED_CMD_SET) (upd_conn ac c3 ?w3))
    \<lparr>aFBSQGaMsg := snd (aSGARelease (aFBSQGaMsg w) am)\<rparr>"
  have run: "kv_handle True (Sent 8 # outs) sels am w = Some (Inr (outs, ?w4))"
    using a c(1) h(1) c1(1) chk fin by (simp add: kv_handle_def kv_set_def set_msg_def c3_def)
  have pn: "pending_note c1 (pipes w) = pending_note c (pipes w)"
    using c1 by (simp add: pending_note_def)
  have "conn_ok c3" using c1(2) by (simp add: c3_def c2_def Revoke_def conn_ok_def split: prod.splits)
  then show ?thesis
    using run h(2,3) c1 pn
    by (intro exI [of _ ?w4] exI [of _ c3])
      (simp add: srv_table_def c3_def c2_def Revoke_def atomicDecrSubGet_def)
qed

end
