(* ===== verification/Frame.thy ===== *)
theory Frame
  imports KVSet
begin

section \<open>Who writes what\<close>

text \<open>
  A comm thread reads the next command of a connection while the workers still answer the last one. The
  members of \<open>aConn\<close> fall into two halves: those the receiver writes, and those the sender writes. Here
  the receiver is shown to leave the sender's half alone, the workers the receiver's half, the other
  connections and the rest of the server, and both to keep the shape of the arrays.
\<close>

subsection \<open>The receiver\<close>

text \<open>What the receiver leaves: everything but the members it writes, which are blanked out.\<close>

definition sender_half :: "aConn \<Rightarrow> aConn" where
  "sender_half c = c\<lparr>conn_state := cmd_wait, dataPendingRead := 0, iovReq := iovReq zero_conn,
     cmd := cmd zero_conn, aerrnum := 0, aerrtype := 0, wire := []\<rparr>"

lemma sender_half_upd [simp]:
  "sender_half (c\<lparr>conn_state := a\<rparr>) = sender_half c" "sender_half (c\<lparr>dataPendingRead := n\<rparr>) = sender_half c"
  "sender_half (c\<lparr>iovReq := q\<rparr>) = sender_half c" "sender_half (c\<lparr>cmd := k\<rparr>) = sender_half c"
  "sender_half (c\<lparr>aerrnum := n\<rparr>) = sender_half c" "sender_half (c\<lparr>aerrtype := n\<rparr>) = sender_half c"
  "sender_half (c\<lparr>wire := s\<rparr>) = sender_half c" "sender_half (upd_req f c) = sender_half c"
  "sender_half (set_len i m c) = sender_half c" "sender_half (set_offset i v c) = sender_half c"
  "sender_half (set_desc i m c) = sender_half c" "sender_half (new_buf malloc i v c) = sender_half c"
  "sender_half (put_buf c i b) = sender_half c" "sender_half (SetError c e) = sender_half c"
  "sender_half (SetErrorErrno c n) = sender_half c"
  by (simp_all add: sender_half_def upd_defs SetError_def SetErrorErrno_def)

lemma conn_ok_upd [simp]:
  "conn_ok (c\<lparr>conn_state := a\<rparr>) = conn_ok c" "conn_ok (c\<lparr>dataPendingRead := n\<rparr>) = conn_ok c"
  "conn_ok (c\<lparr>aerrnum := n\<rparr>) = conn_ok c" "conn_ok (c\<lparr>aerrtype := n\<rparr>) = conn_ok c"
  "conn_ok (c\<lparr>wire := s\<rparr>) = conn_ok c" "conn_ok (set_len i m c) = conn_ok c" "conn_ok (set_offset i v c) = conn_ok c"
  "conn_ok (set_desc i m c) = conn_ok c" "conn_ok (new_buf malloc i v c) = conn_ok c"
  "conn_ok (put_buf c i b) = conn_ok c" "conn_ok (SetError c e) = conn_ok c"
  "conn_ok (SetErrorErrno c n) = conn_ok c"
  by (simp_all add: conn_ok_def upd_defs SetError_def SetErrorErrno_def)

text \<open>A step of the receiver from \<open>c\<close> to \<open>d\<close>.\<close>

definition received :: "aConn \<Rightarrow> aConn \<Rightarrow> bool" where
  "received c d \<longleftrightarrow> sender_half d = sender_half c \<and> (conn_ok c \<longrightarrow> conn_ok d)"

lemma received_refl [simp]: "received c c"
  by (simp add: received_def)

lemma received_trans: "received c d \<Longrightarrow> received d e \<Longrightarrow> received c e"
  by (simp add: received_def)

lemma strncpy_length: "strncpy dst src n = Inr k \<Longrightarrow> length k = length dst"
  by (auto simp: strncpy_def split: if_splits)

lemma SetCommandType_received:
  "rpost (\<lambda>x. received c (snd x) \<and> wire (snd x) = wire c) (SetCommandType c)"
  unfolding SetCommandType_def
  by (intro posts) (simp_all add: received_def conn_ok_def SetError_def sender_half_def)

lemma ProcessHeader_received:
  "rpost (\<lambda>x. received c (snd x) \<and> wire (snd x) = wire c \<and> ctype (cmd (snd x)) = ctype (cmd c)) (ProcessHeader c)"
  unfolding ProcessHeader_def
  by (intro posts) (simp_all add: received_def conn_ok_def SetError_def sender_half_def put_buf_def strncpy_length)

lemma WriteData_received: "received c (snd (WriteData sent c buf))"
    "cmd (snd (WriteData sent c buf)) = cmd c"
  by (simp_all add: WriteData_def received_def)

text \<open>The bytes on the wire are the same, unless the version was asked for.\<close>

definition quiet :: "aConn \<Rightarrow> aConn \<Rightarrow> bool" where
  "quiet c d \<longleftrightarrow> wire d = wire c \<or> ctype (cmd d) = ACACHED_CMD_VERSION"

lemma quiet_trans: "wire d = wire c \<Longrightarrow> quiet d e \<Longrightarrow> quiet c e"
  by (simp add: quiet_def)

lemma received_upd:
  "received c d \<Longrightarrow> received c (upd_req (\<lambda>q. q\<lparr>req_index := f q\<rparr>) d)"
  "received c d \<Longrightarrow> received c (new_buf malloc i v d)" "received c d \<Longrightarrow> received c (set_len i n d)"
  "received c d \<Longrightarrow> received c (set_offset i v d)" "received c d \<Longrightarrow> received c (set_desc i n d)"
  "received c d \<Longrightarrow> received c (put_buf d i b)" "received c d \<Longrightarrow> received c (SetErrorErrno d e)"
  "received c d \<Longrightarrow> received c (SetError d er)" "received c d \<Longrightarrow> received c (d\<lparr>conn_state := st\<rparr>)"
  "received c d \<Longrightarrow> received c (d\<lparr>dataPendingRead := m\<rparr>)"
  by (simp_all add: received_def) (simp add: conn_ok_def upd_defs)

lemma wire_upd [simp]:
  "wire (upd_req f c) = wire c" "wire (new_buf malloc i v c) = wire c" "wire (set_len i n c) = wire c"
  "wire (set_offset i v c) = wire c" "wire (set_desc i n c) = wire c" "wire (put_buf c i b) = wire c"
  "wire (SetErrorErrno c e) = wire c" "wire (SetError c er) = wire c"
  by (simp_all add: upd_defs SetErrorErrno_def SetError_def)

lemma cmd_upd [simp]:
  "cmd (upd_req f c) = cmd c" "cmd (new_buf malloc i v c) = cmd c" "cmd (set_len i n c) = cmd c"
  "cmd (set_offset i v c) = cmd c" "cmd (set_desc i n c) = cmd c" "cmd (put_buf c i b) = cmd c"
  "cmd (SetErrorErrno c e) = cmd c" "cmd (SetError c er) = cmd c"
  by (simp_all add: upd_defs SetErrorErrno_def SetError_def)

lemma header_branch_received:
  "rpost (\<lambda>x. received c (snd x) \<and> quiet c (snd x))
    (if ctype (cmd c) = ACACHED_CMD_SET then ProcessHeader (c\<lparr>conn_state := body_wait\<rparr>)
     else (let c = (if ctype (cmd c) = ACACHED_CMD_VERSION then snd (WriteData sent c buf) else c)
           in Inr (True, c\<lparr>conn_state := cmd_done\<rparr>)))"
proof (cases "ctype (cmd c) = ACACHED_CMD_SET")
  case True
  have "received c (c\<lparr>conn_state := body_wait\<rparr>)" by (simp add: received_def)
  with True ProcessHeader_received [of "c\<lparr>conn_state := body_wait\<rparr>"] show ?thesis
    by (auto simp: quiet_def intro: received_trans elim!: rpost_mono)
qed (use WriteData_received [where c = c] in \<open>simp add: Let_def received_def quiet_def\<close>)

lemma recv_command_received: "rpost (\<lambda>x. received c (snd x) \<and> quiet c (snd x)) (recv_command sent c)"
proof -
  have step: "received c (set_desc i v (upd_req (\<lambda>q. q\<lparr>req_indexHdr := f q\<rparr>) (put_buf d j b)))
      \<and> wire (set_desc i v (upd_req (\<lambda>q. q\<lparr>req_indexHdr := f q\<rparr>) (put_buf d j b))) = wire c"
    if "received c d" "wire d = wire c" for d i v f j b
    using that by (simp add: received_def) (simp add: conn_ok_def upd_defs)
  have more: "rpost (\<lambda>x. received c (snd x) \<and> quiet c (snd x)) (if ctype (cmd d) = ACACHED_CMD_SET
      then ProcessHeader (d\<lparr>conn_state := body_wait\<rparr>)
      else (let e = (if ctype (cmd d) = ACACHED_CMD_VERSION then snd (WriteData sent d buf) else d)
           in Inr (True, e\<lparr>conn_state := cmd_done\<rparr>)))"
    if "received c d \<and> wire d = wire c" for d buf
    using header_branch_received [of d sent buf] that by (auto intro: received_trans quiet_trans elim!: rpost_mono)
  have k: "received c d \<Longrightarrow> wire d = wire c \<Longrightarrow> received c d \<and> quiet c d" for d by (simp add: quiet_def)
  show ?thesis
    unfolding recv_command_def Let_def [of "req_at c"]
    by (rule rpost_rbind [OF SetCommandType_received] rpost_rbind [OF more] posts
        | rule step; simp | (auto simp: quiet_def received_upd; fail))+
qed

lemma recv_cmd_wait_received: "rpost (\<lambda>x. received c (snd x) \<and> quiet c (snd x)) (recv_cmd_wait malloc rd sent c)"
proof -
  let ?c = "new_buf malloc (req_at c) (of_nat CMD_WAIT_INIT) c"
  have "rpost (\<lambda>x. received c (snd x) \<and> quiet c (snd x)) (recv_command sent (set_len i n (put_buf ?c i buf)))" for i n buf
    by (rule rpost_mono [OF recv_command_received])
      (auto simp: quiet_def intro: received_trans [OF received_upd(3) [OF received_upd(6) [OF received_upd(2) [OF received_refl]]]])
  then show ?thesis
    by (auto simp: recv_cmd_wait_def Let_def quiet_def received_upd intro!: posts split: recv.splits)
qed

text \<open>The body: the wire stays, the header vectors stay headers.\<close>

definition body_step :: "aConn \<Rightarrow> aConn \<Rightarrow> bool" where
  "body_step c d \<longleftrightarrow> received c d \<and> wire d = wire c \<and> cmd d = cmd c \<and> req_indexHdr (iovReq d) = req_indexHdr (iovReq c)
     \<and> (\<forall>j. req_desc (iovReq c) ! j \<subseteq> req_desc (iovReq d) ! j)"

lemma body_step_refl: "body_step c c"
  by (simp add: body_step_def)

lemma body_step_trans: "body_step c d \<Longrightarrow> body_step d e \<Longrightarrow> body_step c e"
  by (auto simp: body_step_def intro: received_trans)

lemma insert_update: "xs ! j \<subseteq> xs[i := insert n (xs ! i)] ! j"
  by (cases "i < length xs"; cases "i = j") (auto simp: list_update_beyond)

lemma body_step_upd:
  "body_step c d \<Longrightarrow> body_step c (upd_req (\<lambda>q. q\<lparr>req_index := f q\<rparr>) d)"
  "body_step c d \<Longrightarrow> body_step c (new_buf malloc i v d)" "body_step c d \<Longrightarrow> body_step c (set_len i n d)"
  "body_step c d \<Longrightarrow> body_step c (set_offset i v d)" "body_step c d \<Longrightarrow> body_step c (set_desc i n d)"
  "body_step c d \<Longrightarrow> body_step c (put_buf d i b)" "body_step c d \<Longrightarrow> body_step c (SetErrorErrno d e)"
  "body_step c d \<Longrightarrow> body_step c (SetError d er)"
  "body_step c d \<Longrightarrow> body_step c (d\<lparr>conn_state := st\<rparr>)" "body_step c d \<Longrightarrow> body_step c (d\<lparr>dataPendingRead := m\<rparr>)"
  by (simp_all add: body_step_def received_upd)
    (auto simp: upd_defs SetErrorErrno_def SetError_def dest: subsetD [OF insert_update])

lemma body_target_step: "rpost (\<lambda>(_, _, _, _, d). body_step c d) (body_target malloc c)"
  unfolding body_target_def
  by (intro posts) (auto simp: body_step_upd body_step_refl)

lemma body_pending_step:
  assumes "body_step c0 c"
  shows "rpost (\<lambda>(_, _, d). body_step c0 d) (body_pending ptr len pending src c)"
  unfolding body_pending_def Let_def using assms
  by (intro posts) (auto simp: body_step_upd intro!: posts)

lemma body_read_step:
  assumes "body_step c0 c"
  shows "rpost (\<lambda>(_, _, d). body_step c0 d) (body_read rd ptr len c)"
  unfolding body_read_def Let_def using assms
  by (intro posts) (auto simp: body_step_upd intro!: posts split: recv.splits)

lemma body_finish_step: "body_step c0 c \<Longrightarrow> body_step c0 (snd (body_finish c))"
  by (simp add: body_finish_def Let_def body_step_upd)

lemma recv_body_wait_step: "rpost (\<lambda>x. body_step c (snd x)) (recv_body_wait malloc rd c)"
  unfolding recv_body_wait_def
  by (intro posts) (auto simp: body_step_refl body_step_upd intro: body_finish_step dest!: rpostD [OF body_target_step]
      dest: rpostD [OF body_pending_step] rpostD [OF body_read_step])

lemma ProcessDataRecv_received:
  "rpost (\<lambda>x. received c (snd x) \<and> quiet c (snd x)) (ProcessDataRecv malloc rd sent c)"
proof (cases "conn_state c")
  case body_wait
  then show ?thesis
    using rpost_mono [OF recv_body_wait_step [of c malloc rd]]
    by (simp add: ProcessDataRecv_def body_step_def quiet_def)
qed (simp_all add: ProcessDataRecv_def recv_cmd_wait_received)

text \<open>
  C14: reading a command changes only the members of the connection that belong to its receiver: busy flag,
  counters, waiting commands and reply vectors stay as they are, which the workers change meanwhile. All
  arrays keep their lengths, and nothing is sent, except where the command is a version request, which the
  parser answers itself.
\<close>
theorem receiver_keeps_connection:
  assumes "ProcessDataRecv malloc rd sent c = Inr (ret, d)"
  shows "sender_half d = sender_half c \<and> (conn_ok c \<longrightarrow> conn_ok d)
    \<and> (wire d = wire c \<or> ctype (cmd d) = ACACHED_CMD_VERSION)"
  using rpostD [OF ProcessDataRecv_received assms] by (simp add: received_def quiet_def)

lemma receiver_keeps_connection_witness:
  "\<exists>d. ProcessDataRecv zeros (\<lambda>_. Recv (set_line ''ab'' 0 0 3 @ CR # LF # ''xyz'')) 0 fresh_conn = Inr (14, d)
    \<and> sender_half d = sender_half fresh_conn \<and> conn_ok d"
proof -
  have m: "length (zeros k) = k" for k by (simp add: zeros_def)
  obtain d where d: "ProcessDataRecv zeros (\<lambda>_. Recv (set_line ''ab'' 0 0 3 @ CR # LF # ''xyz'')) 0 fresh_conn = Inr (14, d)"
    using recv_set_command [OF fresh_idle, where malloc = zeros and key = "''ab''" and f = 0 and e = 0 and d = 3
        and rd = "\<lambda>_. Recv (set_line ''ab'' 0 0 3 @ CR # LF # ''xyz'')" and body = "''xyz''" and sent = 0] m
    by (auto simp: set_line_ab)
  then show ?thesis using receiver_keeps_connection [OF d] fresh_conn_ok by blast
qed

subsection \<open>The workers\<close>

text \<open>What the workers leave: the members the receiver works on, and the commands that wait.\<close>

definition receiver_half :: "aConn \<Rightarrow> aConnState \<times> int \<times> aConnIovReq \<times> aConnCmd_t \<times> int \<times> ptr \<times> ptr \<times> ptr \<times> ptr list" where
  "receiver_half c = (conn_state c, dataPendingRead c, iovReq c, cmd c, cSockFd c, aTcommptr c, commRead_wptr c,
     ev_loop c, Q (PendingCmdQ c))"

definition replied :: "aConn \<Rightarrow> aConn \<Rightarrow> bool" where
  "replied c d \<longleftrightarrow> receiver_half d = receiver_half c \<and> (conn_ok c \<longrightarrow> conn_ok d)"

lemma replied_refl [simp]: "replied c c"
  by (simp add: replied_def)

lemma replied_trans: "replied c d \<Longrightarrow> replied d e \<Longrightarrow> replied c e"
  by (simp add: replied_def)

lemma replied_upd:
  "replied c d \<Longrightarrow> replied c (d\<lparr>wire := s\<rparr>)" "replied c d \<Longrightarrow> replied c (d\<lparr>totalsize := n\<rparr>)"
  "replied c d \<Longrightarrow> replied c (d\<lparr>windexlast := n\<rparr>)" "replied c d \<Longrightarrow> replied c (d\<lparr>writingflag := n\<rparr>)"
  "replied c d \<Longrightarrow> replied c (d\<lparr>replyCount := n\<rparr>)" "replied c d \<Longrightarrow> replied c (d\<lparr>reqCount := n\<rparr>)"
  "replied c d \<Longrightarrow> replied c (d\<lparr>Busy := n\<rparr>)" "replied c d \<Longrightarrow> replied c (d\<lparr>refcount := n\<rparr>)"
  "replied c d \<Longrightarrow> replied c (d\<lparr>concPending := n\<rparr>)" "replied c d \<Longrightarrow> replied c (d\<lparr>conWatchSent := n\<rparr>)"
  "replied c d \<Longrightarrow> replied c (d\<lparr>aerrtype := i\<rparr>)" "replied c d \<Longrightarrow> Q q = Q (PendingCmdQ d) \<Longrightarrow> replied c (d\<lparr>PendingCmdQ := q\<rparr>)"
  by (simp_all add: replied_def receiver_half_def conn_ok_def)

lemma replied_reply: "replied c d \<Longrightarrow> (conn_ok d \<Longrightarrow> conn_ok (d\<lparr>iovReply := r\<rparr>)) \<Longrightarrow> replied c (d\<lparr>iovReply := r\<rparr>)"
  by (simp add: replied_def receiver_half_def)

lemma replied_index: "replied c d \<Longrightarrow> replied c (d\<lparr>iovReply := (iovReply d)\<lparr>rep_index := n\<rparr>\<rparr>)"
  by (rule replied_reply) (simp_all add: conn_ok_def)

lemma replied_size_index:
  "replied c d \<Longrightarrow> replied c (d\<lparr>totalsize := k, iovReply := (iovReply d)\<lparr>rep_index := n\<rparr>\<rparr>)"
  by (simp add: replied_def receiver_half_def conn_ok_def)

lemma AddIOVReply_replied: "replied c d \<Longrightarrow> rpost (\<lambda>x. replied c (snd x)) (AddIOVReply d src len dm i)"
  unfolding AddIOVReply_def Let_def
  by (intro posts) (auto intro: replied_reply simp: conn_ok_def)

lemma transmit_replied: "replied c d \<Longrightarrow> rpost (replied c) (transmit m d start count n)"
  unfolding transmit_def by (intro posts) (simp add: replied_upd)

lemma CheckIOVTotalWritten_replied:
  "replied c d \<Longrightarrow> rpost (\<lambda>(_, _, _, e). replied c e) (CheckIOVTotalWritten d start count w)"
  unfolding CheckIOVTotalWritten_def Let_def
  by (intro posts) (auto intro: replied_reply simp: conn_ok_def)

lemma transmitD: "transmit m d start count n = Inr e \<Longrightarrow> replied c d \<Longrightarrow> replied c e"
  using rpostD [OF transmit_replied] .

lemma CheckIOVTotalWrittenD: "CheckIOVTotalWritten d start count w = Inr (x, y, z, e) \<Longrightarrow> replied c d \<Longrightarrow> replied c e"
  by (drule rpostD [OF CheckIOVTotalWritten_replied, rotated]) simp_all

lemma sendmsg_retry_replied:
  "replied c d \<Longrightarrow> opost (\<lambda>(_, _, _, e). replied c e) (sendmsg_retry m d start count outs)"
  by (induction m d start count outs rule: sendmsg_retry.induct)
    (auto intro!: rpost_rbind [OF transmit_replied])

lemma write_all_replied:
  "replied c d \<Longrightarrow> opost (\<lambda>(_, _, e). replied c e) (write_all m d start n tot outs sels)"
proof (induction m d start n tot outs sels rule: write_all.induct)
  case (3 m d start n tot w outs sels)
  have "opost (\<lambda>(_, _, e). replied c e) (write_all m d2 k n (tot + int w) outs sels)"
    if t: "transmit m d start n w = Inr d1" "w \<noteq> 0" "CheckIOVTotalWritten d1 start n (of_nat w) = Inr (False, Some k, z, d2)"
    for d1 d2 k z
    by (rule 3(1) [OF t refl refl refl]) (use CheckIOVTotalWrittenD [OF t(3)] transmitD [OF t(1)] 3(2) in simp_all)
  then show ?case
    using 3(2) by (auto split: sum.splits option.splits intro: transmitD CheckIOVTotalWrittenD)
qed (auto split: option.splits)

lemma WriteAllOnceIMM_replied:
  "replied c d \<Longrightarrow> opost (\<lambda>(_, _, e). replied c e) (WriteAllOnceIMM m d start n outs)"
  using sendmsg_retry_replied [of c d m start n outs]
  by (auto simp: WriteAllOnceIMM_def opost_def rbind_eq_Inr_iff)

lemma sendmsg_retryD: "sendmsg_retry m d start count outs = Some (Inr (x, y, z, e)) \<Longrightarrow> replied c d \<Longrightarrow> replied c e"
  by (drule opostD [OF sendmsg_retry_replied, rotated]) simp_all

lemma WriteIOVReply_replied:
  "replied c d \<Longrightarrow> opost (\<lambda>(_, _, e). replied c e) (WriteIOVReply m d start n outs)"
  by (auto simp: WriteIOVReply_def opost_def rbind_eq_Inr_iff Let_def split: if_splits option.splits prod.splits
      intro!: replied_upd dest!: CheckIOVTotalWrittenD sendmsg_retryD intro: replied_upd(4))

lemma QReply_replied: "opost (\<lambda>(_, _, _, e). replied c e) (QReply m c p key outs)"
proof -
  have x: "replied c (c\<lparr>iovReply := (iovReply c)\<lparr>rep_index := n\<rparr>\<rparr>)" for n
    by (simp add: replied_index)
  have two: "rpost (\<lambda>x. replied c (snd x)) (rbind (AddIOVReply d src len dm i) (\<lambda>(s1, d).
      rbind (AddIOVReply d src2 len2 dm2 i2) (\<lambda>(s2, d). Inr (s1 + s2, d))))"
    if "replied c d" for d src len dm i src2 len2 dm2 i2
    by (rule rpost_rbind [OF AddIOVReply_replied [OF that]])
      (auto intro!: rpost_rbind [OF AddIOVReply_replied])
  have wr: "opost (\<lambda>(_, _, _, e). replied c e)
      (map_option (\<lambda>r. rbind r (\<lambda>(ret, outs, d). Inr (0, outs, m', if 0 < ret then d\<lparr>totalsize := f d ret\<rparr> else d)))
        (WriteIOVReply m' d start n outs))"
    if "replied c d" for d m' start n f
    by (rule opost_map_option [OF WriteIOVReply_replied [OF that]]) (auto simp: replied_upd)
  show ?thesis
    unfolding QReply_def Let_def
    apply (rule posts)
     apply simp
    apply (rule posts)
     apply simp
    apply (rule posts)
    apply (rule posts)
     apply simp
    apply (rule posts)
    apply (drule rpostD [OF two, rotated])
     apply (rule x)
    apply (auto intro!: opost_posts(2) wr simp: replied_upd)
    done
qed

text \<open>The end of a GET.\<close>

lemma write_allD: "write_all m d start n tot outs sels = Some (Inr (x, y, e)) \<Longrightarrow> replied c d \<Longrightarrow> replied c e"
  by (drule opostD [OF write_all_replied, rotated]) simp_all

lemma write_chunks_run: "write_chunks m d start n outs sels = Some r \<Longrightarrow> replied c d \<longrightarrow> rpost (\<lambda>x. replied c (snd x)) r"
proof (induction m d start n outs sels r rule: write_chunks.raw_induct [rotated, consumes 1, case_names run])
  case (run rec m d start n outs sels r)
  then show ?case
    by (auto simp: Let_def WriteAllOnce_def split: option.splits sum.splits if_splits prod.splits dest: write_allD)
qed

lemma write_chunks_replied: "replied c d \<Longrightarrow> opost (\<lambda>x. replied c (snd x)) (write_chunks m d start n outs sels)"
  using write_chunks_run [of m d start n outs sels] by (cases "write_chunks m d start n outs sels") auto

lemma clear_reply_replied: "replied c d \<Longrightarrow> replied c (clear_reply d)"
  unfolding clear_reply_def by (simp add: replied_def receiver_half_def conn_ok_def)

lemma clear_vectors_replied:
  assumes "replied c d" "conn_ok c \<Longrightarrow> n \<le> REPLY_SIZE"
  shows "replied c (clear_vectors n d)"
proof -
  have "conn_ok d \<Longrightarrow> n \<le> REPLY_SIZE \<Longrightarrow> conn_ok (clear_vectors n d)"
    by (simp add: conn_ok_def clear_vectors_def Let_def)
  with assms show ?thesis by (simp add: replied_def) (simp add: receiver_half_def clear_vectors_def Let_def)
qed

lemma AddIOVReply_index: "AddIOVReply d src len dm i = Inr x \<Longrightarrow> i < length (rep_base (iovReply d))"
  by (simp add: AddIOVReply_def Let_def split: if_splits)

lemma not_busy_replied: "replied c d \<Longrightarrow> replied c (not_busy d)"
  by (simp add: not_busy_def replied_upd)

lemma Revoke_replied: "replied c d \<Longrightarrow> replied c (snd (Revoke d))"
  by (simp add: Revoke_def replied_upd split: prod.splits)

lemma gets_end_replied:
  assumes "replied c d"
  shows "opost (\<lambda>x. replied c (snd x)) (gets_end m outs sels d)"
proof -
  obtain ix next_ix where ix: "atomicIncrGetAdd (rep_index (iovReply d)) = (ix, next_ix)"
    by (cases "atomicIncrGetAdd (rep_index (iovReply d))")
  let ?d = "d\<lparr>iovReply := (iovReply d)\<lparr>rep_index := next_ix\<rparr>\<rparr>"
  have d: "replied c ?d" using assms by (rule replied_index)
  have add: "opost (\<lambda>x. replied c (snd x) \<and> (conn_ok c \<longrightarrow> unat ix + 1 \<le> REPLY_SIZE)) (Some (AddIOVReply ?d src len dm (unat ix)))"
    for src len dm
  proof -
    have "unat ix + 1 \<le> REPLY_SIZE" if "AddIOVReply ?d src len dm (unat ix) = Inr x" "conn_ok c" for x
      using AddIOVReply_index [OF that(1)] d that(2) by (simp add: replied_def conn_ok_def)
    with rpostD [OF AddIOVReply_replied [OF d]] show ?thesis by (simp add: rpost_def)
  qed
  have chunks: "opost (\<lambda>x. replied c (snd x)) (obind (write_chunks m e y k outs sels)
      (\<lambda>(outs, c). Some (Inr (outs, clear_vectors (unat ix + 1) (clear_reply c)))))"
    if "replied c e" "conn_ok c \<longrightarrow> unat ix + 1 \<le> REPLY_SIZE" for e y k
    by (rule opost_obind [OF write_chunks_replied [OF that(1)]])
      (use that(2) in \<open>auto intro!: clear_vectors_replied clear_reply_replied\<close>)
  show ?thesis
    unfolding gets_end_def Let_def ix prod.case
    by (rule opost_obind [OF add], intro opost_posts(2,3), simp, rule chunks)
      (auto intro: replied_size_index)
qed

lemma AddIOVReply_post: "replied c d \<Longrightarrow> opost (\<lambda>x. replied c (snd x)) (Some (AddIOVReply d src len dm i))"
  by (simp add: AddIOVReply_replied)

lemma set_reply_replied:
  assumes "replied c d"
  shows "opost (\<lambda>x. replied c (snd x)) (set_reply m outs d)"
proof -
  obtain ix next_ix where ix: "atomicIncrGetAdd (rep_index (iovReply d)) = (ix, next_ix)"
    by (cases "atomicIncrGetAdd (rep_index (iovReply d))")
  show ?thesis
    unfolding set_reply_def Let_def ix prod.case
    by (rule opost_obind [OF AddIOVReply_post [OF replied_index [OF assms]]])
      (auto intro!: opost_obind [OF WriteAllOnceIMM_replied] clear_reply_replied not_busy_replied)
qed

subsection \<open>A message of a worker\<close>

text \<open>
  What the handling of the message \<open>am\<close> for the connection \<open>ac\<close> leaves of the server: the settings, the
  queues of the workers and the other pools, the events, the other connections, the other messages; of
  the connection itself the receiver's half.
\<close>

definition untouched :: "server \<Rightarrow> int \<times> int \<times> u32 \<times> (adaptSharedQ \<times> nat) option list \<times> adaptFBSharedQ \<times> ptr list
    \<times> (ptr \<rightharpoonup> aEvent) \<times> ptr set \<times> int list \<times> (u32 \<Rightarrow> nat)" where
  "untouched w = (numCores w, sga_hashsize w, sga_hashmask w, aTSQGKVdata w, aFBSQGaConn w, aTcomm w, events w,
     watched w, closed w, bucket_of (ahashtableptr w))"

definition worker_frame :: "ptr \<Rightarrow> ptr set \<Rightarrow> server \<Rightarrow> server \<Rightarrow> bool" where
  "worker_frame ac M w w' \<longleftrightarrow> untouched w' = untouched w \<and> brk w \<le> brk w'
     \<and> (\<forall>p. p \<noteq> ac \<longrightarrow> conns w' p = conns w p) \<and> (\<forall>p. p \<notin> M \<longrightarrow> msgs w' p = msgs w p)
     \<and> (\<forall>c. conns w ac = Some c \<longrightarrow> (\<exists>d. conns w' ac = Some d \<and> replied c d))"

lemma worker_frame_refl [simp]: "worker_frame ac M w w"
  by (simp add: worker_frame_def)

lemma worker_frame_trans:
  assumes "worker_frame ac M w w1" "worker_frame ac M w1 w2"
  shows "worker_frame ac M w w2"
proof -
  have "\<exists>e. conns w2 ac = Some e \<and> replied c e" if "conns w ac = Some c" for c
    using assms that unfolding worker_frame_def by (blast intro: replied_trans)
  with assms show ?thesis by (simp add: worker_frame_def)
qed

lemma frame_msg: "worker_frame ac M w w1 \<Longrightarrow> am \<in> M \<Longrightarrow> worker_frame ac M w (upd_msg am a w1)"
  by (simp add: worker_frame_def untouched_def upd_msg_def)

lemma frame_conn:
  "worker_frame ac M w w1 \<Longrightarrow> conns w1 ac = Some c \<Longrightarrow> replied c d \<Longrightarrow> worker_frame ac M w (upd_conn ac d w1)"
  by (auto simp: worker_frame_def untouched_def upd_conn_def intro: replied_trans)

lemma frame_upd:
  "worker_frame ac M w w1 \<Longrightarrow> worker_frame ac M w (w1\<lparr>pipes := x\<rparr>)"
  "worker_frame ac M w w1 \<Longrightarrow> worker_frame ac M w (w1\<lparr>aFBSQGaMsg := f\<rparr>)"
  "worker_frame ac M w w1 \<Longrightarrow> bucket_of h = bucket_of (ahashtableptr w1) \<Longrightarrow> worker_frame ac M w (w1\<lparr>ahashtableptr := h\<rparr>)"
  "worker_frame ac M w w1 \<Longrightarrow> brk w1 \<le> b \<Longrightarrow> worker_frame ac M w (w1\<lparr>brk := b\<rparr>)"
  by (auto simp: worker_frame_def untouched_def)

lemma bucket_of_locking: "lock_bucket h l = Inr h' \<Longrightarrow> bucket_of h' = bucket_of h"
    "bucket_of (unlock_bucket l h) = bucket_of h"
  by (auto simp: lock_bucket_def unlock_bucket_def bucket_of_def fun_eq_iff split: if_splits)

lemma bucket_of_step:
  "set_replace h b k kv old = Inr h' \<Longrightarrow> bucket_of h' = bucket_of h"
  "set_append h kv lst = Inr h' \<Longrightarrow> bucket_of h' = bucket_of h"
  "set_head h b kv = Inr h' \<Longrightarrow> bucket_of h' = bucket_of h"
  by (auto simp: set_replace_def set_append_def set_head_def rbind_eq_Inr_iff bucket_of_def fun_eq_iff)

lemma bucket_of_set: "ahashtable_set h hv kv = Some (Inr (r, h')) \<Longrightarrow> bucket_of h' = bucket_of h"
  by (auto simp: ahashtable_set_def Let_def rbind_eq_Inr_iff bucket_of_locking bucket_of_step
      split: if_splits option.splits sum.splits walk.splits)

lemma bucket_of_get: "ahashtable_get h hdr = Some (Inr (r, hdr', h')) \<Longrightarrow> bucket_of h' = bucket_of h"
  by (auto simp: ahashtable_get_def Let_def bucket_of_locking split: if_splits option.splits sum.splits)

lemma store_block_frame: "opost (worker_frame ac M w) (store_block a w)"
  unfolding store_block_def Let_def
  by (intro opost_posts) (auto simp: worker_frame_def untouched_def dest!: bucket_of_set intro!: frame_upd)

lemma check_pending_frame:
  assumes "worker_frame ac M w w1"
  shows "rpost (worker_frame ac M w) (check_pending ok ac w1)"
proof -
  have "worker_frame ac M w (upd_conn ac (c\<lparr>PendingCmdQ := pq\<rparr>) w1)"
    if "fetch (conns w1) ac = Inr c" "aSQempty (PendingCmdQ c) = (e, pq)" for c e pq
  proof -
    have "conns w1 ac = Some c" using that(1) by (auto simp: fetch_def split: option.splits)
    moreover have "Q pq = Q (PendingCmdQ c)" using that(2) by (auto simp: sharedq_defs Let_def)
    ultimately show ?thesis by (intro frame_conn [OF assms]) (auto intro: replied_upd(12))
  qed
  then show ?thesis
    unfolding check_pending_def Let_def by (intro rpost_posts) (auto intro: frame_upd)
qed

lemma finish_msg_frame:
  assumes "worker_frame ac M w w1" "am \<in> M"
  shows "rpost (worker_frame ac M w) (finish_msg am w1)"
  unfolding finish_msg_def aMsgRelease_def
  by (intro rpost_posts) (auto intro!: frame_upd frame_msg assms split: prod.splits)

lemma fetchD: "fetch m p = Inr x \<Longrightarrow> m p = Some x"
  by (simp add: fetch_def split: option.splits)

lemma frame_fetch:
  "worker_frame ac M w w1 \<Longrightarrow> fetch (conns w1) ac = Inr c \<Longrightarrow> replied c d \<Longrightarrow> worker_frame ac M w (upd_conn ac d w1)"
  using frame_conn fetchD by metis

lemma finish_msgD: "finish_msg am w1 = Inr w2 \<Longrightarrow> worker_frame ac M w w1 \<Longrightarrow> am \<in> M \<Longrightarrow> worker_frame ac M w w2"
  using rpostD [OF finish_msg_frame] .

lemma check_pendingD: "check_pending ok ac w1 = Inr w2 \<Longrightarrow> worker_frame ac M w w1 \<Longrightarrow> worker_frame ac M w w2"
  using rpostD [OF check_pending_frame] .

lemma set_replyD: "set_reply m outs d = Some (Inr (x, e)) \<Longrightarrow> replied d e"
  by (drule opostD [OF set_reply_replied [OF replied_refl]]) simp

lemma kv_set_frame:
  assumes "msgs w am = Some a"
  shows "opost (\<lambda>x. worker_frame (am_aC a) {am} w (snd x)) (kv_set ok outs am w)"
proof -
  let ?F = "worker_frame (am_aC a) {am} w"
  have store: "opost ?F (store_block a (upd_msg am b w))" for b
    by (rule opost_mono [OF store_block_frame]) (rule worker_frame_trans [OF frame_msg [OF worker_frame_refl]]; simp)
  have finish: "rpost (\<lambda>x. ?F (snd x)) (rbind (check_pending ok (am_aC a) (upd_conn (am_aC a) e w1)) (\<lambda>w.
       rbind (fetch (conns w) (am_aC a)) (\<lambda>c.
       rbind (finish_msg am (upd_conn (am_aC a) (snd (Revoke c)) w)) (\<lambda>w. Inr (outs, w)))))"
    if "?F w1" "fetch (conns w1) (am_aC a) = Inr d" "replied d e" for w1 d e outs
    by (intro rpost_posts(1), unfold rpost_simps snd_conv, rule finish_msgD, assumption, rule frame_fetch,
        rule check_pendingD, assumption, rule frame_fetch [OF that], assumption, rule Revoke_replied [OF replied_refl], simp)
  show ?thesis
    using assms unfolding kv_set_def
    by (auto intro!: opost_posts finish dest: opostD [OF store] set_replyD)
qed

lemma QReplyD: "QReply m c p key outs = Some (Inr (x, y, z, e)) \<Longrightarrow> replied c e"
  by (drule opostD [OF QReply_replied]) simp

lemma gets_value_frame:
  assumes "msgs w am = Some a"
  shows "opost (\<lambda>x. worker_frame (am_aC a) {am} w (snd x)) (gets_value outs am w)"
proof -
  have get: "worker_frame (am_aC a) {am} w ((upd_msg am b w)\<lparr>ahashtableptr := h\<rparr>)"
    if "bucket_of h = bucket_of (ahashtableptr w)" for b h
    by (rule frame_upd(3)) (simp_all add: frame_msg that)
  have "opost (\<lambda>x. worker_frame (am_aC a) {am} w (snd x)) (obind (Some (fetch (msgs w) am)) f)
      = opost (\<lambda>x. worker_frame (am_aC a) {am} w (snd x)) (f a)" for f :: "aMsg \<Rightarrow> (outcome list \<times> server) result option"
    using assms by simp
  then show ?thesis
    unfolding gets_value_def Let_def
    by (simp only:, intro opost_posts)
      (auto intro!: frame_fetch frame_msg frame_upd(3) get Revoke_replied replied_upd dest: bucket_of_get QReplyD)
qed

lemma gets_endD: "gets_end m outs sels d = Some (Inr (x, e)) \<Longrightarrow> replied c d \<Longrightarrow> replied c e"
  by (drule opostD [OF gets_end_replied, rotated]) simp_all

lemma IsconcPendingD: "IsconcPending (c\<lparr>replyCount := n\<rparr>) = (r, d) \<Longrightarrow> replied c d"
  by (auto simp: IsconcPending_def replied_upd split: prod.splits)

lemma gets_complete_frame:
  assumes w1: "worker_frame ac M w w1"
  shows "opost (\<lambda>x. worker_frame ac M w (snd x)) (gets_complete ok outs sels ac w1)"
proof -
  have last: "rpost (\<lambda>x. worker_frame ac M w (snd x))
      (rbind (check_pending ok ac (upd_conn ac (not_busy (e\<lparr>conWatchSent := k\<rparr>)) w1)) (\<lambda>w. Inr (outs, w)))"
    if "fetch (conns w1) ac = Inr c" "replied c d" "gets_end m outs0 sels (d\<lparr>replyCount := v, reqCount := 0\<rparr>) = Some (Inr (outs, e))"
    for c d e m outs0 outs v k
  proof (intro rpost_posts(1), unfold rpost_simps snd_conv, rule check_pendingD, assumption)
    have "replied c e" by (rule gets_endD [OF that(3)]) (simp add: that(2) replied_upd)
    then show "worker_frame ac M w (upd_conn ac (not_busy (e\<lparr>conWatchSent := k\<rparr>)) w1)"
      by (intro frame_fetch [OF w1 that(1)] not_busy_replied replied_upd)
  qed
  show ?thesis
    unfolding gets_complete_def Let_def
    by (intro opost_posts) (auto intro!: frame_fetch [OF w1] replied_upd(5) last [OF _ IsconcPendingD] dest: IsconcPendingD)
qed

lemma kv_gets_frame:
  assumes "msgs w am = Some a"
  shows "opost (\<lambda>x. worker_frame (am_aC a) {am} w (snd x)) (kv_gets ok outs sels am w)"
proof -
  have "opost (\<lambda>x. worker_frame (am_aC a) {am} w (snd x)) (obind (gets_value outs am w) (\<lambda>(outs, w).
     obind (gets_complete ok outs sels (am_aC a) w) (\<lambda>(outs, w). Some (rbind (finish_msg am w) (\<lambda>w. Inr (outs, w))))))"
    by (rule opost_obind [OF gets_value_frame [OF assms]])
      (auto intro!: opost_obind [OF gets_complete_frame] rpost_rbind [OF finish_msg_frame])
  then show ?thesis using assms by (simp add: kv_gets_def)
qed

lemma kv_handle_frame:
  assumes "msgs w am = Some a"
  shows "opost (\<lambda>x. worker_frame (am_aC a) {am} w (snd x)) (kv_handle ok outs sels am w)"
  using assms kv_set_frame [OF assms] kv_gets_frame [OF assms] by (simp add: kv_handle_def)

lemma worker_frame_mono: "worker_frame ac M w w' \<Longrightarrow> M \<subseteq> N \<Longrightarrow> worker_frame ac N w w'"
  unfolding worker_frame_def by blast

lemma kv_run_frame:
  assumes "distinct ams" "\<forall>am \<in> set ams. \<exists>a. msgs w am = Some a \<and> am_aC a = ac"
  shows "opost (\<lambda>x. worker_frame ac (set ams) w (snd x)) (kv_run ok sels ams outs w)"
  using assms
proof (induction ams arbitrary: w outs)
  case (Cons am ams)
  then obtain a where a: "msgs w am = Some a" "am_aC a = ac" by auto
  show ?case unfolding kv_run.simps
  proof (rule opost_obind [OF kv_handle_frame [OF a(1)]], intro opost_posts(3))
    fix x and outs1 :: "outcome list" and w1 :: server assume x: "worker_frame (am_aC a) {am} w (snd x)" "x = (outs1, w1)"
    then have w1: "worker_frame ac {am} w w1" by (simp add: a(2))
    then have "\<forall>q \<in> set ams. \<exists>b. msgs w1 q = Some b \<and> am_aC b = ac"
      using Cons.prems by (auto simp: worker_frame_def)
    from Cons.IH [OF _ this] Cons.prems(1)
    have "opost (\<lambda>x. worker_frame ac (set ams) w1 (snd x)) (kv_run ok sels ams outs1 w1)" by simp
    then show "opost (\<lambda>x. worker_frame ac (set (am # ams)) w (snd x)) (kv_run ok sels ams outs1 w1)"
      by (rule opost_mono) (meson w1 worker_frame_mono worker_frame_trans empty_subsetI insert_subset list.set_intros(1) set_subset_Cons)
  qed
qed simp

text \<open>The message goes back to the pool, once; nothing else happens to the pool.\<close>

lemma store_block_pool: "opost (\<lambda>w'. aFBSQGaMsg w' = aFBSQGaMsg w) (store_block a w)"
  unfolding store_block_def Let_def by (intro opost_posts) simp

lemma check_pending_pool: "rpost (\<lambda>w'. aFBSQGaMsg w' = aFBSQGaMsg w) (check_pending ok ac w)"
  unfolding check_pending_def Let_def by (intro rpost_posts) simp_all

lemma finish_msg_pool: "rpost (\<lambda>w'. aFBSQGaMsg w' = snd (aSGARelease (aFBSQGaMsg w) am)) (finish_msg am w)"
  unfolding finish_msg_def aMsgRelease_def by (intro rpost_posts) (simp split: prod.splits)

lemma gets_value_pool: "opost (\<lambda>x. aFBSQGaMsg (snd x) = aFBSQGaMsg w) (gets_value outs am w)"
  unfolding gets_value_def Let_def by (intro opost_posts) simp_all

lemma gets_complete_pool: "opost (\<lambda>x. aFBSQGaMsg (snd x) = aFBSQGaMsg w) (gets_complete ok outs sels ac w)"
  unfolding gets_complete_def Let_def
  by (intro opost_posts) (auto intro!: rpost_rbind [OF check_pending_pool])

lemmas poolD = opostD [OF store_block_pool] rpostD [OF check_pending_pool] rpostD [OF finish_msg_pool]
  opostD [OF gets_value_pool] opostD [OF gets_complete_pool]

lemma kv_handle_pool:
  assumes "msgs w am = Some a" "am_ctype a = ACACHED_CMD_SET \<or> am_ctype a = ACACHED_CMD_GETS"
    and "kv_handle ok outs sels am w = Some (Inr (r, w'))"
  shows "aFBSQGaMsg w' = snd (aSGARelease (aFBSQGaMsg w) am)"
  using assms
  by (auto simp: kv_handle_def kv_set_def kv_gets_def obind_eq_Some_Inr_iff rbind_eq_Inr_iff split: if_splits
      dest!: poolD)

end
