(* ===== verification/KVView.thy ===== *)
theory KVView
  imports KVSet "HOL-Library.Sublist"
begin

section \<open>The server as a key-value store\<close>

text \<open>
  What a client can see of the table: for each bucket the list of its items, a block with its key and
  its value as strings. A SET of a key takes the place of the first item whose key and value, one
  behind the other, begin with that key; a GET finds the first such item. The bytes behind the value,
  which a GET overwrites, are not seen.
\<close>

type_synonym item = "ptr \<times> string \<times> char list"

definition clean :: "string \<Rightarrow> bool" where
  "clean s \<longleftrightarrow> NUL \<notin> set s \<and> CR \<notin> set s"

definition hit :: "string \<Rightarrow> item \<Rightarrow> bool" where
  "hit s x \<longleftrightarrow> prefix s (fst (snd x) @ snd (snd x))"

fun item_put :: "item \<Rightarrow> item list \<Rightarrow> item list" where
  "item_put x [] = [x]"
| "item_put x (y # ys) = (if hit (fst (snd x)) y then x # ys else y # item_put x ys)"

fun item_get :: "string \<Rightarrow> item list \<Rightarrow> item option" where
  "item_get s [] = None"
| "item_get s (y # ys) = (if hit s y then Some y else item_get s ys)"

lemma item_get_put: "item_get s (item_put (p, s, v) ys) = Some (p, s, v)"
  by (induction ys) (auto simp: hit_def)

lemma item_get_some: "item_get s ys = Some x \<Longrightarrow> x \<in> set ys \<and> hit s x"
  by (induction ys) (auto split: if_splits)

subsection \<open>Items and entries\<close>

fun item_of :: "ptr \<times> entry \<Rightarrow> item" where
  "item_of (p, kl, vl, bs) = (p, take (unat kl) bs, take (unat vl) (drop (unat kl) bs))"

fun item_ok :: "entry \<Rightarrow> bool" where
  "item_ok (kl, vl, bs) \<longleftrightarrow> unat kl + unat vl + 2 \<le> length bs \<and> bs ! (unat kl + unat vl) \<in> {NUL, CR}
     \<and> NUL \<in> set (drop (unat kl + unat vl + 2) bs) \<and> clean (take (unat kl) bs) \<and> unat vl + 2 < 2 ^ 31"

lemma fst_item_of [simp]: "fst (item_of x) = fst x"
  by (cases x) auto

lemma item_ok_entry: "item_ok e \<Longrightarrow> entry_ok e"
  by (cases e) (auto dest: in_set_dropD)

text \<open>Comparing a clean string with the bytes of an entry is looking for it at their start.\<close>

lemma strncmp_prefix:
  assumes "NUL \<notin> set s"
  shows "strncmp_eq (length s) (s @ r) bs = Some True \<longleftrightarrow> prefix s bs"
  using assms
proof (induction s arbitrary: bs)
  case Nil
  then show ?case by (cases r; cases bs) auto
next
  case (Cons c s)
  then show ?case by (cases bs) auto
qed

lemma prefix_item:
  assumes "item_ok (kl, vl, bs)" "clean s"
  shows "prefix s bs \<longleftrightarrow> prefix s (take (unat kl + unat vl) bs)"
proof
  let ?n = "unat kl + unat vl"
  assume p: "prefix s bs"
  have "length s \<le> ?n"
  proof (rule ccontr)
    assume "\<not> length s \<le> ?n"
    then have "s ! ?n = bs ! ?n" "s ! ?n \<in> set s"
      using p by (auto simp: prefix_def nth_append)
    with assms show False by (auto simp: clean_def)
  qed
  with p show "prefix s (take ?n bs)" by (auto simp: prefix_def)
next
  assume "prefix s (take (unat kl + unat vl) bs)"
  then show "prefix s bs" using take_is_prefix prefix_order.trans by blast
qed

lemma matches_hit:
  assumes "item_ok e" "clean s"
  shows "matches (length s) (s @ r) e \<longleftrightarrow> hit s (item_of (p, e))"
proof -
  obtain kl vl bs where e: "e = (kl, vl, bs)" by (cases e)
  have "take (unat kl + unat vl) bs = take (unat kl) bs @ take (unat vl) (drop (unat kl) bs)"
    by (rule take_add)
  then show ?thesis
    using prefix_item [of kl vl bs s] strncmp_prefix [of s r bs] assms by (simp add: e hit_def clean_def)
qed

lemma set_key_hit:
  assumes "item_ok e" "item_ok e'"
  shows "set_key e e' \<longleftrightarrow> hit (fst (snd (item_of (p, e)))) (item_of (q, e'))"
proof -
  obtain kl vl bs where e: "e = (kl, vl, bs)" by (cases e)
  have "matches (length (take (unat kl) bs)) (take (unat kl) bs @ drop (unat kl) bs) e'
      \<longleftrightarrow> hit (take (unat kl) bs) (item_of (q, e'))"
    using assms by (intro matches_hit) (simp_all add: e)
  moreover have "length (take (unat kl) bs) = unat kl" using assms(1) by (simp add: e)
  ultimately show ?thesis by (simp add: e)
qed

subsection \<open>The view of the table\<close>

definition srv_store :: "server \<Rightarrow> (nat \<Rightarrow> item list) \<Rightarrow> bool" where
  "srv_store w B \<longleftrightarrow> (\<exists>A. srv_table w A \<and> (\<forall>b. \<forall>x \<in> set (A b). item_ok (snd x)) \<and> B = (\<lambda>b. map item_of (A b)))"

lemma srv_store_grows:
  assumes "srv_store w B" "ahashtableptr w' = ahashtableptr w" "brk w \<le> brk w'"
  shows "srv_store w' B"
proof -
  have "srv_table w' A" if A: "srv_table w A" for A
  proof -
    have "fst ` set (A b) \<subseteq> {..<brk w}" for b using A by (simp add: srv_table_def)
    moreover have "{..<brk w} \<subseteq> {..<brk w'}" using assms(3) by simp
    ultimately have "fst ` set (A b) \<subseteq> {..<brk w'}" for b by (rule subset_trans)
    then show ?thesis using A assms(2,3) by (simp add: srv_table_def)
  qed
  then show ?thesis using assms(1) by (auto simp: srv_store_def)
qed

lemma map_bucket_put:
  assumes "item_ok (snd x)" "\<forall>y \<in> set ys. item_ok (snd y)"
  shows "map item_of (bucket_put (set_key (snd x)) x ys) = item_put (item_of x) (map item_of ys)"
  using assms
proof (induction ys)
  case (Cons y ys)
  then show ?case
    using set_key_hit [of "snd x" "snd y" "fst x" "fst y"] by simp
qed simp

lemma bucket_get_item:
  assumes "\<forall>y \<in> set ys. item_ok (snd y)" "clean s"
    and "hdr_key hdr = s @ r" "hdr_keylen hdr = int (length s)" "length s < 2 ^ 64" "NULL \<notin> fst ` set ys"
  shows "bucket_get (get_key hdr) ys = (case item_get s (map item_of ys) of None \<Rightarrow> NULL | Some x \<Rightarrow> fst x)"
  using assms
proof (induction ys)
  case (Cons y ys)
  have "size_t_of_int (int (length s)) = length s" using assms(5) by (simp add: size_t_of_int_def)
  then have "get_key hdr (snd y) \<longleftrightarrow> hit s (item_of y)"
    using matches_hit [of "snd y" s r "fst y"] Cons.prems by (simp add: get_key_def)
  then show ?case using Cons by simp
qed simp

text \<open>The item of a new block.\<close>

lemma item_of_block_for:
  assumes "length key + length val + 34 < 2 ^ 31"
  shows "item_of (p, entry_of (block_for key val)) = (p, key, val)"
proof -
  have "unat (of_nat (length key) :: u32) = length key" "unat (of_nat (length val) :: u32) = length val"
    using assms by (auto intro!: unat_of_nat_small)
  then show ?thesis by (simp add: entry_of_def block_for_def)
qed

lemma item_ok_block_for:
  assumes "length key + length val + 34 < 2 ^ 31" "clean key"
  shows "item_ok (entry_of (block_for key val))"
proof -
  have u: "unat (of_nat (length key) :: u32) = length key" "unat (of_nat (length val) :: u32) = length val"
    using assms(1) by (auto intro!: unat_of_nat_small)
  have "drop 2 (replicate 10 NUL) \<noteq> []" by simp
  then show ?thesis using assms by (simp add: entry_of_def block_for_def u nth_append)
qed

subsection \<open>GET and SET on the view\<close>

lemma bucket_ok_live:
  assumes "bucket_ok h xs b" "x \<in> set xs"
  shows "\<exists>k. mem h (fst x) = Some k \<and> snd x = entry_of k" "fst x \<noteq> NULL"
proof -
  have d: "dll (mem h) (map fst xs)" and e: "map snd xs = entries (mem h) (map fst xs)"
    using assms(1) by (simp_all add: bucket_ok_def)
  obtain i where i: "i < length xs" "x = xs ! i" using assms(2) by (metis in_set_conv_nth)
  obtain n where n: "mem h (map fst xs ! i) = Some n"
    using d i(1) unfolding dll_def by (metis length_map)
  have "snd x = entries (mem h) (map fst xs) ! i" using i arg_cong [OF e, of "\<lambda>l. l ! i"] by simp
  with n i show "\<exists>k. mem h (fst x) = Some k \<and> snd x = entry_of k" by (simp add: entries_def)
  have "NULL \<notin> set (map fst xs)" using d by (simp add: dll_def)
  with assms(2) show "fst x \<noteq> NULL" by force
qed

lemma table_bucket_ok: "table_rel h A \<Longrightarrow> x \<in> set (A b) \<Longrightarrow> bucket_ok h (A b) b"
  unfolding table_rel_def by (metis empty_iff leI list.set(1))

text \<open>The block of an item.\<close>

definition holds :: "store \<Rightarrow> item \<Rightarrow> KVdata \<Rightarrow> bool" where
  "holds m x k \<longleftrightarrow> m (fst x) = Some k \<and> x = item_of (fst x, entry_of k) \<and> item_ok (entry_of k)"

lemma srv_store_holds:
  assumes "srv_store w B" "x \<in> set (B b)"
  shows "\<exists>k. holds (mem (ahashtableptr w)) x k"
proof -
  obtain A where A: "srv_table w A" "\<forall>b. \<forall>x \<in> set (A b). item_ok (snd x)" "B = (\<lambda>b. map item_of (A b))"
    using assms(1) by (auto simp: srv_store_def)
  then obtain y where y: "y \<in> set (A b)" "x = item_of y" using assms(2) by auto
  with A bucket_ok_live [OF table_bucket_ok] obtain k
    where "mem (ahashtableptr w) (fst y) = Some k" "snd y = entry_of k"
    by (metis srv_table_def)
  with y A(2) show ?thesis unfolding holds_def by (metis fst_item_of prod.collapse)
qed

lemma srv_store_get:
  assumes B: "srv_store w B" and s: "clean s" "hdr_key hdr = s @ r" "hdr_keylen hdr = int (length s)"
    "length s < 2 ^ 64"
  shows "\<exists>h. ahashtable_get (ahashtableptr w) hdr = Some (Inr
      (case item_get s (B (bucket_of (ahashtableptr w) (hdr_hashval hdr))) of None \<Rightarrow> (- 1, hdr, h)
       | Some x \<Rightarrow> (0, hdr\<lparr>hdr_KVdataptr := fst x\<rparr>, h)))
    \<and> mem h = mem (ahashtableptr w) \<and> bucket_of h = bucket_of (ahashtableptr w)
    \<and> srv_store (w\<lparr>ahashtableptr := h\<rparr>) B"
proof -
  let ?h = "ahashtableptr w"
  let ?b = "bucket_of ?h (hdr_hashval hdr)"
  obtain A where A: "srv_table w A" "\<forall>b. \<forall>x \<in> set (A b). item_ok (snd x)" "B = (\<lambda>b. map item_of (A b))"
    using B by (auto simp: srv_store_def)
  have rel: "table_rel ?h A" using A(1) by (simp add: srv_table_def)
  have null: "fst x \<noteq> NULL" if "x \<in> set (A ?b)" for x
    using bucket_ok_live(2) [OF table_bucket_ok [OF rel that] that] .
  have q: "bucket_get (get_key hdr) (A ?b) = (case item_get s (B ?b) of None \<Rightarrow> NULL | Some x \<Rightarrow> fst x)"
    unfolding A(3) 
    by (rule bucket_get_item [OF _ s]) (use A(2) in simp, use null in \<open>metis imageE\<close>)
  have "size_t_of_int (hdr_keylen hdr) = length s" using s(3,4) by (simp add: size_t_of_int_def)
  then have "key_readable hdr" using s(2) by (simp add: key_readable_def)
  note get = get_rel [OF rel this]
  let ?h' = "?h\<lparr>hashtablelock := (hashtablelock ?h)[lock_of ?h ?b := False]\<rparr>"
  have pos: "fst x \<noteq> NULL" if "item_get s (B ?b) = Some x" for x
    using item_get_some [OF that] null unfolding A(3) by auto
  have "srv_store (w\<lparr>ahashtableptr := ?h'\<rparr>) B"
    unfolding srv_store_def using A get_rel_table [OF rel] by (intro exI [of _ A]) (simp add: srv_table_def)
  then show ?thesis
    using get q pos by (intro exI [of _ ?h']) (auto simp: get_result_def split: option.splits)
qed

lemma srv_store_set:
  assumes a: "set_msg a key val" and key: "clean key" and B: "srv_store w B"
  defines "b \<equiv> bucket_of (ahashtableptr w) (hdr_hashval (am_hdr a))"
  shows "\<exists>A. srv_table w A \<and> (\<forall>w'. srv_table w' (A(b := bucket_put (set_key (entry_of (block_for key val)))
      (brk w, entry_of (block_for key val)) (A b))) \<longrightarrow> srv_store w' (B(b := item_put (brk w, key, val) (B b))))"
proof -
  let ?e = "entry_of (block_for key val)"
  obtain A where A: "srv_table w A" "\<forall>b. \<forall>x \<in> set (A b). item_ok (snd x)" "B = (\<lambda>b. map item_of (A b))"
    using B by (auto simp: srv_store_def)
  have len: "length key + length val + 34 < 2 ^ 31" using a by (auto simp: set_msg_def)
  have ok: "item_ok ?e" by (rule item_ok_block_for [OF len key])
  let ?A = "A(b := bucket_put (set_key ?e) (brk w, ?e) (A b))"
  have "\<forall>c. \<forall>x \<in> set (?A c). item_ok (snd x)"
  proof (intro allI ballI)
    fix c x assume "x \<in> set (?A c)"
    then have "x \<in> insert (brk w, ?e) (set (A c))"
      using set_bucket_put [of "set_key ?e" "(brk w, ?e)" "A b"] by (cases "c = b") auto
    then show "item_ok (snd x)" using A(2) ok by auto
  qed
  moreover have "map item_of (bucket_put (set_key ?e) (brk w, ?e) (A b)) = item_put (brk w, key, val) (B b)"
    using map_bucket_put [of "(brk w, ?e)" "A b"] ok A(2,3) item_of_block_for [OF len, of "brk w"] by simp
  then have "(\<lambda>c. map item_of (?A c)) = B(b := item_put (brk w, key, val) (B b))"
    using A(3) by auto
  ultimately show ?thesis using A(1) unfolding srv_store_def by metis
qed

subsection \<open>The bytes behind the value\<close>

fun crlf_entry :: "entry \<Rightarrow> entry" where
  "crlf_entry (kl, vl, bs) = (kl, vl, bs[unat kl + unat vl := CR, Suc (unat kl + unat vl) := LF])"

lemma entry_of_crlf: "entry_of (crlf k) = crlf_entry (entry_of k)"
  by (simp add: entry_of_def crlf_def Let_def)

lemma crlf_simps [simp]: "nxt (crlf k) = nxt k" "prv (crlf k) = prv k" "kv_keylen (crlf k) = kv_keylen k"
  "kv_vallen (crlf k) = kv_vallen k" "length (kvbytes (crlf k)) = length (kvbytes k)"
  by (simp_all add: crlf_def Let_def)

lemma crlf_crlf [simp]: "crlf (crlf k) = crlf k"
  by (simp add: crlf_def Let_def list_update_swap)

lemma crlf_entry_ok:
  assumes "item_ok e"
  shows "item_ok (crlf_entry e)" "item_of (p, crlf_entry e) = item_of (p, e)"
proof -
  obtain kl vl bs where e: "e = (kl, vl, bs)" by (cases e)
  let ?n = "unat kl + unat vl"
  have "drop (?n + 2) (bs[?n := CR, Suc ?n := LF]) = drop (?n + 2) bs"
    "take (unat kl) (bs[?n := CR, Suc ?n := LF]) = take (unat kl) bs"
    by simp_all
  moreover have "take (unat vl) (drop (unat kl) (bs[?n := CR, Suc ?n := LF])) = take (unat vl) (drop (unat kl) bs)"
    by (simp add: drop_update_swap)
  ultimately show "item_ok (crlf_entry e)" "item_of (p, crlf_entry e) = item_of (p, e)"
    using assms by (simp_all add: e nth_list_update)
qed

definition touch :: "ptr \<Rightarrow> bucket \<Rightarrow> bucket" where
  "touch p = map (\<lambda>x. (fst x, if fst x = p then crlf_entry (snd x) else snd x))"

lemma fst_touch [simp]: "map fst (touch p xs) = map fst xs" "fst ` set (touch p xs) = fst ` set xs"
  by (auto simp: touch_def comp_def image_image)

lemma bucket_ok_touch:
  assumes "bucket_ok h xs b" "mem h p = Some k" "\<forall>x \<in> set xs. item_ok (snd x)"
  shows "bucket_ok (h\<lparr>mem := (mem h)(p \<mapsto> crlf k)\<rparr>) (touch p xs) b"
proof -
  let ?m = "(mem h)(p \<mapsto> crlf k)"
  have d: "dll (mem h) (map fst xs)" and e: "map snd xs = entries (mem h) (map fst xs)"
    using assms(1) by (simp_all add: bucket_ok_def)
  have same: "\<exists>n'. ?m q = Some n' \<and> prv n' = prv n \<and> nxt n' = nxt n" if "mem h q = Some n" for q n
    using that assms(2) by (cases "q = p") auto
  have "dll ?m (map fst xs)" unfolding dll_def
  proof (intro conjI allI impI)
    show "distinct (map fst xs)" "NULL \<notin> set (map fst xs)" using d by (simp_all add: dll_def)
    fix i assume i: "i < length (map fst xs)"
    then obtain n where n: "mem h (map fst xs ! i) = Some n" "prv n = (if i = 0 then NULL else map fst xs ! (i - 1))"
      "nxt n = (if Suc i < length (map fst xs) then map fst xs ! Suc i else NULL)"
      by (rule dllD [OF d])
    from same [OF n(1)] n(2,3) show "\<exists>n. ?m (map fst xs ! i) = Some n
        \<and> prv n = (if i = 0 then NULL else map fst xs ! (i - 1))
        \<and> nxt n = (if Suc i < length (map fst xs) then map fst xs ! Suc i else NULL)" by auto
  qed
  moreover have "map snd (touch p xs) = entries ?m (map fst xs)"
  proof -
    have "(if fst x = p then crlf_entry (snd x) else snd x) = entry_of (the (?m (fst x)))" if "x \<in> set xs" for x
      using bucket_ok_live(1) [OF assms(1) that] assms(2) by (auto simp: entry_of_crlf)
    then show ?thesis by (simp add: touch_def entries_def)
  qed
  moreover have "\<forall>x \<in> set (touch p xs). entry_ok (snd x)"
    using assms(3) by (auto simp: touch_def item_ok_entry crlf_entry_ok)
  ultimately show ?thesis using assms(1) by (simp add: bucket_ok_def)
qed

lemma srv_store_crlf:
  assumes "srv_store w B" "mem (ahashtableptr w) p = Some k"
  shows "srv_store (w\<lparr>ahashtableptr := (ahashtableptr w)\<lparr>mem := (mem (ahashtableptr w))(p \<mapsto> crlf k)\<rparr>\<rparr>) B"
proof -
  let ?h = "ahashtableptr w"
  let ?h' = "?h\<lparr>mem := (mem ?h)(p \<mapsto> crlf k)\<rparr>"
  obtain A where A: "srv_table w A" "\<forall>b. \<forall>x \<in> set (A b). item_ok (snd x)" "B = (\<lambda>b. map item_of (A b))"
    using assms(1) by (auto simp: srv_store_def)
  let ?A = "\<lambda>b. touch p (A b)"
  have "table_rel ?h' ?A"
    using A(1,2) bucket_ok_touch [OF _ assms(2)]
    by (auto simp: srv_table_def table_rel_def table_shape_def) (simp add: touch_def)
  moreover have "map item_of (?A b) = B b" for b
  proof -
    have "item_of (fst x, if fst x = p then crlf_entry (snd x) else snd x) = item_of x"
      if "x \<in> set (A b)" for x
      using crlf_entry_ok(2) [of "snd x" "fst x"] A(2) that by (auto simp del: item_of.simps crlf_entry.simps)
    then show ?thesis by (simp add: touch_def A(3))
  qed
  moreover have "\<forall>b. \<forall>x \<in> set (?A b). item_ok (snd x)"
    using A(2) by (auto simp: touch_def crlf_entry_ok)
  ultimately show ?thesis
    using A(1) unfolding srv_store_def by (intro exI [of _ ?A]) (auto simp: srv_table_def)
qed

end
