(* ===== verification/KVGet.thy ===== *)
theory KVGet
  imports KVView
begin

section \<open>What a GET does\<close>

text \<open>
  The GET handler of a worker against the key-value view: the keys of a command, each in a message of
  its own, are answered one after the other; each key that is found queues its line and its value, and
  the last one sends all that is queued, \<open>END\<close> behind it.
\<close>

subsection \<open>A connection with a part of its reply queued\<close>

definition settled :: "store \<Rightarrow> iobase list \<Rightarrow> bool" where
  "settled m bs \<longleftrightarrow> (\<forall>p off. Value p off \<in> set bs \<longrightarrow> (\<exists>k. m p = Some k \<and> crlf k = k))"

text \<open>
  The first \<open>t\<close> vectors hold the bytes \<open>D\<close>; the vectors behind are empty, but for the first, which may be
  stale from a SET.
\<close>

definition replying :: "store \<Rightarrow> aConn \<Rightarrow> nat \<Rightarrow> char list \<Rightarrow> bool" where
  "replying m c t D \<longleftrightarrow> conn_ok c \<and> t \<le> REPLY_SIZE \<and> rep_index (iovReply c) = of_nat t
     \<and> windexlast c = 0 \<and> writingflag c = 0 \<and> totalsize c = of_nat (length D)
     \<and> gather m (take t (rep_base (iovReply c))) (take t (rep_len (iovReply c))) = Inr D
     \<and> settled m (take t (rep_base (iovReply c)))
     \<and> (\<forall>i < t. REPLY_WRITTEN \<in> rep_desc (iovReply c) ! i)
     \<and> (\<forall>i < REPLY_SIZE. 0 < i \<and> t \<le> i \<longrightarrow> rep_len (iovReply c) ! i = 0)"

text \<open>What a client and the other threads see of a connection is as before.\<close>

definition same_client :: "aConn \<Rightarrow> aConn \<Rightarrow> bool" where
  "same_client c d \<longleftrightarrow> wire c = wire d \<and> Busy c = Busy d \<and> reqCount c = reqCount d \<and> replyCount c = replyCount d
     \<and> concPending c = concPending d \<and> Q (PendingCmdQ c) = Q (PendingCmdQ d) \<and> cSockFd c = cSockFd d
     \<and> aTcommptr c = aTcommptr d"

lemma same_client_refl [simp]: "same_client c c"
  by (simp add: same_client_def)

lemma same_client_trans: "same_client c d \<Longrightarrow> same_client d e \<Longrightarrow> same_client c e"
  by (simp add: same_client_def)

lemma gather_upd:
  "\<forall>off. Value p off \<notin> set bs \<Longrightarrow> gather (m(p \<mapsto> k)) bs ns = gather m bs ns"
proof (induction m bs ns rule: gather.induct)
  case (1 m b bs n ns)
  then have "iov_bytes (m(p \<mapsto> k)) b n = iov_bytes m b n" by (cases b) (auto simp: iov_bytes_def)
  with 1 show ?case by (simp del: fun_upd_apply)
qed simp_all

text \<open>Ending a value with CR LF does not change what is queued already.\<close>

lemma gather_crlf:
  assumes "settled m bs" "m p = Some k"
  shows "gather (m(p \<mapsto> crlf k)) bs ns = gather m bs ns" "settled (m(p \<mapsto> crlf k)) bs"
proof -
  have same: "m(p \<mapsto> crlf k) = m" if "Value p off \<in> set bs" for off
    using assms that unfolding settled_def by (metis fun_upd_triv option.sel)
  then show "gather (m(p \<mapsto> crlf k)) bs ns = gather m bs ns"
    using gather_upd [of p bs m "crlf k" ns] by (cases "\<exists>off. Value p off \<in> set bs") auto
  show "settled (m(p \<mapsto> crlf k)) bs"
    using assms(1) unfolding settled_def by (auto simp: crlf_crlf)
qed

lemma take_update_two: "Suc t < length xs \<Longrightarrow> take (Suc (Suc t)) (xs[t := x, Suc t := y]) = take t xs @ [x, y]"
  by (rule nth_equalityI) (auto simp: nth_append nth_list_update less_Suc_eq)

definition value_reply :: "string \<Rightarrow> char list \<Rightarrow> char list" where
  "value_reply s v = value_line s (of_nat (length v)) @ v @ [CR, LF]"

lemma holds_value:
  assumes "holds m (p, key, v) k"
  shows "m p = Some k" "unat (kv_vallen k) = length v" "kv_vallen k = of_nat (length v)"
    "unat (kv_keylen k) + length v + 2 \<le> length (kvbytes k)"
    "v = take (length v) (drop (unat (kv_keylen k)) (kvbytes k))" "length v + 2 < 2 ^ 31"
proof -
  show n: "unat (kv_vallen k) = length v" using assms by (auto simp: holds_def entry_of_def)
  show "kv_vallen k = of_nat (length v)" using arg_cong [OF n, of "of_nat :: nat \<Rightarrow> u32"] by simp
  show "m p = Some k" "unat (kv_keylen k) + length v + 2 \<le> length (kvbytes k)" "length v + 2 < 2 ^ 31"
    using assms n by (auto simp: holds_def entry_of_def)
  have "v = take (unat (kv_vallen k)) (drop (unat (kv_keylen k)) (kvbytes k))"
    using assms by (simp add: holds_def entry_of_def)
  then show "v = take (length v) (drop (unat (kv_keylen k)) (kvbytes k))" by (simp only: n)
qed

lemma replying_value:
  assumes r: "replying m c t D" and k: "holds m (p, key, v) k" and s: "NUL \<notin> set s" "cstr buf = s"
    and t: "t < 998" and small: "length D + length (value_reply s v) \<le> 126 * 1024"
  shows "\<exists>c'. QReply m c p buf outs = Some (Inr (0, outs, m(p \<mapsto> crlf k), c'))
    \<and> replying (m(p \<mapsto> crlf k)) c' (t + 2) (D @ value_reply s v) \<and> same_client c' c"
proof -
  note kv = holds_value [OF k]
  let ?line = "value_line s (kv_vallen k)" and ?m = "m(p \<mapsto> crlf k)" and ?kl = "unat (kv_keylen k)"
  let ?c = "queue_value ?line p k t c"
  have ok: "conn_ok c" and len: "length (rep_base (iovReply c)) = REPLY_SIZE" "length (rep_len (iovReply c)) = REPLY_SIZE"
    "length (rep_desc (iovReply c)) = REPLY_SIZE"
    using r by (simp_all add: replying_def conn_ok_def)
  have tot: "unat (totalsize c) = length D"
    using r small unat_of_nat_small [of "length D"] by (simp add: replying_def)
  have vr: "value_reply s v = ?line @ v @ [CR, LF]" using kv(3) by (simp add: value_reply_def)
  have sm: "unat (totalsize c) + length ?line + unat (kv_vallen k) + 2 \<le> 126 * 1024"
    using small by (simp add: tot vr kv(2))
  have run: "QReply m c p buf outs = Some (Inr (0, outs, ?m, ?c))"
  proof (rule QReply_eq(1))
    show "unat (kv_keylen k) + unat (kv_vallen k) + 2 \<le> length (kvbytes k)" "unat (kv_vallen k) + 2 < 2 ^ 32"
      using kv(2,4,6) by simp_all
    show "rep_index (iovReply c) = of_nat t" "windexlast c = 0" using r by (simp_all add: replying_def)
    show "t < 1000" using t by simp
  qed (use kv(1) ok s sm in simp_all)
  have vb: "iov_bytes ?m (Value p ?kl) (length v + 2) = Inr (v @ [CR, LF])"
    using value_in_block [of ?kl "length v" "kvbytes k" CR LF] kv(2,4,5)
    by (simp add: iov_bytes_def crlf_def Let_def)
  have lb: "iov_bytes ?m (Copied (?line @ [NUL])) (length ?line) = Inr ?line" by (auto simp: iov_bytes_def)
  have g: "gather ?m (take (t + 2) (rep_base (iovReply ?c))) (take (t + 2) (rep_len (iovReply ?c)))
      = Inr (D @ value_reply s v)"
  proof -
    have st: "settled m (take t (rep_base (iovReply c)))"
      "gather m (take t (rep_base (iovReply c))) (take t (rep_len (iovReply c))) = Inr D"
      using r by (simp_all add: replying_def)
    have "gather ?m (take t (rep_base (iovReply c)) @ [Copied (?line @ [NUL]), Value p ?kl])
        (take t (rep_len (iovReply c)) @ [length ?line, length v + 2]) = Inr (D @ value_reply s v)"
      using gather_crlf(1) [OF st(1) kv(1)] st(2) len lb vb
      by (simp add: gather_append vr del: fun_upd_apply)
    then show ?thesis
      using t len by (simp only: queue_value_simps kv(2)) (simp add: take_update_two del: fun_upd_apply)
  qed
  have set: "settled ?m (take (t + 2) (rep_base (iovReply ?c)))"
  proof -
    have "settled ?m (take t (rep_base (iovReply c)))"
      using gather_crlf(2) [where m = m, OF _ kv(1)] r unfolding replying_def by blast
    moreover have "settled ?m (take t (rep_base (iovReply c)) @ [Copied (?line @ [NUL]), Value p ?kl])
        = settled ?m (take t (rep_base (iovReply c)))"
      by (auto simp: settled_def)
    ultimately show ?thesis
      using t len by (simp only: queue_value_simps) (simp add: take_update_two del: fun_upd_apply)
  qed
  have "replying ?m ?c (t + 2) (D @ value_reply s v)"
    unfolding replying_def
  proof (intro conjI g set)
    show "conn_ok ?c" using ok by (simp add: queue_value_def Let_def reply_at_ok conn_ok_def reply_at_def)
    show "t + 2 \<le> REPLY_SIZE" using t by simp
    show "rep_index (iovReply ?c) = of_nat (t + 2)" by (simp add: queue_value_simps)
    show "windexlast ?c = 0" "writingflag ?c = 0"
      using r by (simp_all add: replying_def queue_value_def reply_at_def Let_def)
    have "totalsize c = of_nat (length D)" using r by (simp add: replying_def)
    then show "totalsize ?c = of_nat (length (D @ value_reply s v))"
      by (simp add: queue_value_simps vr kv(2) algebra_simps)
    show "\<forall>i < t + 2. REPLY_WRITTEN \<in> rep_desc (iovReply ?c) ! i"
      using r len t by (auto simp: replying_def queue_value_def reply_at_def Let_def nth_list_update less_Suc_eq)
    show "\<forall>i < REPLY_SIZE. 0 < i \<and> t + 2 \<le> i \<longrightarrow> rep_len (iovReply ?c) ! i = 0"
      using r len t by (auto simp: replying_def queue_value_simps nth_list_update)
  qed
  moreover have "same_client ?c c" by (simp add: same_client_def queue_value_def reply_at_def Let_def)
  ultimately show ?thesis using run by blast
qed

subsection \<open>One key\<close>

text \<open>A message that carries one key of a GET.\<close>

definition get_msg :: "aMsg \<Rightarrow> string \<Rightarrow> bool" where
  "get_msg a s \<longleftrightarrow> am_type a = KVDATA \<and> am_ctype a = ACACHED_CMD_GETS \<and> clean s
     \<and> (\<exists>r. hdr_key (am_hdr a) = s @ NUL # r) \<and> hdr_keylen (am_hdr a) = int (length s) \<and> length s < 2 ^ 64"

text \<open>The answer to a key, in its bucket.\<close>

definition answer :: "item list \<Rightarrow> string \<Rightarrow> char list" where
  "answer xs s = (case item_get s xs of None \<Rightarrow> [] | Some x \<Rightarrow> value_reply s (snd (snd x)))"

definition bucket_at :: "server \<Rightarrow> aMsg \<Rightarrow> nat" where
  "bucket_at w a = bucket_of (ahashtableptr w) (hdr_hashval (am_hdr a))"

lemma same_client_Revoke: "same_client c d \<Longrightarrow> same_client (snd (Revoke c)) d"
  by (simp add: same_client_def Revoke_def atomicDecrSubGet_def)

lemma replying_Revoke: "replying m c t D \<Longrightarrow> replying m (snd (Revoke c)) t D"
  by (simp add: replying_def Revoke_def atomicDecrSubGet_def conn_ok_def)

lemma replying_aerrtype [simp]: "replying m (c\<lparr>aerrtype := e\<rparr>) t D = replying m c t D"
  "same_client (c\<lparr>aerrtype := e\<rparr>) d = same_client c d"
  by (simp_all add: replying_def conn_ok_def same_client_def)

lemma srv_store_frame:
  "ahashtableptr w' = ahashtableptr w \<Longrightarrow> brk w' = brk w \<Longrightarrow> srv_store w' B = srv_store w B"
  by (simp add: srv_store_def srv_table_def)

text \<open>What the answer to a key leaves of the rest of the server.\<close>

definition rest_kept :: "ptr \<Rightarrow> ptr \<Rightarrow> server \<Rightarrow> server \<Rightarrow> bool" where
  "rest_kept ac am w w' \<longleftrightarrow> bucket_of (ahashtableptr w') = bucket_of (ahashtableptr w)
     \<and> (\<forall>p. p \<noteq> ac \<longrightarrow> conns w' p = conns w p) \<and> (\<forall>p. p \<noteq> am \<longrightarrow> msgs w' p = msgs w p) \<and> pipes w' = pipes w"

lemma gets_value_run:
  assumes a: "msgs w am = Some a" "get_msg a s" and c: "conns w (am_aC a) = Some c"
    and B: "srv_store w B" and r: "replying (mem (ahashtableptr w)) c t D" and t: "t < 998"
    and small: "length D + length (answer (B (bucket_at w a)) s) \<le> 126 * 1024"
  shows "\<exists>w' c' t' a'. gets_value outs am w = Some (Inr (outs, w')) \<and> srv_store w' B
    \<and> conns w' (am_aC a) = Some c' \<and> same_client c' c \<and> t' \<le> t + 2
    \<and> replying (mem (ahashtableptr w')) c' t' (D @ answer (B (bucket_at w a)) s)
    \<and> msgs w' am = Some a' \<and> am_aC a' = am_aC a \<and> am_ctype a' = am_ctype a
    \<and> aFBSQGaMsg w' = aFBSQGaMsg w \<and> rest_kept (am_aC a) am w w'"
proof -
  let ?ac = "am_aC a" and ?hdr = "am_hdr a" and ?xs = "B (bucket_at w a)"
  obtain r' where key: "clean s" "hdr_key ?hdr = s @ NUL # r'" "hdr_keylen ?hdr = int (length s)" "length s < 2 ^ 64"
    using a(2) by (auto simp: get_msg_def)
  have nul: "NUL \<notin> set s" using key(1) by (simp add: clean_def)
  obtain h where h: "ahashtable_get (ahashtableptr w) ?hdr = Some (Inr
      (case item_get s ?xs of None \<Rightarrow> (- 1, ?hdr, h) | Some x \<Rightarrow> (0, ?hdr\<lparr>hdr_KVdataptr := fst x\<rparr>, h)))"
    "mem h = mem (ahashtableptr w)" "bucket_of h = bucket_of (ahashtableptr w)"
    "srv_store (w\<lparr>ahashtableptr := h\<rparr>) B"
    using srv_store_get [OF B key] by (auto simp: bucket_at_def)
  show ?thesis
  proof (cases "item_get s ?xs")
    case None
    define c' where "c' = snd (Revoke (c\<lparr>aerrtype := AERR_TYPE_APP_GETS\<rparr>))"
    let ?a = "a\<lparr>am_hdr := ?hdr, ErrBuf := not_found_text @ drop (length not_found_text) (ErrBuf a)\<rparr>"
    let ?w = "upd_conn ?ac c' (upd_msg am ?a ((upd_msg am (a\<lparr>am_hdr := ?hdr\<rparr>) w)\<lparr>ahashtableptr := h\<rparr>))"
    have "gets_value outs am w = Some (Inr (outs, ?w))"
      using a(1) c h(1) None by (simp add: gets_value_def c'_def)
    moreover have "srv_store ?w B" using h(4) by (subst srv_store_frame) (auto)
    moreover have "replying (mem h) c' t D" "same_client c' c"
      using r h(2) by (simp_all add: c'_def replying_Revoke same_client_Revoke)
    ultimately show ?thesis
      using None h(2,3)
      by (intro exI [of _ ?w] exI [of _ c'] exI [of _ t] exI [of _ ?a]) (simp add: answer_def rest_kept_def)
  next
    case (Some x)
    obtain p key v where x: "x = (p, key, v)" by (cases x)
    have inx: "x \<in> set ?xs" using item_get_some [OF Some] by simp
    obtain k where k: "holds (mem h) (p, key, v) k"
      using srv_store_holds [OF B inx] h(2) x by auto
    let ?hdr' = "?hdr\<lparr>hdr_KVdataptr := p\<rparr>" and ?m = "(mem h)(p \<mapsto> crlf k)"
    have ans: "answer ?xs s = value_reply s v" using Some x by (simp add: answer_def)
    have kb: "cstr (hdr_key ?hdr) = s" using cstr_append_NUL [OF nul, of r'] key(2) by simp
    obtain c1 where c1: "QReply (mem h) c p (hdr_key ?hdr) outs = Some (Inr (0, outs, ?m, c1))"
      "replying ?m c1 (t + 2) (D @ value_reply s v)" "same_client c1 c"
      using replying_value [OF r [folded h(2)] k nul kb t, of outs] small ans by auto
    let ?c = "snd (Revoke c1)" and ?a = "a\<lparr>am_hdr := ?hdr'\<rparr>"
    let ?w = "upd_conn ?ac ?c ((upd_msg am ?a w)\<lparr>ahashtableptr := h\<lparr>mem := ?m\<rparr>\<rparr>)"
    have "gets_value outs am w = Some (Inr (outs, ?w))"
      using a(1) c h(1) Some x c1(1) by (simp add: gets_value_def upd_msg_def upd_conn_def)
    moreover have "srv_store ?w B"
      using srv_store_crlf [OF h(4), of p k] holds_value(1) [OF k]
      by (subst srv_store_frame [of _ "w\<lparr>ahashtableptr := h\<lparr>mem := ?m\<rparr>\<rparr>"]) auto
    ultimately show ?thesis
      using c1(2,3) h(3) ans
      by (intro exI [of _ ?w] exI [of _ ?c] exI [of _ "t + 2"] exI [of _ ?a])
        (simp add: rest_kept_def replying_Revoke same_client_Revoke del: fun_upd_apply, simp)
  qed
qed

subsection \<open>The end of the command\<close>

lemma take_update_one: "t < length xs \<Longrightarrow> take (Suc t) (xs[t := x]) = take t xs @ [x]"
  by (simp add: take_Suc_conv_app_nth)

lemma END_text: "NUL \<notin> set END_line" "length END_line = 5"
  by (simp_all add: END_line_def)

text \<open>The connection when \<open>END\<close> is queued.\<close>

definition end_queued :: "nat \<Rightarrow> aConn \<Rightarrow> aConn" where
  "end_queued t c = (reply_at t (Copied (END_line @ [NUL])) 5 True c)
     \<lparr>totalsize := totalsize c + 5, iovReply := (iovReply (reply_at t (Copied (END_line @ [NUL])) 5 True c))
       \<lparr>rep_index := 0\<rparr>\<rparr>"

lemma end_queued_fields:
  "rep_base (iovReply (end_queued t c)) = (rep_base (iovReply c))[t := Copied (END_line @ [NUL])]"
  "rep_len (iovReply (end_queued t c)) = (rep_len (iovReply c))[t := 5]"
  "length (rep_desc (iovReply (end_queued t c))) = length (rep_desc (iovReply c))"
  "wire (end_queued t c) = wire c" "windexlast (end_queued t c) = windexlast c"
  "writingflag (end_queued t c) = writingflag c"
  by (simp_all add: end_queued_def reply_at_def Let_def)

lemma end_queued_ok: "conn_ok c \<Longrightarrow> conn_ok (end_queued t c)"
  by (simp add: conn_ok_def end_queued_def reply_at_def Let_def)

lemma end_queued_bytes:
  assumes r: "replying m c t D" and t: "t < 1000"
  shows "queued m (end_queued t c) 0 (Suc t) (D @ END_line)"
proof -
  have len: "length (rep_base (iovReply c)) = REPLY_SIZE" "length (rep_len (iovReply c)) = REPLY_SIZE"
    using r by (simp_all add: replying_def conn_ok_def)
  have "iov_bytes m (Copied (END_line @ [NUL])) 5 = Inr END_line"
    using END_text by (simp add: iov_bytes_def)
  moreover have "gather m (take t (rep_base (iovReply c))) (take t (rep_len (iovReply c))) = Inr D"
    using r by (simp add: replying_def)
  ultimately have "gather m (bases (end_queued t c) 0 (Suc t)) (lens (end_queued t c) 0 (Suc t)) = Inr (D @ END_line)"
    using t len by (simp add: bases_def lens_def end_queued_fields take_update_one gather_append)
  moreover have "\<forall>i. Suc t \<le> i \<and> i < REPLY_SIZE \<longrightarrow> rep_len (iovReply (end_queued t c)) ! i = 0"
    using r by (auto simp: replying_def end_queued_fields)
  ultimately show ?thesis
    using t len by (simp add: queued_def end_queued_fields)
qed

lemma end_queued_written:
  assumes "replying m c t D" "t < 1000" "i < Suc t"
  shows "REPLY_WRITTEN \<in> rep_desc (iovReply (end_queued t c)) ! i"
proof -
  have "length (rep_desc (iovReply c)) = REPLY_SIZE" using assms(1) by (simp add: replying_def conn_ok_def)
  then show ?thesis
    using assms by (auto simp: replying_def end_queued_def reply_at_def Let_def nth_list_update less_Suc_eq)
qed

lemma clear_vectors_reply:
  assumes "conn_ok c" "n \<le> 1000" "\<forall>i. n \<le> i \<and> i < REPLY_SIZE \<longrightarrow> rep_len (iovReply c) ! i = 0"
  shows "replying m (clear_vectors n (clear_reply c)) 0 []"
  using assms unfolding replying_def clear_vectors_def clear_reply_def conn_ok_def Let_def
  by (auto simp: nth_append settled_def)

lemma gets_end_run:
  assumes r: "replying m c t D" and t: "t < 1000" and D: "length D \<le> 126 * 1024"
  shows "\<exists>c'. gets_end m (Sent (length D + 5) # outs) sels c = Some (Inr (outs, c'))
    \<and> wire c' = wire c @ D @ END_line \<and> replying m c' 0 [] \<and> replyCount c' = 0
    \<and> same_client (c'\<lparr>wire := wire c, replyCount := replyCount c\<rparr>) c"
proof -
  let ?e = "end_queued t c" and ?c1 = "c\<lparr>iovReply := (iovReply c)\<lparr>rep_index := of_nat t + 1\<rparr>\<rparr>"
  have ok: "conn_ok c" and ix: "rep_index (iovReply c) = of_nat t" and w0: "windexlast c = 0" "writingflag c = 0"
    using r by (simp_all add: replying_def)
  have len: "length (rep_base (iovReply c)) = REPLY_SIZE" using ok by (simp add: conn_ok_def)
  have ut: "unat (of_nat t :: u32) = t" using t by (intro unat_of_nat_small) simp
  have add: "AddIOVReply ?c1 (Copied END_line) 5 True t
      = Inr (of_nat 5, reply_at t (Copied (END_line @ [NUL])) 5 True ?c1)"
    using t len END_text by (intro AddIOVReply_copy) simp_all
  let ?c2 = "reply_at t (Copied (END_line @ [NUL])) 5 True ?c1"
  have e: "?c2\<lparr>totalsize := totalsize ?c2 + of_nat 5, iovReply := (iovReply ?c2)\<lparr>rep_index := 0\<rparr>\<rparr> = ?e"
    by (simp add: end_queued_def reply_at_def Let_def)
  note q = end_queued_bytes [OF r t]
  have len2: "length (D @ END_line) = length D + 5" by (simp add: END_text)
  have bd: "boundary ?e 0 (Suc t) (length D + 5)"
    using queued_length [OF q] len2 unfolding boundary_def
    by (intro exI [of _ "Suc t"]) (simp add: lens_def)
  have send: "WriteAllOnce m ?e 0 (Suc t) (Sent (length D + 5) # outs) sels =
      Some (Inr (int (length D + 5), outs, ?e\<lparr>wire := wire c @ D @ END_line\<rparr>))"
    using write_all_stops [OF q _ _ _ _ _ bd, of "Suc t" 0 outs sels] t D len2
    by (simp add: WriteAllOnce_def end_queued_fields)
  have chunk: "write_chunks m ?e 0 (Suc t) (Sent (length D + 5) # outs) sels =
      Some (Inr (outs, ?e\<lparr>wire := wire c @ D @ END_line\<rparr>))"
    using t send by (subst write_chunks.simps) (simp add: min_def)
  have all: "\<forall>i \<in> set [0..<Suc t]. REPLY_WRITTEN \<in> rep_desc (iovReply ?e) ! i"
    using end_queued_written [OF r t] by simp
  define c' where "c' = clear_vectors (Suc t) (clear_reply (?e\<lparr>wire := wire c @ D @ END_line\<rparr>))"
  have wf: "windexlast ?c2 = 0" "writingflag ?e = 0"
    using w0 by (simp_all add: reply_at_def Let_def end_queued_fields)
  have run: "gets_end m (Sent (length D + 5) # outs) sels c = Some (Inr (outs, c'))"
    unfolding gets_end_def atomicIncrGetAdd_def ix Let_def prod.case ut add obind_simps e wf unat_0 diff_zero
    using all chunk wf by (simp add: c'_def del: upt_Suc)
  have "replying m c' 0 []" unfolding c'_def
  proof (rule clear_vectors_reply)
    show "conn_ok (?e\<lparr>wire := wire c @ D @ END_line\<rparr>)" using end_queued_ok [OF ok] by (simp add: conn_ok_def)
    show "\<forall>i. Suc t \<le> i \<and> i < REPLY_SIZE \<longrightarrow> rep_len (iovReply (?e\<lparr>wire := wire c @ D @ END_line\<rparr>)) ! i = 0"
      using q by (simp add: queued_def)
  qed (use t in simp)
  moreover have "wire c' = wire c @ D @ END_line" "replyCount c' = 0"
    "same_client (c'\<lparr>wire := wire c, replyCount := replyCount c\<rparr>) c"
    by (simp_all add: c'_def clear_vectors_def clear_reply_def end_queued_def reply_at_def Let_def same_client_def)
  ultimately show ?thesis using run by blast
qed

subsection \<open>Counting the answers\<close>

lemma same_client_replyCount [simp]: "same_client (c\<lparr>replyCount := n\<rparr>) c \<longleftrightarrow> n = replyCount c"
  by (auto simp: same_client_def)

lemma replying_counts [simp]: "replying m (c\<lparr>replyCount := n\<rparr>) t D = replying m c t D"
  "replying m (c\<lparr>reqCount := n\<rparr>) t D = replying m c t D" "replying m (c\<lparr>concPending := n\<rparr>) t D = replying m c t D"
  "replying m (c\<lparr>Busy := n\<rparr>) t D = replying m c t D" "replying m (c\<lparr>conWatchSent := n\<rparr>) t D = replying m c t D"
  "replying m (c\<lparr>PendingCmdQ := q\<rparr>) t D = replying m c t D"
  by (simp_all add: replying_def conn_ok_def)

lemma gets_complete_more:
  assumes "conns w ac = Some c" "concPending c = 0" "replyCount c + 1 \<noteq> reqCount c"
  shows "gets_complete pipe_ok outs sels ac w = Some (Inr (outs, upd_conn ac (c\<lparr>replyCount := replyCount c + 1\<rparr>) w))"
proof -
  have "c\<lparr>replyCount := x, concPending := 0\<rparr> = c\<lparr>replyCount := x\<rparr>" for x using assms(2) by simp
  then show ?thesis
    using assms
    by (simp add: gets_complete_def IsconcPending_def atomicIsSet_def atomicIncrAddGet_def sync_val_cas_def)
qed

lemma gets_complete_last:
  assumes c: "conns w ac = Some c" "concPending c = 0" "replyCount c + 1 = reqCount c" "Busy c = 1"
    and r: "replying (mem (ahashtableptr w)) c t D" and t: "t < 1000" and D: "length D \<le> 126 * 1024"
  shows "\<exists>w' c'. gets_complete True (Sent (length D + 5) # outs) sels ac w = Some (Inr (outs, w'))
    \<and> w' = (upd_conn ac c' w)\<lparr>pipes := pending_note c (pipes w)\<rparr> \<and> wire c' = wire c @ D @ END_line
    \<and> replying (mem (ahashtableptr w)) c' 0 [] \<and> replyCount c' = 0 \<and> reqCount c' = 0 \<and> Busy c' = 0
    \<and> concPending c' = 0 \<and> Q (PendingCmdQ c') = Q (PendingCmdQ c) \<and> cSockFd c' = cSockFd c \<and> aTcommptr c' = aTcommptr c"
proof -
  let ?m = "mem (ahashtableptr w)" and ?c0 = "c\<lparr>replyCount := 0, reqCount := 0\<rparr>"
  have "replying ?m ?c0 t D" using r by simp
  from gets_end_run [OF this t D, of outs sels] obtain c1 where
    c1: "gets_end ?m (Sent (length D + 5) # outs) sels ?c0 = Some (Inr (outs, c1))"
      "wire c1 = wire c @ D @ END_line" "replying ?m c1 0 []" "replyCount c1 = 0"
      "same_client (c1\<lparr>wire := wire c, replyCount := replyCount ?c0\<rparr>) ?c0" by auto
  let ?c2 = "not_busy (c1\<lparr>conWatchSent := snd (atomicSet (conWatchSent c1))\<rparr>)"
  let ?c3 = "?c2\<lparr>PendingCmdQ := (PendingCmdQ ?c2)\<lparr>mutexQ := False\<rparr>\<rparr>"
  let ?w = "(upd_conn ac ?c3 (upd_conn ac ?c2 w))\<lparr>pipes := pending_note ?c2 (pipes w)\<rparr>"
  have chk: "check_pending True ac (upd_conn ac ?c2 w) = Inr ?w"
    using check_pending_spec [of "upd_conn ac ?c2 w" ac ?c2] by simp
  have same: "Busy c1 = 1" "reqCount c1 = 0" "concPending c1 = 0" "Q (PendingCmdQ c1) = Q (PendingCmdQ c)"
    "cSockFd c1 = cSockFd c" "aTcommptr c1 = aTcommptr c"
    using c1(5) c(2,4) by (simp_all add: same_client_def)
  have "gets_complete True (Sent (length D + 5) # outs) sels ac w = Some (Inr (outs, ?w))"
    using c c1(1) chk
    by (simp add: gets_complete_def IsconcPending_def atomicIsSet_def atomicIncrAddGet_def sync_val_cas_def)
  moreover have "pending_note ?c2 (pipes w) = pending_note c (pipes w)"
    using same by (simp add: pending_note_def not_busy_def)
  ultimately show ?thesis
    using c1 same by (intro exI [of _ ?w] exI [of _ ?c3]) (simp add: not_busy_def sync_bool_cas_def upd_conn_def)
qed

subsection \<open>One message of a GET\<close>

lemma finish_msg_rest:
  assumes "msgs w am = Some a"
  shows "\<exists>w'. finish_msg am w = Inr w' \<and> conns w' = conns w \<and> ahashtableptr w' = ahashtableptr w \<and> brk w' = brk w
    \<and> pipes w' = pipes w \<and> (\<forall>p. p \<noteq> am \<longrightarrow> msgs w' p = msgs w p)"
  using finish_msg_spec [OF assms] by auto

lemma rest_kept_trans: "rest_kept ac am w w' \<Longrightarrow> rest_kept ac am w' w'' \<Longrightarrow> rest_kept ac am w w''"
  by (simp add: rest_kept_def)

lemma kv_handle_get:
  "msgs w am = Some a \<Longrightarrow> get_msg a s \<Longrightarrow> kv_handle pipe_ok outs sels am w = kv_gets pipe_ok outs sels am w"
  by (simp add: kv_handle_def get_msg_def)

lemma kv_get_more:
  assumes a: "msgs w am = Some a" "get_msg a s" and c: "conns w (am_aC a) = Some c"
    and B: "srv_store w B" and r: "replying (mem (ahashtableptr w)) c t D" and t: "t < 998"
    and small: "length D + length (answer (B (bucket_at w a)) s) \<le> 126 * 1024"
    and more: "concPending c = 0" "replyCount c + 1 \<noteq> reqCount c"
  shows "\<exists>w' c' t'. kv_handle pipe_ok outs sels am w = Some (Inr (outs, w')) \<and> srv_store w' B
    \<and> conns w' (am_aC a) = Some c' \<and> same_client c' (c\<lparr>replyCount := replyCount c + 1\<rparr>) \<and> t' \<le> t + 2
    \<and> replying (mem (ahashtableptr w')) c' t' (D @ answer (B (bucket_at w a)) s) \<and> rest_kept (am_aC a) am w w'"
proof -
  let ?ac = "am_aC a"
  obtain w1 c1 t' a1 where w1: "gets_value outs am w = Some (Inr (outs, w1))" "srv_store w1 B"
    "conns w1 ?ac = Some c1" "same_client c1 c" "t' \<le> t + 2"
    "replying (mem (ahashtableptr w1)) c1 t' (D @ answer (B (bucket_at w a)) s)"
    "msgs w1 am = Some a1" "rest_kept ?ac am w w1"
    using gets_value_run [OF a c B r t small, of outs] by blast
  let ?c = "c1\<lparr>replyCount := replyCount c1 + 1\<rparr>"
  let ?w = "upd_conn ?ac ?c w1"
  have "concPending c1 = 0" "replyCount c1 + 1 \<noteq> reqCount c1" using w1(4) more by (simp_all add: same_client_def)
  note cnt = gets_complete_more [OF w1(3) this, of pipe_ok outs sels]
  obtain w2 where w2: "finish_msg am ?w = Inr w2" "conns w2 = conns ?w" "ahashtableptr w2 = ahashtableptr ?w"
    "brk w2 = brk ?w" "pipes w2 = pipes ?w" "\<forall>p. p \<noteq> am \<longrightarrow> msgs w2 p = msgs ?w p"
    using finish_msg_rest [of ?w am a1] w1(7) by auto
  have "kv_handle pipe_ok outs sels am w = Some (Inr (outs, w2))"
    using a(1) w1(1) cnt w2(1) by (simp add: kv_handle_get [OF a] kv_gets_def)
  moreover have "srv_store w2 B" using w1(2) w2(3,4) by (subst srv_store_frame [of _ w1]) simp_all
  moreover have "same_client ?c (c\<lparr>replyCount := replyCount c + 1\<rparr>)" using w1(4) by (simp add: same_client_def)
  moreover have "rest_kept ?ac am w w2" using w1(8) w2 by (simp add: rest_kept_def)
  ultimately show ?thesis
    using w1(5,6) w2(2,3) by (intro exI [of _ w2] exI [of _ ?c] exI [of _ t']) simp
qed

lemma kv_get_last:
  assumes a: "msgs w am = Some a" "get_msg a s" and c: "conns w (am_aC a) = Some c"
    and B: "srv_store w B" and r: "replying (mem (ahashtableptr w)) c t D" and t: "t < 998"
    and small: "length D + length (answer (B (bucket_at w a)) s) \<le> 126 * 1024"
    and last: "concPending c = 0" "replyCount c + 1 = reqCount c" "Busy c = 1"
  shows "\<exists>w' c'. kv_handle True (Sent (length D + length (answer (B (bucket_at w a)) s) + 5) # outs) sels am w
      = Some (Inr (outs, w'))
    \<and> srv_store w' B \<and> conns w' (am_aC a) = Some c' \<and> wire c' = wire c @ D @ answer (B (bucket_at w a)) s @ END_line
    \<and> replying (mem (ahashtableptr w')) c' 0 [] \<and> replyCount c' = 0 \<and> reqCount c' = 0 \<and> Busy c' = 0
    \<and> concPending c' = 0 \<and> Q (PendingCmdQ c') = Q (PendingCmdQ c) \<and> pipes w' = pending_note c (pipes w)"
proof -
  let ?ac = "am_aC a" and ?D = "D @ answer (B (bucket_at w a)) s"
  let ?outs = "Sent (length ?D + 5) # outs"
  obtain w1 c1 t' a1 where w1: "gets_value ?outs am w = Some (Inr (?outs, w1))" "srv_store w1 B"
    "conns w1 ?ac = Some c1" "same_client c1 c" "t' \<le> t + 2" "replying (mem (ahashtableptr w1)) c1 t' ?D"
    "msgs w1 am = Some a1" "rest_kept ?ac am w w1"
    using gets_value_run [OF a c B r t small, of ?outs] by blast
  have c1: "concPending c1 = 0" "replyCount c1 + 1 = reqCount c1" "Busy c1 = 1"
    using w1(4) last by (simp_all add: same_client_def)
  have "t' < 1000" "length ?D \<le> 126 * 1024" using w1(5) t small by simp_all
  from gets_complete_last [OF w1(3) c1 w1(6) this, of outs sels] obtain w2 c2 where
    w2: "gets_complete True ?outs sels ?ac w1 = Some (Inr (outs, w2))"
      "w2 = (upd_conn ?ac c2 w1)\<lparr>pipes := pending_note c1 (pipes w1)\<rparr>" "wire c2 = wire c1 @ ?D @ END_line"
      "replying (mem (ahashtableptr w1)) c2 0 []" "replyCount c2 = 0" "reqCount c2 = 0" "Busy c2 = 0"
      "concPending c2 = 0" "Q (PendingCmdQ c2) = Q (PendingCmdQ c1)"
    by blast
  have m2: "msgs w2 am = Some a1" using w1(7) w2(2) by simp
  obtain w3 where w3: "finish_msg am w2 = Inr w3" "conns w3 = conns w2" "ahashtableptr w3 = ahashtableptr w2"
    "brk w3 = brk w2" "pipes w3 = pipes w2"
    using finish_msg_rest [OF m2] by auto
  have run: "kv_handle True ?outs sels am w = Some (Inr (outs, w3))"
    using a(1) w1(1) w2(1) w3(1) by (simp add: kv_handle_get [OF a] kv_gets_def)
  have "srv_store w3 B" using w1(2) w2(2) w3(3,4) by (subst srv_store_frame [of _ w1]) simp_all
  moreover have "pending_note c1 (pipes w1) = pending_note c (pipes w)"
    using w1(4,8) by (simp add: pending_note_def same_client_def rest_kept_def)
  ultimately show ?thesis
    using run w1(4) w2 w3 by (intro exI [of _ w3] exI [of _ c2]) (simp add: same_client_def add.assoc)
qed

subsection \<open>All messages of a GET\<close>

text \<open>The message \<open>am\<close> asks for the key \<open>s\<close>, in the bucket \<open>b\<close>, for the connection \<open>ac\<close>.\<close>

definition asks :: "server \<Rightarrow> ptr \<Rightarrow> ptr \<times> string \<times> nat \<Rightarrow> bool" where
  "asks w ac q \<longleftrightarrow> (\<exists>a. msgs w (fst q) = Some a \<and> get_msg a (fst (snd q)) \<and> am_aC a = ac
     \<and> bucket_at w a = snd (snd q))"

definition answers :: "(nat \<Rightarrow> item list) \<Rightarrow> (ptr \<times> string \<times> nat) list \<Rightarrow> char list" where
  "answers B qs = concat (map (\<lambda>q. answer (B (snd (snd q))) (fst (snd q))) qs)"

lemma answers_simps: "answers B [] = []"
  "answers B (q # qs) = answer (B (snd (snd q))) (fst (snd q)) @ answers B qs"
  by (simp_all add: answers_def)

lemma asks_kept: "rest_kept ac am w w' \<Longrightarrow> fst q \<noteq> am \<Longrightarrow> asks w ac q \<Longrightarrow> asks w' ac q"
  by (auto simp: asks_def rest_kept_def bucket_at_def)

lemma kv_run_gets:
  assumes "qs \<noteq> []" "distinct (map fst qs)" "\<forall>q \<in> set qs. asks w ac q" "srv_store w B"
    and "conns w ac = Some c" "replying (mem (ahashtableptr w)) c t D" "t + 2 * length qs < 1000"
    and "length D + length (answers B qs) \<le> 126 * 1024"
    and "concPending c = 0" "Busy c = 1" "reqCount c = replyCount c + of_nat (length qs)"
  shows "\<exists>w' c'. kv_run True sels (map fst qs) (Sent (length D + length (answers B qs) + 5) # outs) w
      = Some (Inr (outs, w'))
    \<and> srv_store w' B \<and> conns w' ac = Some c' \<and> wire c' = wire c @ D @ answers B qs @ END_line
    \<and> replying (mem (ahashtableptr w')) c' 0 [] \<and> replyCount c' = 0 \<and> reqCount c' = 0 \<and> Busy c' = 0
    \<and> concPending c' = 0 \<and> Q (PendingCmdQ c') = Q (PendingCmdQ c) \<and> pipes w' = pending_note c (pipes w)"
  using assms
proof (induction qs arbitrary: w c t D)
  case (Cons q qs)
  obtain am s b where q: "q = (am, s, b)" by (cases q)
  obtain a where a: "msgs w am = Some a" "get_msg a s" "am_aC a = ac" "bucket_at w a = b"
    using Cons.prems(3) by (auto simp: asks_def q)
  note c = Cons.prems(5) [folded a(3)]
  have t: "t < 998" and small: "length D + length (answer (B (bucket_at w a)) s) \<le> 126 * 1024"
    using Cons.prems(7,8) by (simp_all add: answers_simps q a(4))
  show ?case
  proof (cases "qs = []")
    case True
    then have "replyCount c + 1 = reqCount c" using Cons.prems(11) by simp
    from kv_get_last [OF a(1,2) c Cons.prems(4,6) t small Cons.prems(9) this Cons.prems(10), of outs sels]
    show ?thesis using a(3,4) by (auto simp: True q answers_simps add.assoc)
  next
    case False
    let ?outs = "Sent (length D + length (answers B (q # qs)) + 5) # outs"
    have n: "length qs < 500" "0 < length qs" using Cons.prems(7) False by simp_all
    have "(of_nat (length qs) :: u32) \<noteq> 0"
    proof
      assume "(of_nat (length qs) :: u32) = 0"
      then have "unat (of_nat (length qs) :: u32) = 0" by simp
      moreover have "unat (of_nat (length qs) :: u32) = length qs" using n by (intro unat_of_nat_small) simp
      ultimately show False using n by simp
    qed
    then have "replyCount c + 1 \<noteq> reqCount c" using Cons.prems(11) by (simp add: algebra_simps)
    from kv_get_more [OF a(1,2) c Cons.prems(4,6) t small Cons.prems(9) this, of True ?outs sels]
    obtain w1 c1 t1 where w1: "kv_handle True ?outs sels am w = Some (Inr (?outs, w1))" "srv_store w1 B"
      "conns w1 ac = Some c1" "same_client c1 (c\<lparr>replyCount := replyCount c + 1\<rparr>)" "t1 \<le> t + 2"
      "replying (mem (ahashtableptr w1)) c1 t1 (D @ answer (B b) s)" "rest_kept ac am w w1"
      unfolding a(3,4) by blast
    have "\<forall>q \<in> set qs. asks w1 ac q"
      using Cons.prems(2,3) asks_kept [OF w1(7)] by (auto simp: q image_iff)
    moreover have "t1 + 2 * length qs < 1000"
      "length (D @ answer (B b) s) + length (answers B qs) \<le> 126 * 1024"
      using w1(5) Cons.prems(7,8) by (simp_all add: answers_simps q)
    moreover have "concPending c1 = 0" "Busy c1 = 1" "reqCount c1 = replyCount c1 + of_nat (length qs)"
      using w1(4) Cons.prems(9-11) by (simp_all add: same_client_def)
    ultimately obtain w' c' where w': "kv_run True sels (map fst qs)
        (Sent (length (D @ answer (B b) s) + length (answers B qs) + 5) # outs) w1 = Some (Inr (outs, w'))"
      "srv_store w' B" "conns w' ac = Some c'" "wire c' = wire c1 @ (D @ answer (B b) s) @ answers B qs @ END_line"
      "replying (mem (ahashtableptr w')) c' 0 []" "replyCount c' = 0" "reqCount c' = 0" "Busy c' = 0"
      "concPending c' = 0" "Q (PendingCmdQ c') = Q (PendingCmdQ c1)" "pipes w' = pending_note c1 (pipes w1)"
      using Cons.IH [OF False _ _ w1(2,3,6)] Cons.prems(2) by (auto simp del: append_assoc length_append)
    have eq: "length (D @ answer (B b) s) + length (answers B qs) + 5 = length D + length (answers B (q # qs)) + 5"
      by (simp add: answers_simps q)
    have "pending_note c1 (pipes w1) = pending_note c (pipes w)"
      using w1(4,7) by (simp add: pending_note_def same_client_def rest_kept_def)
    then show ?thesis
      using w1(1,4) w' unfolding eq
      by (intro exI [of _ w'] exI [of _ c']) (simp add: q same_client_def answers_simps)
  qed
qed simp

end
