(* ===== verification/KVServe.thy ===== *)
theory KVServe
  imports KVGet
begin

section \<open>SET and GET, end to end\<close>

text \<open>
  What a client gets for its commands, over the key-value view of the server: the reply to a SET, the
  reply to a GET of any number of keys, and a GET after a SET.
\<close>

lemma replying_nothing: "replying m c 0 [] \<Longrightarrow> replying m' c 0 []"
  by (simp add: replying_def settled_def)

lemma set_handled:
  assumes a: "msgs w am = Some a" "set_msg a key val" "clean key" "am_aC a = ac"
    and c: "conns w ac = Some c" "Busy c = 1" "replying m c 0 []" and B: "srv_store w B"
  defines "b \<equiv> bucket_at w a"
  shows "\<exists>w' c'. kv_handle True (Sent 8 # outs) sels am w = Some (Inr (outs, w'))
    \<and> srv_store w' (B(b := item_put (brk w, key, val) (B b)))
    \<and> conns w' = (conns w)(ac \<mapsto> c') \<and> wire c' = wire c @ STORED \<and> Busy c' = 0 \<and> replying m c' 0 []
    \<and> Q (PendingCmdQ c') = Q (PendingCmdQ c) \<and> pipes w' = pending_note c (pipes w)
    \<and> bucket_of (ahashtableptr w') = bucket_of (ahashtableptr w) \<and> (\<forall>p. p \<noteq> am \<longrightarrow> msgs w' p = msgs w p)
    \<and> replyCount c' = 0 \<and> reqCount c' = reqCount c \<and> concPending c' = concPending c"
proof -
  obtain A where A: "srv_table w A" "\<forall>w'. srv_table w' (A(b := bucket_put (set_key (entry_of (block_for key val)))
      (brk w, entry_of (block_for key val)) (A b))) \<longrightarrow> srv_store w' (B(b := item_put (brk w, key, val) (B b)))"
    using srv_store_set [OF a(2,3) B] unfolding b_def bucket_at_def by blast
  have ok: "conn_ok c" "rep_index (iovReply c) = 0"
    "\<forall>i < REPLY_SIZE. 0 < i \<longrightarrow> rep_len (iovReply c) ! i = 0"
    using c(3) by (simp_all add: replying_def)
  obtain w' c' where w': "kv_handle True (Sent 8 # outs) sels am w = Some (Inr (outs, w'))"
    "srv_table w' (A(b := bucket_put (set_key (entry_of (block_for key val)))
      (brk w, entry_of (block_for key val)) (A b)))"
    "conns w' = (conns w)(ac \<mapsto> c')" "conn_ok c'" "wire c' = wire c @ STORED" "Busy c' = 0"
    "rep_index (iovReply c') = 0" "windexlast c' = 0" "totalsize c' = 0" "writingflag c' = 0"
    "replyCount c' = 0" "reqCount c' = reqCount c" "concPending c' = concPending c"
    "rep_len (iovReply c') = (rep_len (iovReply c))[0 := 8]" "Q (PendingCmdQ c') = Q (PendingCmdQ c)"
    "pipes w' = pending_note c (pipes w)" "msgs w' = (msgs w)(am \<mapsto> aMsg_Init SUCCESS ac ACACHED_CMD_SET)"
    "bucket_of (ahashtableptr w') = bucket_of (ahashtableptr w)"
    using kv_set_run [OF a(1,2,4) c(1) ok(1) c(2) ok(2) A(1), of outs sels] unfolding b_def bucket_at_def by blast
  have "replying m c' 0 []" using w'(4,7-10,14) ok(3) by (simp add: replying_def settled_def)
  then show ?thesis using w' A(2) by (intro exI [of _ w'] exI [of _ c']) simp
qed

text \<open>
  The whole handler of a SET. The block of the key and the value takes the place of the first item
  of the bucket whose bytes begin with the key, or goes behind all items; the other buckets stay. The
  client is sent \<open>STORED\<close>, the connection is free for its next command, and the comm thread is told
  when there is one.
\<close>

theorem SET_stores_and_replies:
  assumes "msgs w am = Some a" "set_msg a key val" "clean key" "am_aC a = ac"
    and "conns w ac = Some c" "Busy c = 1" "replying m c 0 []" "srv_store w B"
  shows "\<exists>w' c'. kv_handle True (Sent 8 # outs) sels am w = Some (Inr (outs, w'))
    \<and> srv_store w' (B(bucket_at w a := item_put (brk w, key, val) (B (bucket_at w a))))
    \<and> conns w' = (conns w)(ac \<mapsto> c') \<and> wire c' = wire c @ ''STORED'' @ [CR, LF] \<and> Busy c' = 0
    \<and> replying m c' 0 [] \<and> pipes w' = pending_note c (pipes w)"
  using set_handled [OF assms, of outs sels] unfolding STORED_def by blast

text \<open>
  A server with four buckets, two busy connections, a message that sets the key \<open>ab\<close> for the first
  and one that gets it for the second.
\<close>

definition ab_hdr :: aMsgHdrIN_t where
  "ab_hdr = \<lparr>hdr_key = ''ab'' @ NUL # replicate 253 NUL, hdr_keylen = 2, hdr_hashval = 9, hdr_KVdataptr = NULL\<rparr>"

definition busy_conn :: aConn where "busy_conn = fresh_conn\<lparr>Busy := 1\<rparr>"

definition set_ab :: aMsg where
  "set_ab = (aMsg_Init KVDATA 8 ACACHED_CMD_SET)\<lparr>am_hdr := ab_hdr, cmdptr := Some (''x'' @ [CR, LF]),
     KVdataSet := \<lparr>set_flag = 0, set_exptime = 0, set_vallen = 1\<rparr>\<rparr>"

definition get_ab :: aMsg where
  "get_ab = (aMsg_Init KVDATA 9 ACACHED_CMD_GETS)\<lparr>am_hdr := ab_hdr\<rparr>"

definition demo :: server where
  "demo = (sga_settings 0 2)\<lparr>ahashtableptr := ahashtable_new 4 2, brk := 100,
     conns := [8 \<mapsto> busy_conn, 9 \<mapsto> busy_conn\<lparr>reqCount := 1\<rparr>], msgs := [6 \<mapsto> set_ab, 7 \<mapsto> get_ab]\<rparr>"

lemma demo_facts:
  "msgs demo 6 = Some set_ab" "msgs demo 7 = Some get_ab" "conns demo 8 = Some busy_conn"
  "conns demo 9 = Some (busy_conn\<lparr>reqCount := 1\<rparr>)" "set_msg set_ab ''ab'' ''x''" "get_msg get_ab ''ab''"
  "am_aC set_ab = 8" "am_aC get_ab = 9" "clean ''ab''" "Busy busy_conn = 1" "wire busy_conn = []"
  "concPending busy_conn = 0" "replyCount busy_conn = 0" "bucket_at demo get_ab = bucket_at demo set_ab"
  by (simp_all add: demo_def set_ab_def get_ab_def ab_hdr_def set_msg_def get_msg_def clean_def busy_conn_def
      fresh_conn_simps aMsg_Init_def bucket_at_def) (simp_all add: fresh_conn_def aConn_new_def aConn_Reset_def zero_conn_def Let_def)

lemma busy_conn_replying: "replying m busy_conn 0 []"
proof -
  have "windexlast fresh_conn = 0" "writingflag fresh_conn = 0"
    by (simp_all add: fresh_conn_def aConn_new_def aConn_Reset_def zero_conn_def Let_def)
  then show ?thesis
    using fresh_conn_ok by (simp add: replying_def busy_conn_def fresh_conn_simps settled_def conn_ok_def)
qed

lemma demo_store: "srv_store demo (\<lambda>_. [])"
proof -
  have "table_rel (ahashtable_new 4 2) (\<lambda>_. [])"
    using new_rel [where n = 4 and r = 2 and m = Map.empty] by (simp add: ahashtable_new_def Let_def)
  then have "srv_table demo (\<lambda>_. [])" by (simp add: srv_table_def demo_def)
  then show ?thesis unfolding srv_store_def by (intro exI [of _ "\<lambda>_. []"]) simp
qed

lemma SET_stores_and_replies_witness:
  "\<exists>w' c'. kv_handle True [Sent 8] [] 6 demo = Some (Inr ([], w'))
    \<and> srv_store w' ((\<lambda>_. [])(bucket_at demo set_ab := [(brk demo, ''ab'', ''x'')]))
    \<and> conns w' 8 = Some c' \<and> wire c' = ''STORED'' @ [CR, LF] \<and> Busy c' = 0"
  using SET_stores_and_replies [OF demo_facts(1,5,9,7,3,10) busy_conn_replying [of Map.empty] demo_store, of "[]" "[]"]
  by (auto simp: demo_facts)

lemma GET_served:
  assumes "qs \<noteq> []" "distinct (map fst qs)" "\<forall>q \<in> set qs. asks w ac q" "srv_store w B"
    and "conns w ac = Some c" "replying m c 0 []" "length qs < 500" "length (answers B qs) \<le> 126 * 1024"
    and "concPending c = 0" "Busy c = 1" "reqCount c = replyCount c + of_nat (length qs)"
  shows "\<exists>w' c'. kv_run True sels (map fst qs) (Sent (length (answers B qs) + 5) # outs) w = Some (Inr (outs, w'))
    \<and> srv_store w' B \<and> conns w' ac = Some c' \<and> wire c' = wire c @ answers B qs @ ''END'' @ [CR, LF]
    \<and> replying m c' 0 [] \<and> replyCount c' = 0 \<and> reqCount c' = 0 \<and> Busy c' = 0 \<and> pipes w' = pending_note c (pipes w)"
proof -
  have r: "replying (mem (ahashtableptr w)) c 0 []" using assms(6) by (rule replying_nothing)
  have small: "0 + 2 * length qs < 1000" "length ([] :: char list) + length (answers B qs) \<le> 126 * 1024"
    using assms(7,8) by simp_all
  show ?thesis
    using kv_run_gets [OF assms(1-5) r small assms(9-11), of sels outs] replying_nothing
    by (simp add: END_line_def) blast
qed

text \<open>
  The reply to a GET. One worker handles the messages of the keys one after the other: it sends the
  line and the value of each key that is found, in the order of the keys, then \<open>END\<close>, once, and
  nothing for a key that is not found. The items stay, the counters of the reply are cleared, and
  the connection is free for its next command.
\<close>

theorem GET_replies_values:
  assumes "qs \<noteq> []" "distinct (map fst qs)" "\<forall>q \<in> set qs. asks w ac q" "srv_store w B"
    and "conns w ac = Some c" "replying m c 0 []" "length qs < 500" "length (answers B qs) \<le> 126 * 1024"
    and "concPending c = 0" "Busy c = 1" "reqCount c = replyCount c + of_nat (length qs)"
  shows "\<exists>w' c'. kv_run True sels (map fst qs) (Sent (length (answers B qs) + 5) # outs) w = Some (Inr (outs, w'))
    \<and> srv_store w' B \<and> conns w' ac = Some c' \<and> wire c' = wire c @ answers B qs @ ''END'' @ [CR, LF]
    \<and> replying m c' 0 [] \<and> replyCount c' = 0 \<and> reqCount c' = 0 \<and> Busy c' = 0 \<and> pipes w' = pending_note c (pipes w)"
  by (rule GET_served [OF assms])

lemma GET_replies_values_witness:
  "\<exists>w' c'. kv_run True [] [7] [Sent 5] demo = Some (Inr ([], w')) \<and> conns w' 9 = Some c'
    \<and> wire c' = ''END'' @ [CR, LF]"
proof -
  have q: "asks demo 9 (7, ''ab'', bucket_at demo set_ab)" using demo_facts by (simp add: asks_def)
  have e: "answers (\<lambda>_. []) [(7, ''ab'', bucket_at demo set_ab)] = []" by (simp add: answers_def answer_def)
  have r: "replying m (busy_conn\<lparr>reqCount := 1\<rparr>) 0 []" for m using busy_conn_replying by simp
  show ?thesis
    using GET_replies_values [of "[(7, ''ab'', bucket_at demo set_ab)]", OF _ _ _ demo_store demo_facts(4) r [of Map.empty], of "[]" "[]"] q
    by (auto simp: e demo_facts)
qed

text \<open>
  C7: a value that was set is what a later GET of its key returns, to any client: after the handler of
  a SET, a GET of the same key on another connection is sent the line with the length of the value,
  the value, and \<open>END\<close>. The line has flags 0, whatever the SET gave.
\<close>

theorem GET_after_SET:
  assumes "msgs w am = Some a" "set_msg a key val" "clean key" "am_aC a = ac"
    and "conns w ac = Some c" "Busy c = 1" "replying m c 0 []" "srv_store w B"
    and "asks w ac2 (am2, key, bucket_at w a)" "am2 \<noteq> am" "ac2 \<noteq> ac" "conns w ac2 = Some c2" "replying m c2 0 []"
    and "concPending c2 = 0" "Busy c2 = 1" "reqCount c2 = replyCount c2 + 1" "length (value_reply key val) \<le> 126 * 1024"
  shows "\<exists>w1 w2 c'. kv_handle True (Sent 8 # outs) sels am w = Some (Inr (outs, w1))
    \<and> kv_run True sels [am2] (Sent (length (value_reply key val) + 5) # outs') w1 = Some (Inr (outs', w2))
    \<and> conns w2 ac2 = Some c'
    \<and> wire c' = wire c2 @ value_line key (of_nat (length val)) @ val @ [CR, LF] @ ''END'' @ [CR, LF]"
proof -
  let ?b = "bucket_at w a"
  let ?B = "B(?b := item_put (brk w, key, val) (B ?b))"
  obtain w1 c1 where w1: "kv_handle True (Sent 8 # outs) sels am w = Some (Inr (outs, w1))" "srv_store w1 ?B"
    "conns w1 = (conns w)(ac \<mapsto> c1)" "bucket_of (ahashtableptr w1) = bucket_of (ahashtableptr w)"
    "\<forall>p. p \<noteq> am \<longrightarrow> msgs w1 p = msgs w p"
    using set_handled [OF assms(1-8), of outs sels] by blast
  have q: "asks w1 ac2 (am2, key, ?b)"
    using assms(9,10) w1(4,5) by (auto simp: asks_def bucket_at_def)
  have ans: "answers ?B [(am2, key, ?b)] = value_reply key val"
    by (simp add: answers_def answer_def item_get_put)
  have r: "replying (mem (ahashtableptr w1)) c2 0 []" using assms(13) by (rule replying_nothing)
  have "conns w1 ac2 = Some c2" using w1(3) assms(11,12) by simp
  from kv_run_gets [of "[(am2, key, ?b)]", OF _ _ _ w1(2) this r, of sels outs'] q assms(14-17)
  show ?thesis using w1(1) by (auto simp: ans value_reply_def END_line_def)
qed

lemma GET_after_SET_witness:
  "\<exists>w1 w2 c'. kv_handle True [Sent 8] [] 6 demo = Some (Inr ([], w1))
    \<and> kv_run True [] [7] [Sent (length (value_reply ''ab'' ''x'') + 5)] w1 = Some (Inr ([], w2)) \<and> conns w2 9 = Some c'
    \<and> wire c' = ''VALUE ab 0 1 1'' @ [CR, LF] @ ''x'' @ [CR, LF] @ ''END'' @ [CR, LF]"
proof -
  have q: "asks demo 9 (7, ''ab'', bucket_at demo set_ab)" using demo_facts by (simp add: asks_def)
  have r: "replying m (busy_conn\<lparr>reqCount := 1\<rparr>) 0 []" for m using busy_conn_replying by simp
  have l: "length (value_reply ''ab'' ''x'') \<le> 126 * 1024" by (simp add: value_reply_def ab_line)
  show ?thesis
    using GET_after_SET [OF demo_facts(1,5,9,7,3,10) busy_conn_replying [of Map.empty] demo_store q _ _ demo_facts(4) r [of Map.empty] _ _ _ l,
        of "[]" "[]" "[]"]
    by (simp add: demo_facts ab_line)
qed

end
