(* ===== verification/CommThread.thy ===== *)
theory CommThread
  imports KVThread
begin

section \<open>The comm threads and the accept loop (threadComm.cpp, acached.cpp)\<close>

text \<open>
  A comm thread runs an event loop: \<open>commReadMain_cb\<close> when its pipe is readable, \<open>commRead_cb\<close> when a
  socket is. The event loop itself (libevent) calls them with the event registered for the descriptor;
  here an event is its address in \<open>events\<close>.

  \<open>rds\<close> is what the reads of the socket give, one entry for each round of the loop of \<open>commRead_cb\<close>; a
  round that does not read ignores its entry. \<open>sent\<close> is what \<open>send\<close> returns, \<open>errno\<close> the error number
  after the last read.
\<close>

definition checkfd :: "(ptr \<rightharpoonup> aConn) \<Rightarrow> ptr \<Rightarrow> int \<Rightarrow> bool" where
  "checkfd cs p fd = (case cs p of None \<Rightarrow> False | Some c \<Rightarrow> cSockFd c = fd)"

subsection \<open>Data on a socket\<close>

definition posts :: "aCmdType \<Rightarrow> bool" where
  "posts t \<longleftrightarrow> t = ACACHED_CMD_SET \<or> t = ACACHED_CMD_GETS \<or> t = ACACHED_CMD_QUIT"

text \<open>
  A command was read whole: it is posted, and the connection reset for the next one. The result says
  whether the loop goes on.
\<close>

definition command_done :: "ptr \<Rightarrow> server \<Rightarrow> (bool \<times> server) result option" where
  "command_done ac w =
     obind (Some (fetch (conns w) ac)) (\<lambda>c.
     obind (if posts (ctype (cmd c))
            then obind (aConn_Post2KVdata ac (upd_conn ac (c\<lparr>conn_state := cmd_wait\<rparr>) w)) (\<lambda>(_, w). Some (Inr w))
            else Some (Inr w)) (\<lambda>w.
     obind (Some (fetch (conns w) ac)) (\<lambda>c.
     if ctype (cmd c) = ACACHED_CMD_QUIT then Some (Inr (False, w))
     else Some (Inr (True, upd_conn ac (aConn_Reset c) w)))))"

definition comm_round :: "(nat \<Rightarrow> char list) \<Rightarrow> int \<Rightarrow> ptr \<Rightarrow> (nat \<Rightarrow> recv) \<Rightarrow> server \<Rightarrow>
    (bool \<times> int \<times> server) result option" where
  "comm_round malloc sent ac rd w =
     obind (Some (rbind (fetch (conns w) ac) (ProcessDataRecv malloc rd sent))) (\<lambda>(ret, c).
     obind (if 0 < ret \<and> conn_state c = cmd_done then command_done ac (upd_conn ac c w)
            else Some (Inr (True, upd_conn ac c w))) (\<lambda>(again, w).
     obind (Some (fetch (conns w) ac)) (\<lambda>c.
     Some (Inr (again \<and> (0 < ret \<or> dataPendingRead c \<noteq> 0), ret, w)))))"

fun comm_loop :: "(nat \<Rightarrow> char list) \<Rightarrow> int \<Rightarrow> ptr \<Rightarrow> (nat \<Rightarrow> recv) list \<Rightarrow> server \<Rightarrow> (int \<times> server) result option" where
  "comm_loop malloc sent ac [] w = None"
| "comm_loop malloc sent ac (rd # rds) w =
     obind (comm_round malloc sent ac rd w) (\<lambda>r.
       if fst r then comm_loop malloc sent ac rds (snd (snd r)) else Some (Inr (snd r)))"

text \<open>\<open>snprintf(buf, 880, "CLIENT_ERROR %s:%d\r\n", "errno", aerrnum)\<close>\<close>

definition client_error :: "int \<Rightarrow> char list" where
  "client_error n = ''CLIENT_ERROR errno:'' @ dec_int n @ [CR, LF]"

text \<open>What is done about the last return value.\<close>

definition comm_finish :: "int \<Rightarrow> int \<Rightarrow> int \<Rightarrow> ptr \<Rightarrow> ptr \<Rightarrow> int \<times> server \<Rightarrow> server result" where
  "comm_finish sent errno fd ev ac r =
     (case r of (ret, w) \<Rightarrow>
      if 0 < ret then Inr w
      else if ret = 0 then rbind (closeConnection fd ev w) (\<lambda>(_, w). Inr w)
      else rbind (fetch (conns w) ac) (\<lambda>c.
        if aerrtype c = AERR_TYPE_SYS \<and> errno \<noteq> EAGAIN
        then rbind (closeConnection fd ev w) (\<lambda>(_, w). Inr w)
        else if aerrtype c = AERR_TYPE_APP
        then Inr (upd_conn ac (aConn_Reset (snd (WriteData sent c (client_error (aerrnum c))))) w)
        else Inr w))"

text \<open>
  Before the loop, while replies are outstanding, up to 880 bytes of the socket are read and dropped; an
  end of file closes the connection.
\<close>

definition commRead_cb :: "(nat \<Rightarrow> char list) \<Rightarrow> (nat \<Rightarrow> recv) \<Rightarrow> (nat \<Rightarrow> recv) list \<Rightarrow> int \<Rightarrow> int \<Rightarrow> int \<Rightarrow> ptr \<Rightarrow>
    server \<Rightarrow> server result option" where
  "commRead_cb malloc rd0 rds sent errno fd ev w =
     obind (Some (fetch (events w) ev)) (\<lambda>e.
     obind (Some (fetch (conns w) (ev_aC e))) (\<lambda>c.
     if aTcommptr c \<noteq> ev_comm e then Some (Inl AssertFail)
     else if conn_state c = cmd_wait \<and> \<not> (reqCount c = 0 \<or> replyCount c = 0) \<and> rd0 880 = RecvFail 0 0
     then Some (rbind (closeConnection fd ev w) (\<lambda>(_, w). Inr w))
     else obind (comm_loop malloc sent (ev_aC e) rds w) (\<lambda>r.
          Some (comm_finish sent errno fd ev (ev_aC e) r))))"

subsection \<open>Messages on the pipe\<close>

text \<open>A new connection: it is taken from the pool, initialised, and watched.\<close>

definition new_fd :: "aEvent \<Rightarrow> int \<Rightarrow> server \<Rightarrow> server result" where
  "new_fd e newfd w =
     (let (ac, w) = aConnAllocate w in
      rbind (fetch (conns w) ac) (\<lambda>c.
        let c = (aConn_Init c 402 newfd)\<lparr>aTcommptr := ev_comm e\<rparr>; ev = brk w;
            c = c\<lparr>commRead_wptr := ev, ev_loop := ev_base e\<rparr>
        in Inr ((upd_conn ac c w)\<lparr>events := (events w)(ev \<mapsto> \<lparr>ev_base = ev_base e, ev_comm = ev_comm e, ev_aC = ac\<rparr>),
             brk := Suc ev, watched := insert ev (watched w)\<rparr>)))"

text \<open>A connection may have commands pending. It is found by its socket, among the busy ones.\<close>

definition look_pending :: "int \<Rightarrow> server \<Rightarrow> server result option" where
  "look_pending fd w =
     (let (ac, f) = aFBSQFindPtrBUSY (aFBSQGaConn w) (checkfd (conns w)) fd; w = w\<lparr>aFBSQGaConn := f\<rparr> in
      if ac = NULL then Some (Inr w) else obind (Post2KVdataTSQ ac NULL w) (\<lambda>(_, w). Some (Inr w)))"

fun ProcessNewFd :: "aEvent \<Rightarrow> MsgPipe_t list \<Rightarrow> server \<Rightarrow> server result option" where
  "ProcessNewFd e [] w = Some (Inr w)"
| "ProcessNewFd e (m # ms) w =
     obind (if initType m = CHR ''I'' then Some (new_fd e (pipe_fd m) w)
            else if initType m = CHR ''P'' then look_pending (pipe_fd m) w
            else Some (Inr w)) (ProcessNewFd e ms)"

text \<open>
  Up to 1008 bytes are read from the pipe, which is 63 messages of 16 bytes. \<open>ok\<close> says whether the read
  succeeds; if not, the event of the pipe is closed.
\<close>

definition commReadMain_cb :: "bool \<Rightarrow> int \<Rightarrow> ptr \<Rightarrow> server \<Rightarrow> server result option" where
  "commReadMain_cb ok fd ev w =
     obind (Some (fetch (events w) ev)) (\<lambda>e.
     let ms = take 63 (pipes w (ev_comm e)) in
     if \<not> ok \<or> ms = [] then Some (rbind (closeConnection fd ev w) (\<lambda>(_, w). Inr w))
     else ProcessNewFd e ms (w\<lparr>pipes := (pipes w)(ev_comm e := drop 63 (pipes w (ev_comm e)))\<rparr>))"

text \<open>The start of a comm thread: the event of its pipe.\<close>

definition thrComm :: "ptr \<Rightarrow> ptr \<Rightarrow> server \<Rightarrow> ptr \<times> server" where
  "thrComm comm base w = (brk w, w\<lparr>events := (events w)(brk w \<mapsto> \<lparr>ev_base = base, ev_comm = comm, ev_aC = NULL\<rparr>),
     brk := Suc (brk w), watched := insert (brk w) (watched w)\<rparr>)"

subsection \<open>The accept loop of main\<close>

text \<open>
  One round: a new socket is announced to the comm threads in turn. A failed \<open>accept\<close> (\<open>- 1\<close>) closes the
  listening socket and is announced all the same.
\<close>

definition accept_round :: "int \<Rightarrow> int \<Rightarrow> nat \<times> server \<Rightarrow> (nat \<times> server) result" where
  "accept_round sockfd newfd s =
     (case s of (i, w) \<Rightarrow>
      if length (aTcomm w) \<le> i then Inl OutOfBounds
      else (let w = (if newfd = - 1 then w\<lparr>closed := sockfd # closed w\<rparr> else w); p = aTcomm w ! i in
        Inr (if i = 1 then 0 else i + 1,
          w\<lparr>pipes := (pipes w)(p := pipes w p @ [\<lparr>initType = CHR ''I'', pipe_fd = newfd\<rparr>])\<rparr>)))"

text \<open>
  \<open>sendall\<close>: \<open>rets\<close> is what the calls of \<open>send\<close> return. The return value and the bytes sent; the value
  \<open>n\<close> of a loop that never ran was never set.
\<close>

definition sendall_end :: "int \<Rightarrow> int option \<Rightarrow> (int \<times> int) result" where
  "sendall_end tot n = (case n of None \<Rightarrow> Inl Uninitialised | Some _ \<Rightarrow> Inr (0, tot))"

fun sendall_loop :: "int \<Rightarrow> int \<Rightarrow> int option \<Rightarrow> int list \<Rightarrow> (int \<times> int) result option" where
  "sendall_loop len tot n [] = (if tot < len then None else Some (sendall_end tot n))"
| "sendall_loop len tot n (r # rets) =
     (if tot < len then
        (if r = - 1 then Some (Inr (- 1, tot)) else sendall_loop len (tot + r) (Some r) rets)
      else Some (sendall_end tot n))"

definition sendall :: "int \<Rightarrow> int list \<Rightarrow> (int \<times> int) result option" where
  "sendall len rets = sendall_loop len 0 None rets"

end
