(* ===== verification/Dispatch.thy ===== *)
theory Dispatch
  imports KVServe CommThread
begin

section \<open>From a command to the workers\<close>

text \<open>
  What becomes of a command that was read whole, on a server that is set up for two workers: the
  messages that are made of it, the queues they go to, and the order of the commands of a connection.
\<close>

subsection \<open>The queues of the workers\<close>

definition queue_of :: "server \<Rightarrow> nat \<Rightarrow> ptr list" where
  "queue_of w i = (case aTSQGKVdata w ! i of None \<Rightarrow> [] | Some (q, _) \<Rightarrow> Q q)"

text \<open>The worker of a hash value.\<close>

definition worker_of :: "u32 \<Rightarrow> nat" where
  "worker_of hv = (if uint (hv AND 65535) \<le> 32768 then 0 else 1)"

definition kv_ready :: "server \<Rightarrow> bool" where
  "kv_ready w \<longleftrightarrow> numCores w = 2 \<and> sga_hashsize w = 65536 \<and> sga_hashmask w = 65535
     \<and> (\<exists>q0 q1. aTSQGKVdata w = [Some q0, Some q1]) \<and> msg_pool_ok w"

text \<open>What posting a message leaves alone.\<close>

definition posted :: "server \<Rightarrow> nat \<Rightarrow> ptr list \<Rightarrow> server \<Rightarrow> bool" where
  "posted w i ams w' \<longleftrightarrow> (\<exists>x. w' = w\<lparr>aTSQGKVdata := x\<rparr>) \<and> kv_ready w'
     \<and> queue_of w' i = queue_of w i @ ams \<and> (\<forall>j < 2. j \<noteq> i \<longrightarrow> queue_of w' j = queue_of w j)"

lemma worker_of_less: "worker_of hv < 2"
  by (simp add: worker_of_def)

lemma Post2KVdata_posted:
  assumes "kv_ready w" "msgs w am = Some a"
  shows "\<exists>w'. Post2KVdata w am = Inr (0, w') \<and> posted w (worker_of (hdr_hashval (am_hdr a))) [am] w'"
proof -
  let ?hv = "hdr_hashval (am_hdr a)"
  obtain q0 n0 q1 n1 where q: "aTSQGKVdata w = [Some (q0, n0), Some (q1, n1)]"
    using assms(1) by (auto simp: kv_ready_def)
  have "KVdatathrindex w ?hv = Inr (worker_of ?hv)"
    using KVdatathrindex_eq [of w 0 ?hv] assms(1) by (simp add: kv_ready_def worker_of_def)
  moreover have "Q (aTSQputMsg q am) = Q q @ [am]" for q
    by (simp add: aTSQputMsg_def sharedq_defs aQput_def Let_def)
  moreover have "kv_ready (w\<lparr>aTSQGKVdata := [Some a, Some b]\<rparr>)" for a b
    using assms(1) by (simp add: kv_ready_def msg_pool_ok_def)
  moreover have "(\<forall>j < 2. P j) \<longleftrightarrow> P 0 \<and> P (1 :: nat)" for P by (auto simp: less_2_cases_iff)
  moreover have "worker_of ?hv = 0 \<or> worker_of ?hv = 1" by (simp add: worker_of_def)
  ultimately show ?thesis
    using assms(2) q by (elim disjE) (simp_all add: Post2KVdata_def put_kv_def posted_def queue_of_def, blast+)
qed

lemma kv_ready_frame: "kv_ready w \<Longrightarrow> numCores w' = numCores w \<Longrightarrow> sga_hashsize w' = sga_hashsize w \<Longrightarrow>
    sga_hashmask w' = sga_hashmask w \<Longrightarrow> aTSQGKVdata w' = aTSQGKVdata w \<Longrightarrow> aFBSQGaMsg w' = aFBSQGaMsg w \<Longrightarrow>
    brk w' = brk w \<Longrightarrow> kv_ready w'"
  by (simp add: kv_ready_def msg_pool_ok_def)

lemma kv_ready_upd [simp]: "kv_ready (upd_conn p c w) = kv_ready w" "kv_ready (upd_msg p a w) = kv_ready w"
  "queue_of (upd_conn p c w) = queue_of w" "queue_of (upd_msg p a w) = queue_of w"
  by (auto simp: kv_ready_def msg_pool_ok_def queue_of_def fun_eq_iff)

lemma kv_ready_allocate:
  assumes "kv_ready w"
  shows "\<exists>am f b. aMsgAllocate w = Some (am, w\<lparr>aFBSQGaMsg := f, brk := b\<rparr>) \<and> am \<noteq> NULL
    \<and> am \<notin> set (busy_of (aFBSQGaMsg w)) \<and> brk w \<le> b \<and> kv_ready (w\<lparr>aFBSQGaMsg := f, brk := b\<rparr>)
    \<and> set (busy_of f) \<supseteq> insert am (set (busy_of (aFBSQGaMsg w)))"
proof -
  have "msg_pool_ok w" using assms by (simp add: kv_ready_def)
  from aMsgAllocate_spec [OF this] obtain am f b where
    "aMsgAllocate w = Some (am, w\<lparr>aFBSQGaMsg := f, brk := b\<rparr>)" "am \<noteq> NULL" "am \<notin> set (busy_of (aFBSQGaMsg w))"
    "brk w \<le> b" "msg_pool_ok (w\<lparr>aFBSQGaMsg := f, brk := b\<rparr>)"
    "busy_of f = busy_of (aFBSQGaMsg w) @ [NULL, am] \<or> busy_of f = busy_of (aFBSQGaMsg w) @ [am]"
    by (auto split: if_splits)
  moreover have "kv_ready (w\<lparr>aFBSQGaMsg := f, brk := b\<rparr>)"
    using assms calculation(5) by (simp add: kv_ready_def)
  ultimately show ?thesis by (intro exI [of _ am] exI [of _ f] exI [of _ b]) auto
qed

text \<open>The messages that were in use stay as they are; the messages \<open>new\<close> were not in use.\<close>

definition messages_kept :: "server \<Rightarrow> ptr set \<Rightarrow> server \<Rightarrow> bool" where
  "messages_kept w new w' \<longleftrightarrow> new \<inter> set (busy_of (aFBSQGaMsg w)) = {}
     \<and> (\<forall>p \<in> set (busy_of (aFBSQGaMsg w)). msgs w' p = msgs w p \<and> p \<in> set (busy_of (aFBSQGaMsg w')))"

lemma messages_kept_upd [simp]: "messages_kept (upd_conn p c w) new w' = messages_kept w new w'"
    "messages_kept w new (upd_conn p c w') = messages_kept w new w'"
  by (simp_all add: messages_kept_def)

subsection \<open>The header of a message\<close>

lemma MsgHdrIN_Init_read:
  assumes "NUL \<notin> set key" "length key < 256"
  shows "MsgHdrIN_Init addr (aMsg_Init t aC ct) (key @ r) (int (length key)) 0 = Inr ((aMsg_Init t aC ct)
    \<lparr>am_hdr := \<lparr>hdr_key = key @ NUL # replicate (255 - length key) NUL, hdr_keylen = int (length key),
       hdr_hashval = key_hash key, hdr_KVdataptr = NULL\<rparr>\<rparr>)"
proof -
  have n: "size_t_of_int (int (length key)) = length key"
    using assms(2) by (simp add: size_t_of_int_def nat_mod_as_int)
  have "cstr (key @ r) = key @ cstr r" 
    unfolding cstr_def by (subst takeWhile_append2) (use assms(1) in auto)
  then have "strncpy (replicate 256 NUL) (cstr (key @ r)) (length key) =
      strncpy (replicate 256 NUL) (cstr key) (length key)"
    using assms by (simp add: strncpy_def cstr_no_NUL)
  then have "MsgHdrIN_Init addr (aMsg_Init t aC ct) (key @ r) (int (length key)) 0 =
      MsgHdrIN_Init addr (aMsg_Init t aC ct) key (int (length key)) 0"
    by (simp add: MsgHdrIN_Init_def n aMsg_Init_def Let_def)
  moreover have "replicate (256 - length key) NUL = NUL # replicate (255 - length key) NUL"
    using assms(2) by (simp flip: replicate_Suc add: Suc_diff_le)
  ultimately show ?thesis using MsgHdrIN_Init_key [OF assms] by simp
qed

subsection \<open>A SET is posted\<close>

text \<open>The header buffers of a request: the vectors up to \<open>req_indexHdr\<close>.\<close>

definition headers_ok :: "aConn \<Rightarrow> bool" where
  "headers_ok c \<longleftrightarrow> conn_ok c \<and> unat (req_indexHdr (iovReq c)) < REQ_SIZE
     \<and> (\<forall>i \<le> unat (req_indexHdr (iovReq c)). REQ_HDR \<in> req_desc (iovReq c) ! i \<or> REQ_HDR_PART \<in> req_desc (iovReq c) ! i)"

lemma free_hdr_run:
  assumes "conn_ok c" "n < REQ_SIZE" "REQ_HDR \<in> req_desc (iovReq c) ! n \<or> REQ_HDR_PART \<in> req_desc (iovReq c) ! n"
  shows "\<exists>q. free_hdr n c = Inr (c\<lparr>iovReq := q\<rparr>) \<and> conn_ok (c\<lparr>iovReq := q\<rparr>) \<and> req_desc q = req_desc (iovReq c)"
  using assms
  by (intro exI [of _ "(iovReq c)\<lparr>req_base := (req_base (iovReq c))[n := None], req_len := (req_len (iovReq c))[n := 0],
      req_offset := (req_offset (iovReq c))[n := 0], req_alloc := (req_alloc (iovReq c))[n := 0]\<rparr>"])
    (simp add: free_hdr_def FreeIov_def Let_def conn_ok_def)

lemma free_hdrs_run:
  assumes "conn_ok c" "n < REQ_SIZE"
    and "\<forall>i \<le> n. REQ_HDR \<in> req_desc (iovReq c) ! i \<or> REQ_HDR_PART \<in> req_desc (iovReq c) ! i"
  shows "\<exists>q. free_hdrs n c = Inr (c\<lparr>iovReq := q\<rparr>) \<and> conn_ok (c\<lparr>iovReq := q\<rparr>)"
  using assms
proof (induction n arbitrary: c)
  case 0
  then show ?case using free_hdr_run [of c 0] by auto
next
  case (Suc n)
  obtain q where q: "free_hdr (Suc n) c = Inr (c\<lparr>iovReq := q\<rparr>)" "conn_ok (c\<lparr>iovReq := q\<rparr>)"
    "req_desc q = req_desc (iovReq c)"
    using free_hdr_run [of c "Suc n"] Suc.prems by auto
  have "\<exists>q'. free_hdrs n (c\<lparr>iovReq := q\<rparr>) = Inr (c\<lparr>iovReq := q, iovReq := q'\<rparr>) \<and> conn_ok (c\<lparr>iovReq := q, iovReq := q'\<rparr>)"
    using Suc.prems q by (intro Suc.IH) simp_all
  then show ?case using q(1) by auto
qed

text \<open>A connection that has read a SET whole: the key, the length, and the body in the current vector.\<close>

definition read_set :: "aConn \<Rightarrow> string \<Rightarrow> char list \<Rightarrow> bool" where
  "read_set c key val \<longleftrightarrow> headers_ok c \<and> ctype (cmd c) = ACACHED_CMD_SET \<and> clean key
     \<and> (\<exists>r. cmd_key (cmd c) = key @ r) \<and> length key < 256 \<and> keylen (cmd c) = of_nat (length key)
     \<and> datalen (cmd c) = of_nat (length val) \<and> length key + length val + 34 < 2 ^ 31
     \<and> req_at c < REQ_SIZE \<and> (\<exists>r. req_base (iovReq c) ! req_at c = Some (val @ r))"

lemma set_message_run:
  assumes c: "conns w ac = Some c" and r: "read_set c key val"
  shows "\<exists>a q. set_message ac am w = Inr (upd_conn ac (c\<lparr>iovReq := q\<rparr>) (upd_msg am a w))
    \<and> set_msg a key val \<and> am_aC a = ac \<and> hdr_hashval (am_hdr a) = key_hash key \<and> conn_ok (c\<lparr>iovReq := q\<rparr>)"
proof -
  obtain kr vr where k: "cmd_key (cmd c) = key @ kr" "req_base (iovReq c) ! req_at c = Some (val @ vr)"
    using r by (auto simp: read_set_def)
  have len: "length key < 256" "length val < 2 ^ 31" "length key + length val + 34 < 2 ^ 31"
    and t: "ctype (cmd c) = ACACHED_CMD_SET" and nul: "NUL \<notin> set key"
    using r by (simp_all add: read_set_def clean_def)
  have s: "sint (keylen (cmd c)) = int (length key)" "sint (datalen (cmd c)) = int (length val)"
    using r len(1,2) sint_of_nat_small [of "length key"] sint_of_nat_small [of "length val"]
    by (simp_all add: read_set_def)
  have hok: "conn_ok c" "unat (req_indexHdr (iovReq c)) < REQ_SIZE"
    using r by (simp_all add: read_set_def headers_ok_def)
  have pos: "\<not> sint (req_indexHdr (iovReq c)) < 0"
    using hok(2) sint_small [of "req_indexHdr (iovReq c)"] by simp
  obtain q where q: "free_hdrs (unat (req_indexHdr (iovReq c))) c = Inr (c\<lparr>iovReq := q\<rparr>)" "conn_ok (c\<lparr>iovReq := q\<rparr>)"
    using free_hdrs_run [OF hok] r by (auto simp: read_set_def headers_ok_def)
  have b: "req_base_at c (req_at c) = Inr (Some (val @ vr))"
    using k(2) hok(1) r by (simp add: req_base_at_def conn_ok_def read_set_def)
  let ?a = "(aMsg_Init KVDATA ac ACACHED_CMD_SET)
    \<lparr>am_hdr := \<lparr>hdr_key = key @ NUL # replicate (255 - length key) NUL, hdr_keylen = int (length key),
       hdr_hashval = key_hash key, hdr_KVdataptr = NULL\<rparr>, cmdptr := Some (val @ vr),
     KVdataSet := \<lparr>set_flag = sint (cmd_flags (cmd c)), set_exptime = sint (exptime (cmd c)), set_vallen = int (length val)\<rparr>\<rparr>"
  have "set_message ac am w = Inr (upd_conn ac (c\<lparr>iovReq := q\<rparr>) (upd_msg am ?a w))"
    using c q(1) b pos MsgHdrIN_Init_read [OF nul len(1), of am KVDATA ac ACACHED_CMD_SET kr]
    by (simp add: set_message_def Let_def t s k(1))
  moreover have "set_msg ?a key val" using len(3) by (simp add: set_msg_def aMsg_Init_def)
  ultimately show ?thesis using q(2) by (intro exI [of _ ?a] exI [of _ q]) (simp add: aMsg_Init_def)
qed

text \<open>On an idle connection without pending commands, the message of a SET goes to its worker.\<close>

lemma TSQ_set_posted:
  assumes w: "kv_ready w" and c: "conns w ac = Some c" "Busy c = 0" "Q (PendingCmdQ c) = []"
    "ctype (cmd c) = ACACHED_CMD_SET"
    and a: "msgs w am = Some a" "am_aC a = ac" "am \<noteq> NULL"
  shows "\<exists>w' pq. Post2KVdataTSQ ac am w = Some (Inr (0, w')) \<and> Q pq = []
    \<and> posted (upd_conn ac (c\<lparr>Busy := 1, PendingCmdQ := pq\<rparr>) w) (worker_of (hdr_hashval (am_hdr a))) [am] w'"
proof -
  obtain pq where get: "aSQget (PendingCmdQ c) = (NULL, pq)" "Q pq = []"
    using c(3) by (simp add: sharedq_defs adaptq_defs Let_def)
  let ?w = "upd_conn ac (c\<lparr>Busy := 1, PendingCmdQ := pq\<rparr>) w"
  have "kv_ready ?w" "msgs ?w am = Some a" using w a(1) by simp_all
  from Post2KVdata_posted [OF this] obtain w' where
    w': "Post2KVdata ?w am = Inr (0, w')" "posted ?w (worker_of (hdr_hashval (am_hdr a))) [am] w'" by blast
  have "start_command ac am ?w = Some (Inr (0, w'))"
    using w'(1) a(1,2) c(4) by (simp add: start_command_def)
  then have "Post2KVdataTSQ ac am w = Some (Inr (0, w'))"
    using c(1,2) a(3) get by (simp add: Post2KVdataTSQ_def sync_bool_cas_def)
  then show ?thesis using w'(2) get(2) by blast
qed

lemma posted_frame:
  assumes "posted w i ams w'"
  shows "conns w' = conns w" "msgs w' = msgs w" "ahashtableptr w' = ahashtableptr w" "brk w' = brk w"
    "pipes w' = pipes w" "aFBSQGaMsg w' = aFBSQGaMsg w" "aFBSQGaConn w' = aFBSQGaConn w" "kv_ready w'"
    "srv_store w' B = srv_store w B" "events w' = events w"
  using assms by (auto simp: posted_def srv_store_def srv_table_def)

lemma srv_store_brk: "srv_store w B \<Longrightarrow> brk w \<le> b \<Longrightarrow> srv_store (w\<lparr>aFBSQGaMsg := f, brk := b\<rparr>) B"
  by (erule srv_store_grows) simp_all

text \<open>What stays of a connection when its command was posted.\<close>

definition posted_conn :: "aConn \<Rightarrow> aConn \<Rightarrow> bool" where
  "posted_conn c c' \<longleftrightarrow> (\<exists>q pq. c' = c\<lparr>iovReq := q, Busy := 1, PendingCmdQ := pq\<rparr> \<and> Q pq = []) \<and> conn_ok c'"

lemma SET_posted:
  assumes w: "kv_ready w" and B: "srv_store w B" and c: "conns w ac = Some c" "Busy c = 0" "Q (PendingCmdQ c) = []"
    and r: "read_set c key val"
  shows "\<exists>am w' a c'. aConn_Post2KVdata ac w = Some (Inr (0, w')) \<and> kv_ready w' \<and> srv_store w' B
    \<and> am \<notin> set (busy_of (aFBSQGaMsg w)) \<and> msgs w' am = Some a \<and> set_msg a key val \<and> am_aC a = ac
    \<and> hdr_hashval (am_hdr a) = key_hash key \<and> conns w' = (conns w)(ac \<mapsto> c') \<and> posted_conn c c'
    \<and> queue_of w' (worker_of (key_hash key)) = queue_of w (worker_of (key_hash key)) @ [am]
    \<and> (\<forall>j < 2. j \<noteq> worker_of (key_hash key) \<longrightarrow> queue_of w' j = queue_of w j)
    \<and> (\<forall>p. p \<noteq> am \<longrightarrow> msgs w' p = msgs w p) \<and> pipes w' = pipes w \<and> ahashtableptr w' = ahashtableptr w
    \<and> events w' = events w \<and> am \<noteq> NULL \<and> am \<in> set (busy_of (aFBSQGaMsg w')) \<and> messages_kept w {am} w'"
proof -
  obtain am f b where al: "aMsgAllocate w = Some (am, w\<lparr>aFBSQGaMsg := f, brk := b\<rparr>)" "am \<noteq> NULL"
    "am \<notin> set (busy_of (aFBSQGaMsg w))" "brk w \<le> b" "kv_ready (w\<lparr>aFBSQGaMsg := f, brk := b\<rparr>)"
    "insert am (set (busy_of (aFBSQGaMsg w))) \<subseteq> set (busy_of f)"
    using kv_ready_allocate [OF w] by blast
  let ?w1 = "w\<lparr>aFBSQGaMsg := f, brk := b\<rparr>"
  obtain a q where a: "set_message ac am ?w1 = Inr (upd_conn ac (c\<lparr>iovReq := q\<rparr>) (upd_msg am a ?w1))"
    "set_msg a key val" "am_aC a = ac" "hdr_hashval (am_hdr a) = key_hash key" "conn_ok (c\<lparr>iovReq := q\<rparr>)"
    using set_message_run [of ?w1 ac c key val am] c(1) r by auto
  let ?c2 = "c\<lparr>iovReq := q\<rparr>" and ?w2 = "upd_conn ac (c\<lparr>iovReq := q\<rparr>) (upd_msg am a ?w1)"
  have t: "ctype (cmd c) = ACACHED_CMD_SET" using r by (simp add: read_set_def)
  have "kv_ready ?w2" "conns ?w2 ac = Some ?c2" "Busy ?c2 = 0" "Q (PendingCmdQ ?c2) = []"
    "ctype (cmd ?c2) = ACACHED_CMD_SET" "msgs ?w2 am = Some a"
    using al(5) c t by simp_all
  from TSQ_set_posted [OF this a(3) al(2)] obtain w' pq where
    w': "Post2KVdataTSQ ac am ?w2 = Some (Inr (0, w'))" "Q pq = []"
      "posted (upd_conn ac (?c2\<lparr>Busy := 1, PendingCmdQ := pq\<rparr>) ?w2) (worker_of (key_hash key)) [am] w'"
    unfolding a(4) by blast
  have run: "aConn_Post2KVdata ac w = Some (Inr (0, w'))"
    using c(1) t al(1) a(1) w'(1) by (simp add: aConn_Post2KVdata_def Post2KVdataSet_def)
  have "messages_kept w {am} w'"
    using al(3,6) posted_frame(2,6) [OF w'(3)] by (auto simp: messages_kept_def)
  moreover have "srv_store ?w1 B" by (rule srv_store_brk [OF B al(4)])
  then have "srv_store w' B" using posted_frame(9) [OF w'(3)] by (simp add: srv_store_def srv_table_def)
  moreover have "posted_conn c (?c2\<lparr>Busy := 1, PendingCmdQ := pq\<rparr>)"
    unfolding posted_conn_def using w'(2) a(5) by (auto simp: conn_ok_def)
  ultimately show ?thesis
    using run al(2,3,6) a posted_frame [OF w'(3)] w'(3)
    by (intro exI [of _ am] exI [of _ w'] exI [of _ a] exI [of _ "?c2\<lparr>Busy := 1, PendingCmdQ := pq\<rparr>"])
      (simp add: posted_def queue_of_def)
qed

subsection \<open>A GET is posted\<close>

text \<open>A message for one key of a GET.\<close>

definition key_msg :: "server \<Rightarrow> ptr \<Rightarrow> ptr \<times> string \<Rightarrow> bool" where
  "key_msg w ac q \<longleftrightarrow> (\<exists>a. msgs w (fst q) = Some a \<and> get_msg a (snd q) \<and> am_aC a = ac
     \<and> hdr_hashval (am_hdr a) = key_hash (snd q))"

definition good_key :: "string \<Rightarrow> bool" where
  "good_key k \<longleftrightarrow> clean k \<and> length k < 256"

text \<open>The connection when a number of keys was posted, and the last of them or not.\<close>

definition counted :: "nat \<Rightarrow> bool \<Rightarrow> aConn \<Rightarrow> aConn" where
  "counted n lastkey c = c\<lparr>reqCount := reqCount c + of_nat n, concPending := (if lastkey then 0 else concPending c)\<rparr>"

lemma key_message:
  assumes "good_key k" "ct = ACACHED_CMD_GETS"
  shows "\<exists>a. MsgHdrIN_Init am (aMsg_Init KVDATA ac ct) k (int (length k)) 0 = Inr a \<and> get_msg a k \<and> am_aC a = ac
    \<and> hdr_hashval (am_hdr a) = key_hash k"
proof -
  have k: "NUL \<notin> set k" "length k < 256" "clean k" using assms(1) by (simp_all add: good_key_def clean_def)
  from MsgHdrIN_Init_read [OF k(1,2), of am KVDATA ac ct "[]"] k assms(2) show ?thesis
    by (simp add: get_msg_def aMsg_Init_def)
qed

lemma gets_key_run:
  assumes w: "kv_ready w" and c: "conns w ac = Some c" "ctype (cmd c) = ACACHED_CMD_GETS" "concPending c = 1"
    and k: "good_key k"
  shows "\<exists>am w'. gets_key ac k lastkey w = Some (Inr w') \<and> am \<notin> set (busy_of (aFBSQGaMsg w))
    \<and> insert am (set (busy_of (aFBSQGaMsg w))) \<subseteq> set (busy_of (aFBSQGaMsg w')) \<and> key_msg w' ac (am, k)
    \<and> kv_ready w' \<and> conns w' = (conns w)(ac \<mapsto> counted 1 lastkey c) \<and> (\<forall>p. p \<noteq> am \<longrightarrow> msgs w' p = msgs w p)
    \<and> (\<forall>i < 2. queue_of w' i = queue_of w i @ (if worker_of (key_hash k) = i then [am] else []))
    \<and> pipes w' = pipes w \<and> ahashtableptr w' = ahashtableptr w \<and> (\<forall>B. srv_store w B \<longrightarrow> srv_store w' B)
    \<and> events w' = events w \<and> am \<noteq> NULL"
proof -
  obtain am f b where al: "aMsgAllocate w = Some (am, w\<lparr>aFBSQGaMsg := f, brk := b\<rparr>)" "am \<noteq> NULL"
    "am \<notin> set (busy_of (aFBSQGaMsg w))" "brk w \<le> b" "kv_ready (w\<lparr>aFBSQGaMsg := f, brk := b\<rparr>)"
    "insert am (set (busy_of (aFBSQGaMsg w))) \<subseteq> set (busy_of f)"
    using kv_ready_allocate [OF w] by blast
  let ?w1 = "w\<lparr>aFBSQGaMsg := f, brk := b\<rparr>" and ?c = "counted 1 lastkey c"
  obtain a where a: "MsgHdrIN_Init am (aMsg_Init KVDATA ac (ctype (cmd c))) k (int (length k)) 0 = Inr a"
    "get_msg a k" "am_aC a = ac" "hdr_hashval (am_hdr a) = key_hash k"
    using key_message [OF k c(2), of am ac] by blast
  let ?w2 = "upd_conn ac ?c (upd_msg am a ?w1)"
  have cnt: "(case IsconcPending (counted (Suc 0) False c) of (r, c) \<Rightarrow>
      if r \<noteq> 0 then snd (concPendingReset c) else c) = counted (Suc 0) True c"
    "c\<lparr>reqCount := reqCount c + 1\<rparr> = counted (Suc 0) False c"
    using c(3) by (simp_all add: counted_def conn_flag_defs atomic_defs)
  have "kv_ready ?w2" "msgs ?w2 am = Some a" using al(5) by simp_all
  from Post2KVdata_posted [OF this] obtain w' where
    w': "Post2KVdata ?w2 am = Inr (0, w')" "posted ?w2 (worker_of (key_hash k)) [am] w'" unfolding a(4) by blast
  have run: "gets_key ac k lastkey w = Some (Inr w')"
    using al(1) c(1) a(1) w'(1) unfolding gets_key_def by (cases lastkey) (simp_all add: cnt Let_def)
  note fr = posted_frame [OF w'(2)]
  have "srv_store w' B" if "srv_store w B" for B
    using srv_store_brk [OF that al(4), of f] fr(9) [of B] by (simp add: srv_store_def srv_table_def)
  moreover have "\<forall>i < 2. queue_of w' i = queue_of w i @ (if worker_of (key_hash k) = i then [am] else [])"
    using w'(2) by (auto simp: posted_def queue_of_def)
  moreover have "key_msg w' ac (am, k)" using fr(2) a by (simp add: key_msg_def)
  ultimately show ?thesis
    using run al(2,3,6) fr by (intro exI [of _ am] exI [of _ w']) simp
qed

text \<open>The messages of the keys, and which worker has them.\<close>

definition keys_of :: "nat \<Rightarrow> (ptr \<times> string) list \<Rightarrow> ptr list" where
  "keys_of i qs = map fst (filter (\<lambda>q. worker_of (key_hash (snd q)) = i) qs)"

lemma gets_loop_run:
  assumes "kv_ready w" "conns w ac = Some c" "ctype (cmd c) = ACACHED_CMD_GETS" "concPending c = 1"
    and "\<forall>k \<in> set ks. good_key k" "ks \<noteq> []"
  shows "\<exists>qs w'. gets_loop ac ks w = Some (Inr w') \<and> map snd qs = ks \<and> distinct (map fst qs)
    \<and> set (map fst qs) \<inter> set (busy_of (aFBSQGaMsg w)) = {}
    \<and> set (busy_of (aFBSQGaMsg w)) \<subseteq> set (busy_of (aFBSQGaMsg w')) \<and> (\<forall>q \<in> set qs. key_msg w' ac q)
    \<and> kv_ready w' \<and> conns w' = (conns w)(ac \<mapsto> counted (length ks) True c)
    \<and> (\<forall>p \<in> set (busy_of (aFBSQGaMsg w)). msgs w' p = msgs w p)
    \<and> (\<forall>i < 2. queue_of w' i = queue_of w i @ keys_of i qs)
    \<and> pipes w' = pipes w \<and> ahashtableptr w' = ahashtableptr w \<and> (\<forall>B. srv_store w B \<longrightarrow> srv_store w' B)
    \<and> events w' = events w \<and> set (map fst qs) \<subseteq> set (busy_of (aFBSQGaMsg w')) \<and> NULL \<notin> set (map fst qs)"
  using assms
proof (induction ks arbitrary: w c)
  case (Cons k ks)
  have k: "good_key k" using Cons.prems(5) by simp
  from gets_key_run [OF Cons.prems(1-4) k, of "ks = []"] obtain am w1 where
    w1: "gets_key ac k (ks = []) w = Some (Inr w1)" "am \<notin> set (busy_of (aFBSQGaMsg w))"
      "insert am (set (busy_of (aFBSQGaMsg w))) \<subseteq> set (busy_of (aFBSQGaMsg w1))" "key_msg w1 ac (am, k)"
      "kv_ready w1" "conns w1 = (conns w)(ac \<mapsto> counted 1 (ks = []) c)" "\<forall>p. p \<noteq> am \<longrightarrow> msgs w1 p = msgs w p"
      "\<forall>i < 2. queue_of w1 i = queue_of w i @ (if worker_of (key_hash k) = i then [am] else [])"
      "pipes w1 = pipes w" "ahashtableptr w1 = ahashtableptr w" "\<forall>B. srv_store w B \<longrightarrow> srv_store w1 B"
      "events w1 = events w" "am \<noteq> NULL"
    by blast
  have old: "\<forall>p \<in> set (busy_of (aFBSQGaMsg w)). msgs w1 p = msgs w p" using w1(2,7) by metis
  show ?case
  proof (cases "ks = []")
    case True
    then show ?thesis
      using w1 old by (intro exI [of _ "[(am, k)]"] exI [of _ w1]) (auto simp: keys_of_def)
  next
    case False
    let ?c = "counted 1 (ks = []) c"
    have "conns w1 ac = Some ?c" "ctype (cmd ?c) = ACACHED_CMD_GETS" "concPending ?c = 1" "\<forall>k \<in> set ks. good_key k"
      using w1(6) Cons.prems(3-5) False by (simp_all add: counted_def)
    from Cons.IH [OF w1(5) this False] obtain qs w' where
      w': "gets_loop ac ks w1 = Some (Inr w')" "map snd qs = ks" "distinct (map fst qs)"
        "set (map fst qs) \<inter> set (busy_of (aFBSQGaMsg w1)) = {}"
        "set (busy_of (aFBSQGaMsg w1)) \<subseteq> set (busy_of (aFBSQGaMsg w'))" "\<forall>q \<in> set qs. key_msg w' ac q"
        "kv_ready w'" "conns w' = (conns w1)(ac \<mapsto> counted (length ks) True ?c)"
        "\<forall>p \<in> set (busy_of (aFBSQGaMsg w1)). msgs w' p = msgs w1 p"
        "\<forall>i < 2. queue_of w' i = queue_of w1 i @ keys_of i qs"
        "pipes w' = pipes w1" "ahashtableptr w' = ahashtableptr w1" "\<forall>B. srv_store w1 B \<longrightarrow> srv_store w' B"
        "events w' = events w1" "set (map fst qs) \<subseteq> set (busy_of (aFBSQGaMsg w'))" "NULL \<notin> set (map fst qs)"
      by blast
    let ?qs = "(am, k) # qs"
    have am: "am \<in> set (busy_of (aFBSQGaMsg w1))" using w1(3) by blast
    have new: "distinct (map fst ?qs)" using w'(3,4) am by auto
    have dis: "set (map fst ?qs) \<inter> set (busy_of (aFBSQGaMsg w)) = {}" using w'(4) w1(2,3) by auto
    have msg: "\<forall>q \<in> set ?qs. key_msg w' ac q"
      using w'(6,9) w1(4) am by (simp add: key_msg_def)
    have keep: "\<forall>p \<in> set (busy_of (aFBSQGaMsg w)). msgs w' p = msgs w p" using w'(9) w1(3) old by (metis insert_subset subsetD)
    have cnt: "counted (length ks) True ?c = counted (length (k # ks)) True c"
      by (simp add: counted_def add.assoc)
    have que: "\<forall>i < 2. queue_of w' i = queue_of w i @ keys_of i ?qs" using w'(10) w1(8) by (simp add: keys_of_def)
    have run: "gets_loop ac (k # ks) w = Some (Inr w')" using w1(1) w'(1) by simp
    have cs: "conns w' = (conns w)(ac \<mapsto> counted (length (k # ks)) True c)"
      unfolding w'(8) w1(6) cnt by simp
    have bs: "set (busy_of (aFBSQGaMsg w)) \<subseteq> set (busy_of (aFBSQGaMsg w'))" using w1(3) w'(5) by blast
    have mine: "set (map fst ?qs) \<subseteq> set (busy_of (aFBSQGaMsg w'))" using w'(15,5) am by auto
    show ?thesis
      by (intro exI [of _ ?qs] exI [of _ w'] conjI run new dis msg keep que cs bs mine)
        (use w'(2,7,11-14,16) w1(9-13) in simp_all)
  qed
qed simp

text \<open>A connection that has read the line of a GET: the words after the first are its keys.\<close>

definition read_gets :: "aConn \<Rightarrow> string list \<Rightarrow> bool" where
  "read_gets c ks \<longleftrightarrow> conn_ok c \<and> ctype (cmd c) = ACACHED_CMD_GETS \<and> req_index (iovReq c) = 0
     \<and> concPending c = 0 \<and> ks \<noteq> [] \<and> (\<forall>k \<in> set ks. good_key k)
     \<and> (\<exists>buf. req_base (iovReq c) ! 0 = Some buf \<and> tl (words (cstr buf)) = ks)"

lemma GETS_loop_posted:
  assumes w: "kv_ready w" and c: "conns w ac = Some c" "ctype (cmd c) = ACACHED_CMD_GETS" "concPending c = 0"
    and ks: "\<forall>k \<in> set ks. good_key k" "ks \<noteq> []"
    and a: "msgs w am = Some a" "cmdptr a = Some buf" "tl (words (cstr buf)) = ks"
    and busy: "am \<in> set (busy_of (aFBSQGaMsg w))" "am \<noteq> NULL"
  shows "\<exists>qs w'. Post2KVdataGets ac am w = Some (Inr (0, w')) \<and> map snd qs = ks \<and> distinct (map fst qs)
    \<and> (\<forall>q \<in> set qs. key_msg w' ac q) \<and> kv_ready w'
    \<and> conns w' = (conns w)(ac \<mapsto> counted (length ks) True c)
    \<and> (\<forall>i < 2. queue_of w' i = queue_of w i @ keys_of i qs)
    \<and> pipes w' = pipes w \<and> ahashtableptr w' = ahashtableptr w \<and> (\<forall>B. srv_store w B \<longrightarrow> srv_store w' B)
    \<and> events w' = events w \<and> set (map fst qs) \<subseteq> set (busy_of (aFBSQGaMsg w')) \<and> NULL \<notin> set (map fst qs)
    \<and> set (map fst qs) \<inter> set (busy_of (aFBSQGaMsg w)) = {}
    \<and> (\<forall>p \<in> set (busy_of (aFBSQGaMsg w)) - {am}. msgs w' p = msgs w p \<and> p \<in> set (busy_of (aFBSQGaMsg w')))"
proof -
  let ?c1 = "c\<lparr>concPending := 1\<rparr>"
  let ?w1 = "upd_conn ac ?c1 w"
  have set1: "snd (concPendingSet c) = ?c1" using c(3) by (simp add: conn_flag_defs atomic_defs)
  have "kv_ready ?w1" "conns ?w1 ac = Some ?c1" "ctype (cmd ?c1) = ACACHED_CMD_GETS" "concPending ?c1 = 1"
    using w c by simp_all
  from gets_loop_run [OF this ks] obtain qs w2 where
    w2: "gets_loop ac ks ?w1 = Some (Inr w2)" "map snd qs = ks" "distinct (map fst qs)"
      "set (map fst qs) \<inter> set (busy_of (aFBSQGaMsg ?w1)) = {}"
      "set (busy_of (aFBSQGaMsg ?w1)) \<subseteq> set (busy_of (aFBSQGaMsg w2))" "\<forall>q \<in> set qs. key_msg w2 ac q"
      "kv_ready w2" "conns w2 = (conns ?w1)(ac \<mapsto> counted (length ks) True ?c1)"
      "\<forall>p \<in> set (busy_of (aFBSQGaMsg ?w1)). msgs w2 p = msgs ?w1 p"
      "\<forall>i < 2. queue_of w2 i = queue_of ?w1 i @ keys_of i qs"
      "pipes w2 = pipes ?w1" "ahashtableptr w2 = ahashtableptr ?w1" "\<forall>B. srv_store ?w1 B \<longrightarrow> srv_store w2 B"
      "events w2 = events ?w1" "set (map fst qs) \<subseteq> set (busy_of (aFBSQGaMsg w2))" "NULL \<notin> set (map fst qs)"
    by blast
  have am2: "msgs w2 am = Some a" using w2(9) busy(1) a(1) by simp
  let ?w3 = "upd_msg am (a\<lparr>cmdptr := None\<rparr>) w2"
  let ?w4 = "snd (aMsgRelease ?w3 am)"
  have run: "Post2KVdataGets ac am w = Some (Inr (0, ?w4))"
    using a c(1) set1 w2(1) am2 by (simp add: Post2KVdataGets_def)
  have w4: "?w4 = ?w3\<lparr>aFBSQGaMsg := snd (aSGARelease (aFBSQGaMsg w2) am)\<rparr>"
    by (simp add: aMsgRelease_def split: prod.splits)
  have "msg_pool_ok ?w4"
    using w2(5,7) busy by (intro aMsgRelease_ok) (auto simp: kv_ready_def msg_pool_ok_def)
  then have ready: "kv_ready ?w4" using w2(7) unfolding w4 by (auto simp: kv_ready_def)
  have store: "\<forall>B. srv_store w B \<longrightarrow> srv_store ?w4 B"
    using w2(13) unfolding w4 by (simp add: srv_store_def srv_table_def)
  have new: "am \<notin> set (map fst qs)" using w2(4) busy(1) by auto
  then have mine: "set (map fst qs) \<subseteq> set (busy_of (aFBSQGaMsg ?w4))"
    using w2(15) aSGARelease_lists [of "aFBSQGaMsg w2" am] unfolding w4 by auto
  from new have msg: "\<forall>q \<in> set qs. key_msg ?w4 ac q" using w2(6) unfolding w4 by (auto simp: key_msg_def)
  have cs: "conns ?w4 = (conns w)(ac \<mapsto> counted (length ks) True c)"
    unfolding w4 using w2(8) by (simp add: counted_def)
  have que: "\<forall>i < 2. queue_of ?w4 i = queue_of w i @ keys_of i qs"
    using w2(10) unfolding w4 by (simp add: queue_of_def)
  have dis: "set (map fst qs) \<inter> set (busy_of (aFBSQGaMsg w)) = {}" using w2(4) by simp
  have old: "\<forall>p \<in> set (busy_of (aFBSQGaMsg w)) - {am}. msgs ?w4 p = msgs w p \<and> p \<in> set (busy_of (aFBSQGaMsg ?w4))"
    using w2(5,9) aSGARelease_lists [of "aFBSQGaMsg w2" am] unfolding w4 by auto
  show ?thesis
    by (intro exI [of _ qs] exI [of _ ?w4] conjI run w2(2,3,16) msg ready cs que store mine dis old)
      (use w2(11,12,14) in \<open>simp_all add: w4\<close>)
qed

lemma GETS_posted:
  assumes w: "kv_ready w" and c: "conns w ac = Some c" "Busy c = 0" "Q (PendingCmdQ c) = []" and r: "read_gets c ks"
  shows "\<exists>qs w' pq. aConn_Post2KVdata ac w = Some (Inr (0, w')) \<and> map snd qs = ks \<and> distinct (map fst qs)
    \<and> (\<forall>q \<in> set qs. key_msg w' ac q) \<and> kv_ready w'
    \<and> conns w' = (conns w)(ac \<mapsto> counted (length ks) True (c\<lparr>Busy := 1, PendingCmdQ := pq\<rparr>)) \<and> Q pq = []
    \<and> (\<forall>i < 2. queue_of w' i = queue_of w i @ keys_of i qs)
    \<and> pipes w' = pipes w \<and> ahashtableptr w' = ahashtableptr w \<and> (\<forall>B. srv_store w B \<longrightarrow> srv_store w' B)
    \<and> events w' = events w \<and> set (map fst qs) \<subseteq> set (busy_of (aFBSQGaMsg w')) \<and> NULL \<notin> set (map fst qs)
    \<and> messages_kept w (set (map fst qs)) w'"
proof -
  obtain am f b where al: "aMsgAllocate w = Some (am, w\<lparr>aFBSQGaMsg := f, brk := b\<rparr>)" "am \<noteq> NULL"
    "am \<notin> set (busy_of (aFBSQGaMsg w))" "brk w \<le> b" "kv_ready (w\<lparr>aFBSQGaMsg := f, brk := b\<rparr>)"
    "insert am (set (busy_of (aFBSQGaMsg w))) \<subseteq> set (busy_of f)"
    using kv_ready_allocate [OF w] by blast
  let ?w1 = "w\<lparr>aFBSQGaMsg := f, brk := b\<rparr>"
  obtain buf where buf: "req_base (iovReq c) ! 0 = Some buf" "tl (words (cstr buf)) = ks"
    using r by (auto simp: read_gets_def)
  have t: "ctype (cmd c) = ACACHED_CMD_GETS" "req_index (iovReq c) = 0" "concPending c = 0"
    and ks: "\<forall>k \<in> set ks. good_key k" "ks \<noteq> []"
    using r by (simp_all add: read_gets_def)
  let ?a = "(aMsg_Init KVDATA ac ACACHED_CMD_GETS)\<lparr>cmdptr := Some buf\<rparr>"
  let ?w2 = "upd_msg am ?a ?w1"
  have "req_base_at c (req_at c) = Inr (Some buf)"
    using r buf(1) by (simp add: req_base_at_def req_at_def read_gets_def conn_ok_def)
  then have gm: "gets_message ac am ?w1 = Inr ?w2" using c(1) t(1) by (simp add: gets_message_def)
  obtain pq where get: "aSQget (PendingCmdQ c) = (NULL, pq)" "Q pq = []"
    using c(3) by (simp add: sharedq_defs adaptq_defs Let_def)
  let ?c3 = "c\<lparr>Busy := 1, PendingCmdQ := pq\<rparr>"
  let ?w3 = "upd_conn ac ?c3 ?w2"
  have "kv_ready ?w3" "conns ?w3 ac = Some ?c3" "ctype (cmd ?c3) = ACACHED_CMD_GETS" "concPending ?c3 = 0"
    using al(5) t by simp_all
  moreover have "msgs ?w3 am = Some ?a" "cmdptr ?a = Some buf" "am \<in> set (busy_of (aFBSQGaMsg ?w3))"
    using al(6) by simp_all
  ultimately obtain qs w' where
    w': "Post2KVdataGets ac am ?w3 = Some (Inr (0, w'))" "map snd qs = ks" "distinct (map fst qs)"
      "\<forall>q \<in> set qs. key_msg w' ac q" "kv_ready w'" "conns w' = (conns ?w3)(ac \<mapsto> counted (length ks) True ?c3)"
      "\<forall>i < 2. queue_of w' i = queue_of ?w3 i @ keys_of i qs"
      "pipes w' = pipes ?w3" "ahashtableptr w' = ahashtableptr ?w3" "\<forall>B. srv_store ?w3 B \<longrightarrow> srv_store w' B"
      "events w' = events ?w3" "set (map fst qs) \<subseteq> set (busy_of (aFBSQGaMsg w'))" "NULL \<notin> set (map fst qs)"
      "set (map fst qs) \<inter> set (busy_of (aFBSQGaMsg ?w3)) = {}"
      "\<forall>p \<in> set (busy_of (aFBSQGaMsg ?w3)) - {am}. msgs w' p = msgs ?w3 p \<and> p \<in> set (busy_of (aFBSQGaMsg w'))"
    using GETS_loop_posted [OF _ _ _ _ ks _ _ buf(2) _ al(2)] by blast
  have "start_command ac am ?w3 = Some (Inr (0, w'))"
    using w'(1) t(1) by (simp add: start_command_def aMsg_Init_def)
  then have "Post2KVdataTSQ ac am ?w2 = Some (Inr (0, w'))"
    using c(1,2) al(2) get by (simp add: Post2KVdataTSQ_def sync_bool_cas_def)
  then have run: "aConn_Post2KVdata ac w = Some (Inr (0, w'))"
    using c(1) t al(1) gm by (simp add: aConn_Post2KVdata_def Post2KVdataGetsPre_def)
  have "p \<noteq> am" if "p \<in> set (busy_of (aFBSQGaMsg w))" for p using that al(3) by auto
  then have "messages_kept w (set (map fst qs)) w'"
    using w'(14,15) al(6) by (simp add: messages_kept_def) blast
  moreover have "\<forall>B. srv_store w B \<longrightarrow> srv_store w' B"
    using w'(10) srv_store_brk [OF _ al(4), of _ f] by (simp add: srv_store_def srv_table_def)
  ultimately show ?thesis
    using run w' get(2) by (intro exI [of _ qs] exI [of _ w'] exI [of _ pq]) (simp add: queue_of_def)
qed

end
