(* ===== verification/Workers.thy ===== *)
theory Workers
  imports Frame Dispatch
begin

section \<open>The loop of a worker (threadKVdata.cpp, adaptThreadedSharedQ::aTSQgetMsg)\<close>

text \<open>
  A worker takes one message after the other from its queue, and waits when there is none. Here the other
  threads stand still meanwhile: the loop runs until it waits. The interleaving of \<open>aTSQgetMsg\<close> with other
  threads is the subject of another theory.
\<close>

text \<open>The first message that is not NULL; \<open>None\<close> when the worker has to wait.\<close>

definition aTSQgetMsg :: "adaptSharedQ \<Rightarrow> (ptr \<times> adaptSharedQ) option" where
  "aTSQgetMsg q = (let q = adaptLock q in
     case dropWhile (\<lambda>p. p = NULL) (Q q) of [] \<Rightarrow> None | p # ps \<Rightarrow> Some (p, adaptUnLock (q\<lparr>Q := ps\<rparr>)))"

partial_function (option) thrKVdata :: "bool \<Rightarrow> (int \<times> bool) list \<Rightarrow> nat \<Rightarrow> outcome list \<Rightarrow> server \<Rightarrow>
    (outcome list \<times> server) result option" where
  "thrKVdata pipe_ok sels i outs w =
     (case aTSQGKVdata w ! i of None \<Rightarrow> Some (Inl Uninitialised)
      | Some qn \<Rightarrow>
        (case aTSQgetMsg (fst qn) of None \<Rightarrow> Some (Inr (outs, w))
         | Some pq \<Rightarrow>
           (case kv_handle pipe_ok outs sels (fst pq)
               (w\<lparr>aTSQGKVdata := (aTSQGKVdata w)[i := Some (snd pq, snd qn)]\<rparr>) of
              None \<Rightarrow> None
            | Some (Inl e) \<Rightarrow> Some (Inl e)
            | Some (Inr ow) \<Rightarrow> thrKVdata pipe_ok sels i (fst ow) (snd ow))))"

subsection \<open>The handlers do not look at the queues\<close>

definition setq :: "(adaptSharedQ \<times> nat) option list \<Rightarrow> server \<Rightarrow> server" where
  "setq x w = w\<lparr>aTSQGKVdata := x\<rparr>"

lemma setq_simps [simp]:
  "msgs (setq x w) = msgs w" "conns (setq x w) = conns w" "pipes (setq x w) = pipes w" "brk (setq x w) = brk w"
  "ahashtableptr (setq x w) = ahashtableptr w" "aFBSQGaMsg (setq x w) = aFBSQGaMsg w"
  "upd_conn p c (setq x w) = setq x (upd_conn p c w)" "upd_msg p a (setq x w) = setq x (upd_msg p a w)"
  "(setq x w)\<lparr>pipes := y\<rparr> = setq x (w\<lparr>pipes := y\<rparr>)" "(setq x w)\<lparr>ahashtableptr := h\<rparr> = setq x (w\<lparr>ahashtableptr := h\<rparr>)"
  "(setq x w)\<lparr>brk := b, ahashtableptr := h\<rparr> = setq x (w\<lparr>brk := b, ahashtableptr := h\<rparr>)"
  "(setq x w)\<lparr>brk := b\<rparr> = setq x (w\<lparr>brk := b\<rparr>)" "(setq x w)\<lparr>aFBSQGaMsg := f\<rparr> = setq x (w\<lparr>aFBSQGaMsg := f\<rparr>)"
  by (simp_all add: setq_def upd_conn_def upd_msg_def)

text \<open>Two runs side by side: they end alike, with values that are related.\<close>

definition rsim :: "('a \<Rightarrow> 'b \<Rightarrow> bool) \<Rightarrow> 'a result \<Rightarrow> 'b result \<Rightarrow> bool" where
  "rsim R = rel_sum (=) R"

definition osim :: "('a \<Rightarrow> 'b \<Rightarrow> bool) \<Rightarrow> 'a result option \<Rightarrow> 'b result option \<Rightarrow> bool" where
  "osim R = rel_option (rsim R)"

lemma sim_simps [simp]: "rsim R (Inr a) (Inr b) = R a b" "rsim R (Inl e) (Inl f) = (e = f)"
    "osim R (Some r) (Some s) = rsim R r s" "osim R None None"
  by (simp_all add: rsim_def osim_def)

lemma rsim_rbind: "rsim S r s \<Longrightarrow> (\<And>a b. S a b \<Longrightarrow> rsim R (f a) (g b)) \<Longrightarrow> rsim R (rbind r f) (rbind s g)"
  by (cases r; cases s) (simp_all add: rsim_def)

lemma osim_obind: "osim S r s \<Longrightarrow> (\<And>a b. S a b \<Longrightarrow> osim R (f a) (g b)) \<Longrightarrow> osim R (obind r f) (obind s g)"
  unfolding osim_def rsim_def by (erule option.rel_cases, simp, erule rel_sum.cases) simp_all

lemma sims:
  "(\<And>a. r = Inr a \<Longrightarrow> rsim R (f a) (g a)) \<Longrightarrow> rsim R (rbind r f) (rbind r g)"
  "(\<And>a. z = Some (Inr a) \<Longrightarrow> osim R' (f' a) (g' a)) \<Longrightarrow> osim R' (obind z f') (obind z g')"
  "(b \<Longrightarrow> rsim R r1 s1) \<Longrightarrow> (\<not> b \<Longrightarrow> rsim R r2 s2) \<Longrightarrow> rsim R (if b then r1 else r2) (if b then s1 else s2)"
  "(b \<Longrightarrow> osim R' o1 p1) \<Longrightarrow> (\<not> b \<Longrightarrow> osim R' o2 p2) \<Longrightarrow> osim R' (if b then o1 else o2) (if b then p1 else p2)"
  "(\<And>u v. y = (u, v) \<Longrightarrow> rsim R (k u v) (l u v)) \<Longrightarrow> rsim R (case y of (u, v) \<Rightarrow> k u v) (case y of (u, v) \<Rightarrow> l u v)"
  "(\<And>u v. y = (u, v) \<Longrightarrow> osim R' (k' u v) (l' u v)) \<Longrightarrow> osim R' (case y of (u, v) \<Rightarrow> k' u v) (case y of (u, v) \<Rightarrow> l' u v)"
  by (cases r; simp add: rsim_def) (auto simp: osim_def rsim_def obind_def rel_option_iff split: option.splits sum.splits prod.splits)

abbreviation "on_queue x \<equiv> (\<lambda>w w'. w' = setq x w)"
abbreviation "on_queue2 x \<equiv> (\<lambda>a b. b = (fst a, setq x (snd a)))"

lemma check_pending_setq: "rsim (on_queue x) (check_pending ok ac w) (check_pending ok ac (setq x w))"
  unfolding check_pending_def Let_def by (simp only: setq_simps) (intro sims, simp_all)

lemma finish_msg_setq: "rsim (on_queue x) (finish_msg am w) (finish_msg am (setq x w))"
  unfolding finish_msg_def aMsgRelease_def by (simp only: setq_simps) (intro sims, simp_all split: prod.splits)

lemma store_block_setq: "osim (on_queue x) (store_block a w) (store_block a (setq x w))"
  unfolding store_block_def Let_def by (simp only: setq_simps) (intro sims, simp_all)

lemma gets_value_setq: "osim (on_queue2 x) (gets_value outs am w) (gets_value outs am (setq x w))"
  unfolding gets_value_def Let_def by (simp only: setq_simps) (intro sims, simp_all)

lemma gets_complete_setq: "osim (on_queue2 x) (gets_complete ok outs sels ac w) (gets_complete ok outs sels ac (setq x w))"
  unfolding gets_complete_def Let_def
  by (simp only: setq_simps) (intro sims, simp_all, (rule rsim_rbind [OF check_pending_setq], simp)+)

lemma kv_set_setq: "osim (on_queue2 x) (kv_set ok outs am w) (kv_set ok outs am (setq x w))"
proof -
  have last: "rsim (on_queue2 x)
      (rbind (check_pending ok ac v) (\<lambda>w. rbind (fetch (conns w) ac) (\<lambda>c.
        rbind (finish_msg am (upd_conn ac (snd (Revoke c)) w)) (\<lambda>w. Inr (outs, w)))))
      (rbind (check_pending ok ac (setq x v)) (\<lambda>w. rbind (fetch (conns w) ac) (\<lambda>c.
        rbind (finish_msg am (upd_conn ac (snd (Revoke c)) w)) (\<lambda>w. Inr (outs, w)))))" for ac v outs
    by (rule rsim_rbind [OF check_pending_setq], simp, rule sims(1), rule rsim_rbind [OF finish_msg_setq], simp)
  show ?thesis
    unfolding kv_set_def setq_simps
    by (rule sims(2), rule osim_obind [OF store_block_setq], simp, intro sims, simp add: last)
qed

lemma kv_gets_setq: "osim (on_queue2 x) (kv_gets ok outs sels am w) (kv_gets ok outs sels am (setq x w))"
  unfolding kv_gets_def setq_simps
  by (rule sims(2), rule osim_obind [OF gets_value_setq], simp add: split_beta,
      rule osim_obind [OF gets_complete_setq], simp add: split_beta, rule rsim_rbind [OF finish_msg_setq], simp)

lemma kv_handle_setq: "osim (on_queue2 x) (kv_handle ok outs sels am w) (kv_handle ok outs sels am (setq x w))"
  unfolding kv_handle_def setq_simps by (intro sims) (simp_all add: kv_set_setq kv_gets_setq)

lemma kv_handle_moved:
  assumes "kv_handle ok outs sels am w = Some (Inr (r, w'))"
  shows "kv_handle ok outs sels am (setq x w) = Some (Inr (r, setq x w'))"
proof -
  have "osim (on_queue2 x) (Some (Inr (r, w'))) (kv_handle ok outs sels am (setq x w))"
    using kv_handle_setq [of x ok outs sels am w] by (simp only: assms)
  then show ?thesis by (auto simp: osim_def rsim_def elim!: option.rel_cases rel_sum.cases)
qed

lemma kv_run_moved:
  "kv_run ok sels ams outs w = Some (Inr (r, w')) \<Longrightarrow> kv_run ok sels ams outs (setq x w) = Some (Inr (r, setq x w'))"
proof (induction ams arbitrary: outs w)
  case (Cons am ams)
  then obtain o1 w1 where "kv_handle ok outs sels am w = Some (Inr (o1, w1))" "kv_run ok sels ams o1 w1 = Some (Inr (r, w'))"
    by (auto simp: obind_eq_Some_Inr_iff)
  with Cons.IH kv_handle_moved show ?case by simp
qed simp

subsection \<open>The loop\<close>

lemma aTSQgetMsg_next:
  "Q q = [] \<Longrightarrow> aTSQgetMsg q = None"
  "Q q = p # ps \<Longrightarrow> p \<noteq> NULL \<Longrightarrow> \<exists>q'. aTSQgetMsg q = Some (p, q') \<and> Q q' = ps"
  by (simp_all add: aTSQgetMsg_def sharedq_defs Let_def)

lemma kv_handle_queues:
  "kv_handle ok outs sels am w = Some (Inr (r, w')) \<Longrightarrow> aTSQGKVdata w' = aTSQGKVdata w"
proof -
  assume run: "kv_handle ok outs sels am w = Some (Inr (r, w'))"
  then obtain a where "msgs w am = Some a" by (auto simp: kv_handle_def obind_eq_Some_Inr_iff dest: fetchD)
  from opostD [OF kv_handle_frame [OF this] run] show ?thesis by (simp add: worker_frame_def untouched_def)
qed

text \<open>
  A worker that is alone handles the messages of its queue in their order, and waits when the queue is
  empty: the loop is \<open>kv_run\<close> on the messages.
\<close>

lemma thrKVdata_run:
  assumes "kv_run ok sels (Q q) outs w = Some (Inr (r, w'))" "aTSQGKVdata w ! i = Some (q, n)"
    and "i < length (aTSQGKVdata w)" "NULL \<notin> set (Q q)"
  shows "\<exists>q'. Q q' = [] \<and> thrKVdata ok sels i outs w = Some (Inr (r, setq ((aTSQGKVdata w)[i := Some (q', n)]) w'))"
  using assms
proof (induction "Q q" arbitrary: q outs w w')
  case Nil
  then have "setq ((aTSQGKVdata w)[i := Some (q, n)]) w = w" using list_update_id [of "aTSQGKVdata w" i] by (simp add: setq_def)
  with Nil show ?case
    by (intro exI [of _ q]) (simp add: thrKVdata.simps aTSQgetMsg_next(1))
next
  case (Cons am ams)
  let ?L = "aTSQGKVdata w"
  have q: "Q q = am # ams" using Cons.hyps(2) by simp
  then have "am \<noteq> NULL" using Cons.prems(4) by auto
  with q obtain q1 where q1: "aTSQgetMsg q = Some (am, q1)" "Q q1 = ams" using aTSQgetMsg_next(2) by blast
  obtain o1 w1 where w1: "kv_handle ok outs sels am w = Some (Inr (o1, w1))" "kv_run ok sels ams o1 w1 = Some (Inr (r, w'))"
    using Cons.prems(1) unfolding q by (auto simp: obind_eq_Some_Inr_iff)
  let ?L1 = "?L[i := Some (q1, n)]"
  have step: "thrKVdata ok sels i outs w = thrKVdata ok sels i o1 (setq ?L1 w1)"
    using Cons.prems(2) q1(1) kv_handle_moved [OF w1(1), of ?L1] by (subst thrKVdata.simps) (simp add: setq_def)
  have "\<exists>q'. Q q' = [] \<and> thrKVdata ok sels i o1 (setq ?L1 w1)
      = Some (Inr (r, setq ((aTSQGKVdata (setq ?L1 w1))[i := Some (q', n)]) (setq ?L1 w')))"
  proof (rule Cons.hyps(1))
    show "kv_run ok sels (Q q1) o1 (setq ?L1 w1) = Some (Inr (r, setq ?L1 w'))"
      unfolding q1(2) by (rule kv_run_moved [OF w1(2)])
  qed (use q1 q Cons.prems in \<open>simp_all add: setq_def\<close>)
  then show ?case unfolding step by (simp add: setq_def)
qed

text \<open>
  What a worker does before its loop: \<open>sig\<close> is the answer of \<open>sigignore\<close>; the loop starts whether or not the
  affinity could be set.
\<close>

definition thrKVdata_start :: "int \<Rightarrow> (nat set \<Rightarrow> int) \<Rightarrow> nat \<Rightarrow> int result" where
  "thrKVdata_start sig setaffinity threadIndex =
     (if sig = - 1 then Inl (Exits 1) else Inr (Thread_SetAffinity setaffinity (of_nat (threadIndex mod 2))))"

text \<open>One turn of the loop: the next message, when there is one.\<close>

definition worker_turn :: "bool \<Rightarrow> (int \<times> bool) list \<Rightarrow> nat \<Rightarrow> outcome list \<Rightarrow> server \<Rightarrow> (outcome list \<times> server) result option" where
  "worker_turn pipe_ok sels i outs w =
     (case aTSQGKVdata w ! i of None \<Rightarrow> Some (Inl Uninitialised)
      | Some (q, n) \<Rightarrow>
        (case aTSQgetMsg q of None \<Rightarrow> Some (Inr (outs, w))
         | Some (am, q) \<Rightarrow> kv_handle pipe_ok outs sels am (w\<lparr>aTSQGKVdata := (aTSQGKVdata w)[i := Some (q, n)]\<rparr>)))"

lemma thrKVdata_turns:
  "aTSQGKVdata w ! i = Some (q, n) \<Longrightarrow> aTSQgetMsg q \<noteq> None \<Longrightarrow>
    thrKVdata ok sels i outs w = obind (worker_turn ok sels i outs w) (\<lambda>(outs, w). thrKVdata ok sels i outs w)"
  by (subst thrKVdata.simps) (auto simp: worker_turn_def obind_def split: option.split sum.split)

lemma worker_turn_takes:
  assumes "aTSQGKVdata w ! i = Some (q, n)" "Q q = am # ams" "am \<noteq> NULL"
    and "kv_handle ok outs sels am w = Some (Inr (r, w'))"
  shows "\<exists>q'. Q q' = ams \<and> worker_turn ok sels i outs w = Some (Inr (r, setq ((aTSQGKVdata w)[i := Some (q', n)]) w'))"
proof -
  obtain q' where q': "aTSQgetMsg q = Some (am, q')" "Q q' = ams" using aTSQgetMsg_next(2) [OF assms(2,3)] by blast
  then show ?thesis
    using assms(1) kv_handle_moved [OF assms(4), of "(aTSQGKVdata w)[i := Some (q', n)]"]
    by (auto simp: worker_turn_def setq_def)
qed

lemma worker_turn_waits:
  "aTSQGKVdata w ! i = Some (q, n) \<Longrightarrow> Q q = [] \<Longrightarrow> worker_turn ok sels i outs w = Some (Inr (outs, w))"
  by (simp add: worker_turn_def aTSQgetMsg_next(1))

subsection \<open>Properties\<close>


lemma demo_handled: "\<exists>w'. kv_handle True (Sent 8 # outs) sels 6 demo = Some (Inr (outs, w'))"
  using set_handled [OF demo_facts(1,5,9,7,3,10) busy_conn_replying [of Map.empty] demo_store] by blast


text \<open>
  C16: the loop of a worker serves its queue: when the handler ends for the messages of the queue, one after
  the other, the loop takes just these messages, with the same effects in the same order, and then waits at
  an empty queue; that the queue shrinks meanwhile makes no difference to the handlers.
\<close>
theorem worker_loop_serves_queue:
  assumes "aTSQGKVdata w ! i = Some (q, n)" "i < length (aTSQGKVdata w)" "NULL \<notin> set (Q q)"
    and "kv_run ok sels (Q q) outs w = Some (Inr (r, w'))"
  shows "\<exists>q'. Q q' = []
    \<and> thrKVdata ok sels i outs w = Some (Inr (r, w'\<lparr>aTSQGKVdata := (aTSQGKVdata w)[i := Some (q', n)]\<rparr>))"
  using thrKVdata_run [OF assms(4,1-3)] by (simp add: setq_def)

lemma worker_loop_serves_queue_witness:
  defines "q \<equiv> (adaptSharedQ_new 404)\<lparr>Q := [6]\<rparr>"
  shows "\<exists>w'. thrKVdata True [] 0 [Sent 8] (demo\<lparr>aTSQGKVdata := [Some (q, 1)]\<rparr>) = Some (Inr ([], w'))"
proof -
  obtain w1 where "kv_handle True [Sent 8] [] 6 demo = Some (Inr ([], w1))" using demo_handled by blast
  from kv_handle_moved [OF this, of "[Some (q, 1)]"]
  have "kv_run True [] (Q q) [Sent 8] (demo\<lparr>aTSQGKVdata := [Some (q, 1)]\<rparr>) = Some (Inr ([], setq [Some (q, 1)] w1))"
    by (simp add: q_def setq_def)
  from worker_loop_serves_queue [OF _ _ _ this, of 0 1] show ?thesis by (auto simp: q_def)
qed

end
