(* ===== verification/Reuse.thy ===== *)
theory Reuse
  imports Workers
begin

section \<open>Connections that are closed too early (threadComm.cpp)\<close>

text \<open>
  \<open>closeConnection\<close> gives the connection back to the pool whether or not messages of it are still on their
  way: neither its reference count nor its busy flag is looked at. Here is what the next client then sees.
\<close>

text \<open>The connection after \<open>closeConnection\<close>, and after the next client has taken it.\<close>

definition reused :: "ptr \<Rightarrow> aEvent \<Rightarrow> int \<Rightarrow> aConn \<Rightarrow> aConn" where
  "reused ev e fd c = (aConn_Init (snd (Revoke ((aConn_Reset c)\<lparr>commRead_wptr := NULL, ev_loop := NULL\<rparr>))) 402 fd)
     \<lparr>aTcommptr := ev_comm e, commRead_wptr := ev, ev_loop := ev_base e\<rparr>"

lemma reused_facts:
  "Busy (reused ev e fd c) = Busy c" "cSockFd (reused ev e fd c) = fd" "wire (reused ev e fd c) = wire c"
  "replying m c t D \<Longrightarrow> replying m (reused ev e fd c) t D"
proof -
  show "Busy (reused ev e fd c) = Busy c" "cSockFd (reused ev e fd c) = fd" "wire (reused ev e fd c) = wire c"
    by (simp_all add: reused_def aConn_Init_def aConn_Reset_def Revoke_def atomic_defs)
  show "replying m (reused ev e fd c) t D" if "replying m c t D"
    using that by (simp add: replying_def conn_ok_def reused_def aConn_Init_def aConn_Reset_def Revoke_def atomic_defs)
qed

lemma closed_and_reused:
  assumes ev: "events w ev = Some e" "ev_aC e = ac" "ac \<noteq> NULL" and c: "conns w ac = Some c"
    and free: "free_of (aFBSQGaConn w) = []"
  shows "\<exists>w1 w2. closeConnection fd ev w = Inr (0, w1) \<and> new_fd e' newfd w1 = Inr w2
    \<and> conns w2 = (conns w)(ac \<mapsto> reused (brk w) e' newfd c) \<and> msgs w2 = msgs w \<and> ahashtableptr w2 = ahashtableptr w
    \<and> brk w2 = Suc (brk w)"
proof -
  let ?c = "snd (Revoke ((aConn_Reset c)\<lparr>commRead_wptr := NULL, ev_loop := NULL\<rparr>))"
  let ?f = "snd (aSGARelease (aFBSQGaConn w) ac)"
  let ?w1 = "w\<lparr>aFBSQGaConn := ?f, conns := (conns w)(ac \<mapsto> ?c), events := (events w)(ev := None),
      watched := watched w - {ev}, closed := fd # closed w\<rparr>"
  have close: "closeConnection fd ev w = Inr (0, ?w1)"
    using ev c by (simp add: closeConnection_def Let_def upd_conn_def aConnRelease_def split: prod.splits)
  have "free_of (aFBSQGaConn ?w1) = [ac]" using aSGARelease_lists [of "aFBSQGaConn w" ac] free by simp
  note al = aConnAllocate_cons [OF this]
  have "new_fd e' newfd ?w1 = Inr (let w = snd (aConnAllocate ?w1) in
      w\<lparr>conns := (conns w)(ac \<mapsto> reused (brk w) e' newfd c),
        events := (events w)(brk w \<mapsto> \<lparr>ev_base = ev_base e', ev_comm = ev_comm e', ev_aC = ac\<rparr>),
        brk := Suc (brk w), watched := insert (brk w) (watched w)\<rparr>)"
    unfolding new_fd_def al by (simp add: upd_conn_def reused_def Let_def)
  then have "\<exists>w2. new_fd e' newfd ?w1 = Inr w2 \<and> conns w2 = (conns w)(ac \<mapsto> reused (brk w) e' newfd c)
      \<and> msgs w2 = msgs w \<and> ahashtableptr w2 = ahashtableptr w \<and> brk w2 = Suc (brk w)"
    unfolding al by simp
  with close show ?thesis by blast
qed

text \<open>
  C32: when a client closes its socket while a SET of it is on its way, and no other connection is free, the
  next client is given the same connection object, and the reply to the first client's SET is sent to the
  second client.
\<close>
theorem reply_goes_to_next_client:
  assumes a: "msgs w am = Some a" "set_msg a key val" "clean key" "am_aC a = ac"
    and c: "conns w ac = Some c" "Busy c = 1" "replying m c 0 []" and store: "srv_store w B"
    and ev: "events w ev = Some e" "ev_aC e = ac" "ac \<noteq> NULL" and free: "free_of (aFBSQGaConn w) = []"
  shows "\<exists>w1 w2 w3 d. closeConnection fd ev w = Inr (0, w1) \<and> new_fd e' newfd w1 = Inr w2
    \<and> kv_handle True (Sent 8 # outs) sels am w2 = Some (Inr (outs, w3))
    \<and> conns w3 ac = Some d \<and> cSockFd d = newfd \<and> wire d = wire c @ ''STORED'' @ [CR, LF]"
proof -
  let ?c = "reused (brk w) e' newfd c"
  obtain w1 w2 where w: "closeConnection fd ev w = Inr (0, w1)" "new_fd e' newfd w1 = Inr w2"
    "conns w2 = (conns w)(ac \<mapsto> ?c)" "msgs w2 = msgs w" "ahashtableptr w2 = ahashtableptr w" "brk w2 = Suc (brk w)"
    using closed_and_reused [OF ev c(1) free] by blast
  have s: "srv_store w2 B" by (rule srv_store_grows [OF store]) (simp_all add: w)
  have c2: "conns w2 ac = Some ?c" using w(3) by simp
  have m2: "msgs w2 am = Some a" using a(1) w(4) by simp
  have b: "Busy ?c = 1" using c(2) by (simp add: reused_facts)
  obtain w3 d where w3: "kv_handle True (Sent 8 # outs) sels am w2 = Some (Inr (outs, w3))" "conns w3 = (conns w2)(ac \<mapsto> d)"
    "wire d = wire ?c @ STORED"
    using set_handled [OF m2 a(2-4) c2 b reused_facts(4) [OF c(3)] s, of outs sels] by blast
  from opostD [OF kv_handle_frame [OF m2] w3(1)] have "replied ?c d"
    using a(4) c2 w3(2) by (auto simp: worker_frame_def)
  then have "cSockFd d = cSockFd ?c" by (simp add: replied_def receiver_half_def)
  then have "cSockFd d = newfd" "wire d = wire c @ ''STORED'' @ [CR, LF]"
    using w3(3) by (simp_all add: reused_facts STORED_def)
  moreover have "conns w3 ac = Some d" using w3(2) by simp
  ultimately show ?thesis using w(1,2) w3(1) by blast
qed

lemma reply_goes_to_next_client_witness:
  defines "w \<equiv> demo\<lparr>events := [3 \<mapsto> \<lparr>ev_base = 1, ev_comm = 2, ev_aC = 8\<rparr>]\<rparr>"
  shows "\<exists>w1 w2 w3 d. closeConnection 7 3 w = Inr (0, w1) \<and> new_fd \<lparr>ev_base = 1, ev_comm = 2, ev_aC = NULL\<rparr> 9 w1 = Inr w2
    \<and> kv_handle True [Sent 8] [] 6 w2 = Some (Inr ([], w3)) \<and> conns w3 8 = Some d \<and> cSockFd d = 9
    \<and> wire d = ''STORED'' @ [CR, LF]"
proof -
  have s: "srv_store w (\<lambda>_. [])" by (rule srv_store_grows [OF demo_store]) (simp_all add: w_def)
  have f: "free_of (aFBSQGaConn w) = []"
    by (simp add: w_def demo_def sga_settings_def Let_def adaptFBSharedQ_new_def adaptSharedQ_new_def)
  show ?thesis
    using reply_goes_to_next_client [of w 6 set_ab "''ab''" "''x''" 8 busy_conn Map.empty, OF _ demo_facts(5,9,7) _ demo_facts(10)
        busy_conn_replying s _ _ _ f, of 3 "\<lparr>ev_base = 1, ev_comm = 2, ev_aC = 8\<rparr>" 7 "\<lparr>ev_base = 1, ev_comm = 2, ev_aC = NULL\<rparr>" 9 "[]" "[]"]
    by (simp add: w_def demo_facts)
qed

end
