(* ===== verification/Commands.thy ===== *)
theory Commands
  imports Dispatch
begin

section \<open>Commands of a connection\<close>

text \<open>
  A command from the connection that has read it to the reply, over both the comm thread that posts it and
  the worker that serves it; the order of the commands of one connection, and what goes wrong with it.
\<close>

subsection \<open>A command alone\<close>

text \<open>
  C5: a SET that was read whole, on an idle connection and with nothing else in the queue of its worker:
  the comm thread posts one message with the key, its hash and the value to the worker of the hash,
  and the worker serves it. The block is stored under its key, the client is sent \<open>STORED\<close>, and the
  connection is idle again.
\<close>

theorem SET_command_served:
  assumes "kv_ready w" "srv_store w B" "conns w ac = Some c" "Busy c = 0" "Q (PendingCmdQ c) = []"
    and "read_set c key val" "replying m c 0 []" "queue_of w (worker_of (key_hash key)) = []"
  shows "\<exists>w1 w2 c'. aConn_Post2KVdata ac w = Some (Inr (0, w1))
    \<and> kv_run True sels (queue_of w1 (worker_of (key_hash key))) (Sent 8 # outs) w1 = Some (Inr (outs, w2))
    \<and> srv_store w2 (B(bucket_of (ahashtableptr w) (key_hash key) :=
        item_put (brk w1, key, val) (B (bucket_of (ahashtableptr w) (key_hash key)))))
    \<and> conns w2 ac = Some c' \<and> wire c' = wire c @ ''STORED'' @ [CR, LF] \<and> Busy c' = 0 \<and> replying m c' 0 []"
proof -
  obtain am w1 a c1 where w1: "aConn_Post2KVdata ac w = Some (Inr (0, w1))" "srv_store w1 B"
    "msgs w1 am = Some a" "set_msg a key val" "am_aC a = ac" "hdr_hashval (am_hdr a) = key_hash key"
    "conns w1 = (conns w)(ac \<mapsto> c1)" "posted_conn c c1"
    "queue_of w1 (worker_of (key_hash key)) = queue_of w (worker_of (key_hash key)) @ [am]"
    "ahashtableptr w1 = ahashtableptr w"
    using SET_posted [OF assms(1-6)] by blast
  have c1: "conns w1 ac = Some c1" "Busy c1 = 1" "wire c1 = wire c" "replying m c1 0 []"
    using w1(7,8) assms(7) by (auto simp: posted_conn_def replying_def)
  have key: "clean key" and b: "bucket_at w1 a = bucket_of (ahashtableptr w) (key_hash key)"
    using assms(6) w1(6,10) by (simp_all add: read_set_def bucket_at_def)
  obtain w2 c2 where "kv_handle True (Sent 8 # outs) sels am w1 = Some (Inr (outs, w2))"
    "srv_store w2 (B(bucket_at w1 a := item_put (brk w1, key, val) (B (bucket_at w1 a))))"
    "conns w2 = (conns w1)(ac \<mapsto> c2)" "wire c2 = wire c1 @ STORED" "Busy c2 = 0" "replying m c2 0 []"
    using set_handled [OF w1(3,4) key w1(5) c1(1,2,4) w1(2), of outs sels] by blast
  then show ?thesis
    using w1(1,9) assms(8) c1(3) by (intro exI [of _ w1] exI [of _ w2] exI [of _ c2]) (simp add: b STORED_def)
qed

text \<open>
  A server for two workers, with a connection that has read a SET of the key \<open>ab\<close> and one that has
  read a GET of it.
\<close>

definition set_client :: aConn where
  "set_client = fresh_conn\<lparr>cmd := \<lparr>ctype = ACACHED_CMD_SET, cmd_key = ''ab'' @ replicate 254 NUL, keylen = 2,
      cmd_flags = 0, exptime = 0, datalen = 1\<rparr>,
    iovReq := (iovReq fresh_conn)\<lparr>req_base := (replicate REQ_SIZE None)[1 := Some (''x'' @ [CR, LF])],
      req_desc := (replicate REQ_SIZE {})[0 := {REQ_HDR}], req_index := 1, req_indexHdr := 0\<rparr>\<rparr>"

definition get_conn :: aConn where
  "get_conn = fresh_conn\<lparr>cmd := (cmd fresh_conn)\<lparr>ctype := ACACHED_CMD_GETS\<rparr>,
    iovReq := (iovReq fresh_conn)\<lparr>req_base := (replicate REQ_SIZE None)[0 := Some (''get ab'' @ [NUL])]\<rparr>\<rparr>"

definition two_workers :: server where
  "two_workers = (sga_settings 0 2)\<lparr>aTSQGKVdata := replicate 2 (Some (adaptSharedQ_new 404, 1)),
     aFBSQGaMsg := (adaptFBSharedQ_new 1001 301)\<lparr>FreeSQ := (adaptSharedQ_new 0)\<lparr>Q := [20, 21, 22]\<rparr>\<rparr>,
     ahashtableptr := ahashtable_new 4 2, brk := 100, conns := [8 \<mapsto> set_client, 9 \<mapsto> get_conn]\<rparr>"

lemma fresh_conn_counts: "windexlast fresh_conn = 0" "writingflag fresh_conn = 0" "concPending fresh_conn = 0"
    "reqCount fresh_conn = 0" "replyCount fresh_conn = 0"
  by (simp_all add: fresh_conn_def aConn_new_def aConn_Reset_def zero_conn_def Let_def)

lemma set_client_facts: "read_set set_client ''ab'' ''x''" "replying m set_client 0 []" "Busy set_client = 0"
    "Q (PendingCmdQ set_client) = []" "wire set_client = []"
  using fresh_conn_ok
  by (simp_all add: read_set_def headers_ok_def set_client_def conn_ok_def clean_def req_at_def fresh_conn_simps
      replying_def settled_def fresh_conn_counts adaptSharedQ_new_def)

lemma get_conn_facts: "read_gets get_conn [''ab'']" "replying m get_conn 0 []" "Busy get_conn = 0"
    "Q (PendingCmdQ get_conn) = []" "wire get_conn = []" "reqCount get_conn = 0" "replyCount get_conn = 0"
proof -
  have "words (cstr (''get ab'' @ [NUL])) = [''get'', ''ab'']" by code_simp
  then show "read_gets get_conn [''ab'']"
    using fresh_conn_ok
    by (simp add: read_gets_def get_conn_def conn_ok_def fresh_conn_simps fresh_conn_counts good_key_def clean_def)
qed (use fresh_conn_ok in \<open>simp_all add: get_conn_def conn_ok_def fresh_conn_simps replying_def settled_def
      fresh_conn_counts adaptSharedQ_new_def\<close>)

lemma two_workers_facts: "kv_ready two_workers" "srv_store two_workers (\<lambda>_. [])"
    "conns two_workers 8 = Some set_client" "conns two_workers 9 = Some get_conn" "i < 2 \<Longrightarrow> queue_of two_workers i = []"
proof -
  show "kv_ready two_workers"
    by (simp add: kv_ready_def two_workers_def sga_settings_def Let_def msg_pool_ok_def pool_ok_def
        adaptFBSharedQ_new_def adaptSharedQ_new_def numeral_2_eq_2)
  have "table_rel (ahashtable_new 4 2) (\<lambda>_. [])"
    using new_rel [where n = 4 and r = 2 and m = Map.empty] by (simp add: ahashtable_new_def Let_def)
  then have "srv_table two_workers (\<lambda>_. [])" by (simp add: srv_table_def two_workers_def)
  then show "srv_store two_workers (\<lambda>_. [])" unfolding srv_store_def by (intro exI [of _ "\<lambda>_. []"]) simp
  show "conns two_workers 8 = Some set_client" "conns two_workers 9 = Some get_conn"
    by (simp_all add: two_workers_def)
  show "i < 2 \<Longrightarrow> queue_of two_workers i = []"
    by (auto simp: queue_of_def two_workers_def less_2_cases_iff adaptSharedQ_new_def)
qed

lemma SET_command_served_witness:
  "\<exists>w1 w2 c'. aConn_Post2KVdata 8 two_workers = Some (Inr (0, w1))
    \<and> kv_run True [] (queue_of w1 (worker_of (key_hash ''ab''))) [Sent 8] w1 = Some (Inr ([], w2))
    \<and> conns w2 8 = Some c' \<and> wire c' = ''STORED'' @ [CR, LF] \<and> Busy c' = 0"
  using SET_command_served [OF two_workers_facts(1-3) set_client_facts(3,4,1) set_client_facts(2) [of Map.empty]
      two_workers_facts(5) [OF worker_of_less], of "[]" "[]"]
  by (auto simp: set_client_facts)

text \<open>
  C6: a GET that was read whole, on an idle connection, all of whose keys have the same worker, with
  nothing else in its queue: each key becomes a message, and the client is sent the lines and values of
  the keys that are stored, in the order it asked for them, and one \<open>END\<close>.
\<close>

theorem GET_command_served:
  assumes "kv_ready w" "srv_store w B" "conns w ac = Some c" "Busy c = 0" "Q (PendingCmdQ c) = []"
    and "read_gets c ks" "replying m c 0 []" "reqCount c = 0" "replyCount c = 0" "length ks < 500"
    and "\<forall>k \<in> set ks. worker_of (key_hash k) = i" "i < 2" "queue_of w i = []"
    and "length (concat (map (\<lambda>k. answer (B (bucket_of (ahashtableptr w) (key_hash k))) k) ks)) \<le> 126 * 1024"
  shows "\<exists>w1 w2 c' n. aConn_Post2KVdata ac w = Some (Inr (0, w1))
    \<and> kv_run True sels (queue_of w1 i) (Sent n # outs) w1 = Some (Inr (outs, w2)) \<and> srv_store w2 B
    \<and> conns w2 ac = Some c' \<and> Busy c' = 0 \<and> replying m c' 0 [] \<and> wire c' = wire c
        @ concat (map (\<lambda>k. answer (B (bucket_of (ahashtableptr w) (key_hash k))) k) ks) @ ''END'' @ [CR, LF]"
proof -
  let ?b = "\<lambda>k. bucket_of (ahashtableptr w) (key_hash k)"
  obtain qs w1 pq where w1: "aConn_Post2KVdata ac w = Some (Inr (0, w1))" "map snd qs = ks" "distinct (map fst qs)"
    "\<forall>q \<in> set qs. key_msg w1 ac q" "conns w1 = (conns w)(ac \<mapsto> counted (length ks) True (c\<lparr>Busy := 1, PendingCmdQ := pq\<rparr>))"
    "\<forall>i < 2. queue_of w1 i = queue_of w i @ keys_of i qs" "ahashtableptr w1 = ahashtableptr w" "srv_store w1 B"
    using GETS_posted [OF assms(1,3-6)] assms(2) by blast
  let ?c = "counted (length ks) True (c\<lparr>Busy := 1, PendingCmdQ := pq\<rparr>)"
  let ?qs = "map (\<lambda>q. (fst q, snd q, ?b (snd q))) qs"
  have "\<forall>q \<in> set qs. worker_of (key_hash (snd q)) = i" using assms(11) unfolding w1(2) [symmetric] by simp
  then have "keys_of i qs = map fst qs" by (simp add: keys_of_def)
  then have q: "queue_of w1 i = map fst ?qs" using w1(6) assms(12,13) by (simp add: comp_def)
  have ans: "answers B ?qs = concat (map (\<lambda>k. answer (B (?b k)) k) ks)"
    unfolding w1(2) [symmetric] by (simp add: answers_def comp_def)
  have "ks \<noteq> []" using assms(6) by (simp add: read_gets_def)
  then have "?qs \<noteq> []" using w1(2) by auto
  moreover have "distinct (map fst ?qs)" using w1(3) by (simp add: comp_def)
  moreover have "\<forall>q \<in> set ?qs. asks w1 ac q"
    using w1(4,7) by (auto simp: key_msg_def asks_def bucket_at_def)
  moreover have "replying m ?c 0 []" using assms(7) by (simp add: counted_def)
  moreover have n: "length ?qs = length ks" using w1(2) by auto
  moreover have "length (answers B ?qs) \<le> 126 * 1024" using assms(14) by (simp only: ans)
  moreover have "concPending ?c = 0" "Busy ?c = 1" "reqCount ?c = replyCount ?c + of_nat (length ?qs)"
    using assms(8,9) n by (simp_all add: counted_def)
  ultimately obtain w2 c2 where w2:
    "kv_run True sels (map fst ?qs) (Sent (length (answers B ?qs) + 5) # outs) w1 = Some (Inr (outs, w2))"
    "srv_store w2 B" "conns w2 ac = Some c2" "wire c2 = wire ?c @ answers B ?qs @ ''END'' @ [CR, LF]"
    "replying m c2 0 []" "Busy c2 = 0"
    using GET_served [of ?qs w1 ac B ?c m sels outs] w1(5,8) assms(10) by (auto simp del: length_map)
  have "kv_run True sels (queue_of w1 i) (Sent (length (answers B ?qs) + 5) # outs) w1 = Some (Inr (outs, w2))"
    using w2(1) by (simp only: q)
  moreover have "wire c2 = wire c @ concat (map (\<lambda>k. answer (B (?b k)) k) ks) @ ''END'' @ [CR, LF]"
    using w2(4) unfolding ans by (simp add: counted_def)
  ultimately show ?thesis using w1(1) w2(2,3,5,6) by blast
qed

lemma GET_command_served_witness:
  "\<exists>w1 w2 c' n. aConn_Post2KVdata 9 two_workers = Some (Inr (0, w1))
    \<and> kv_run True [] (queue_of w1 (worker_of (key_hash ''ab''))) [Sent n] w1 = Some (Inr ([], w2))
    \<and> conns w2 9 = Some c' \<and> wire c' = ''END'' @ [CR, LF]"
proof -
  have e: "concat (map (\<lambda>k. answer ((\<lambda>_. []) (bucket_of (ahashtableptr two_workers) (key_hash k))) k) [''ab'']) = []"
    by (simp add: answer_def)
  show ?thesis
    using GET_command_served [OF two_workers_facts(1,2,4) get_conn_facts(3,4,1) get_conn_facts(2) [of Map.empty]
        get_conn_facts(6,7) _ _ worker_of_less two_workers_facts(5) [OF worker_of_less], of "key_hash ''ab''" "[]" "[]"]
    unfolding e by (auto simp: get_conn_facts)
qed

subsection \<open>One command at a time\<close>




definition waiting_conn :: aConn where
  "waiting_conn = get_conn\<lparr>PendingCmdQ := (adaptSharedQ_new 0)\<lparr>Q := [6]\<rparr>\<rparr>"


text \<open>
  The signal that a command ended, when it comes to a connection on which the next command has been
  started meanwhile, stops the server: the log statement of the busy branch reads the command of a
  message that is not there.
\<close>

theorem late_signal_crashes:
  assumes "conns w ac = Some c" "Busy c \<noteq> 0" "msgs w NULL = None"
  shows "Post2KVdataTSQ ac NULL w = Some (Inl NullDeref)"
  using assms by (simp add: Post2KVdataTSQ_def sync_bool_cas_def fetch_def)

lemma late_signal_crashes_witness: "Post2KVdataTSQ 8 NULL demo = Some (Inl NullDeref)"
  by (rule late_signal_crashes [OF demo_facts(3)]) (simp_all add: demo_facts demo_def)

end
