(* ===== verification/Receive.thy ===== *)
theory Receive
  imports Commands Workers
begin

section \<open>A command from the socket to the queues of the workers\<close>

text \<open>
  One run of \<open>commRead_cb\<close> on an idle connection to which a whole command has been sent: the command is
  read, posted, and the connection is idle again; the read behind it finds nothing.
\<close>

subsection \<open>The line of a GET\<close>

definition get_line :: "string list \<Rightarrow> string" where
  "get_line ks = ''get'' @ concat (map (\<lambda>k. SP # k) ks)"

lemma words_keys:
  "\<forall>k \<in> set ks. k \<noteq> [] \<and> SP \<notin> set k \<Longrightarrow> words (concat (map (\<lambda>k. SP # k) ks)) = ks"
proof (induction ks)
  case (Cons k ks)
  show ?case
  proof (cases ks)
    case Nil
    then show ?thesis using Cons.prems by (simp add: words_blank words_last)
  next
    case (Cons j js)
    have "words (k @ SP # j @ concat (map (\<lambda>k. SP # k) js)) = k # words (j @ concat (map (\<lambda>k. SP # k) js))"
      using Cons.prems by (intro words_word) simp_all
    then show ?thesis using Cons.IH Cons.prems Cons by (simp add: words_blank)
  qed
qed (simp add: words_Nil)

lemma words_get_line:
  assumes "\<forall>k \<in> set ks. k \<noteq> [] \<and> SP \<notin> set k" "ks \<noteq> []"
  shows "words (get_line ks) = ''get'' # ks"
proof -
  obtain k js where ks: "ks = k # js" using assms(2) by (cases ks) auto
  have "words (''get'' @ SP # k @ concat (map (\<lambda>k. SP # k) js)) = ''get'' # words (k @ concat (map (\<lambda>k. SP # k) js))"
    by (rule words_word) simp_all
  then show ?thesis using words_keys [OF assms(1)] by (simp add: get_line_def ks words_blank)
qed

lemma get_line_chars: "c \<noteq> CHR ''g'' \<Longrightarrow> c \<noteq> CHR ''e'' \<Longrightarrow> c \<noteq> CHR ''t'' \<Longrightarrow> c \<noteq> SP \<Longrightarrow>
    c \<in> set (get_line ks) \<longleftrightarrow> (\<exists>k \<in> set ks. c \<in> set k)"
  by (auto simp: get_line_def)

lemma SetCommandType_get:
  assumes "req_buf c (req_at c) = Inr (get_line ks @ CR # rest)" "5 < req_len (iovReq c) ! req_at c" "ks \<noteq> []"
  shows "SetCommandType c = Inr (cmd_code ACACHED_CMD_GETS, c\<lparr>cmd := (cmd c)\<lparr>ctype := ACACHED_CMD_GETS\<rparr>\<rparr>)"
proof -
  obtain k js where ks: "ks = k # js" using assms(3) by (cases ks) auto
  have "skip_blanks (get_line ks @ CR # rest) n = Inr (get_line ks @ CR # rest, n)" for n
    by (simp add: get_line_def)
  moreover have "command_of (get_line ks @ CR # rest) = Inr (Some (ACACHED_CMD_GETS, cmd_code ACACHED_CMD_GETS))"
    by (simp add: command_of_def starts_def get_line_def ks)
  ultimately show ?thesis using assms(1,2) by (simp add: SetCommandType_def)
qed

text \<open>The line of a GET arrives on an idle connection.\<close>

lemma recv_gets_command:
  assumes idle: "idle c" and m: "\<And>k. length (malloc k) = k"
    and ks: "ks \<noteq> []" "\<forall>k \<in> set ks. k \<noteq> [] \<and> SP \<notin> set k \<and> CR \<notin> set k \<and> NUL \<notin> set k"
    and rd: "rd CMD_WAIT_INIT = Recv (get_line ks @ [CR, LF])" "length (get_line ks) + 2 \<le> CMD_WAIT_INIT"
  shows "\<exists>c' buf. ProcessDataRecv malloc rd sent c = Inr (int (length (get_line ks) + 2), c')
    \<and> conn_state c' = cmd_done \<and> ctype (cmd c') = ACACHED_CMD_GETS \<and> req_index (iovReq c') = 0
    \<and> dataPendingRead c' = 0 \<and> wire c' = wire c
    \<and> req_base (iovReq c') ! 0 = Some buf \<and> tl (words (cstr buf)) = ks"
proof -
  define L where "L = get_line ks"
  define rest where "rest = drop (length L + 2) (malloc CMD_WAIT_INIT)"
  have lens: "length (req_base (iovReq c)) = REQ_SIZE" "length (req_len (iovReq c)) = REQ_SIZE"
    "length (req_desc (iovReq c)) = REQ_SIZE"
    and ok: "conn_state c = cmd_wait" "req_at c = 0" "req_len (iovReq c) ! 0 = 0" "dataPendingRead c = 0"
      "req_index (iovReq c) = 0"
    using idle by (simp_all add: idle_def conn_ok_def req_at_def)
  have len: "5 < length L + 2" using ks by (cases ks) (auto simp: L_def get_line_def)
  have noCR: "CR \<notin> set L" and noNUL: "NUL \<notin> set L" using ks(2) by (simp_all add: L_def get_line_chars)
  define c1 where "c1 = set_len 0 (length L + 2) (put_buf (new_buf malloc 0 (of_nat CMD_WAIT_INIT) c) 0 (L @ CR # LF # rest))"
  have w: "write_at (malloc CMD_WAIT_INIT) 0 (L @ [CR, LF]) = Inr (L @ CR # LF # rest)"
    using rd(2) m by (simp add: write_at_def rest_def L_def)
  have "recv_cmd_wait malloc rd sent c = recv_command sent c1"
    using lens rd(1) w ok(2,3) by (simp add: recv_cmd_wait_def Let_def c1_def L_def) (simp add: upd_defs)
  then have step1: "ProcessDataRecv malloc rd sent c = recv_command sent c1" using ok by (simp add: ProcessDataRecv_def)
  have f1: "req_at c1 = 0" "req_len (iovReq c1) ! 0 = length L + 2" "req_index (iovReq c1) = 0" "dataPendingRead c1 = 0"
    "req_buf c1 0 = Inr (L @ CR # LF # rest)" "wire c1 = wire c" "length (req_base (iovReq c1)) = REQ_SIZE"
    using lens ok by (simp_all add: c1_def upd_defs req_at_def req_buf_def)
  define c2 where "c2 = c1\<lparr>cmd := (cmd c1)\<lparr>ctype := ACACHED_CMD_GETS\<rparr>\<rparr>"
  have sc: "SetCommandType c1 = Inr (cmd_code ACACHED_CMD_GETS, c2)"
    using SetCommandType_get [of c1 ks "LF # rest"] f1(1,2,5) len ks(1) by (simp add: L_def c2_def)
  have ic: "IsBufferComplete (L @ CR # LF # rest) (length L + 2) = Inr (length L + 2, L @ NUL # NUL # rest)"
    using IsBufferComplete_crlf [OF noCR] len by simp
  define c3 where "c3 = (set_desc 0 REQ_HDR (upd_req (\<lambda>q. q\<lparr>req_indexHdr := req_index q\<rparr>)
     (put_buf c2 0 (L @ NUL # NUL # rest))))\<lparr>conn_state := cmd_done\<rparr>"
  have b2: "req_buf c2 0 = Inr (L @ CR # LF # rest)" "req_len (iovReq c2) ! 0 = length L + 2"
    "ctype (cmd (set_desc i v (upd_req g (put_buf c2 j bf)))) = ACACHED_CMD_GETS"
    "req_len (iovReq (set_desc i v (upd_req (\<lambda>q. q\<lparr>req_indexHdr := h q\<rparr>) (put_buf c2 j bf)))) = req_len (iovReq c2)"
    for i v g j bf h
    using f1 by (simp_all add: c2_def req_buf_def upd_defs)
  have "recv_command sent c1 = Inr (int (length L + 2), c3)"
    using sc ic b2 f1(1) by (simp add: recv_command_def Let_def c3_def)
  moreover have "conn_state c3 = cmd_done" "ctype (cmd c3) = ACACHED_CMD_GETS" "req_index (iovReq c3) = 0"
    "dataPendingRead c3 = 0" "wire c3 = wire c" "req_base (iovReq c3) ! 0 = Some (L @ NUL # NUL # rest)"
    using f1 by (simp_all add: c3_def c2_def upd_defs)
  moreover have "cstr (L @ NUL # NUL # rest) = L" using noNUL by (rule cstr_append_NUL)
  then have "tl (words (cstr (L @ NUL # NUL # rest))) = ks"
    using words_get_line [of ks] ks by (simp add: L_def)
  ultimately show ?thesis
    using step1 by (intro exI [of _ c3] exI [of _ "L @ NUL # NUL # rest"]) (simp add: L_def)
qed

subsection \<open>A connection between commands\<close>

abbreviation (input) nothing_to_read :: "nat \<Rightarrow> recv" where
  "nothing_to_read \<equiv> (\<lambda>_. RecvFail (- 1) EAGAIN)"

text \<open>The members of the sender, for a connection with \<open>n\<close> keys to be answered.\<close>

definition sender_at :: "u32 \<Rightarrow> nat \<Rightarrow> aConn \<Rightarrow> bool" where
  "sender_at b n c \<longleftrightarrow> replying Map.empty c 0 [] \<and> Busy c = b \<and> Q (PendingCmdQ c) = [] \<and> reqCount c = of_nat n
     \<and> replyCount c = 0 \<and> concPending c = 0"

definition conn_free :: "aConn \<Rightarrow> bool" where
  "conn_free c \<longleftrightarrow> idle c \<and> sender_at 0 0 c"

text \<open>What the other threads see of the connection, and its socket, stay.\<close>

definition kept :: "aConn \<Rightarrow> aConn \<Rightarrow> bool" where
  "kept c d \<longleftrightarrow> wire d = wire c \<and> aTcommptr d = aTcommptr c"

lemma sender_halfD:
  assumes "sender_half d = sender_half c"
  shows "Busy d = Busy c" "PendingCmdQ d = PendingCmdQ c" "reqCount d = reqCount c" "replyCount d = replyCount c"
    "concPending d = concPending c" "iovReply d = iovReply c" "windexlast d = windexlast c" "writingflag d = writingflag c"
    "totalsize d = totalsize c" "aTcommptr d = aTcommptr c"
  using arg_cong [OF assms, of Busy] arg_cong [OF assms, of PendingCmdQ] arg_cong [OF assms, of reqCount]
    arg_cong [OF assms, of replyCount] arg_cong [OF assms, of concPending] arg_cong [OF assms, of iovReply]
    arg_cong [OF assms, of windexlast] arg_cong [OF assms, of writingflag] arg_cong [OF assms, of totalsize]
    arg_cong [OF assms, of aTcommptr]
  by (simp_all add: sender_half_def)

lemma received_sender:
  assumes "received c d" "sender_at b n c"
  shows "sender_at b n d" "aTcommptr d = aTcommptr c"
  using assms sender_halfD [of d c] by (simp_all add: received_def sender_at_def replying_def)

lemma sender_at_upd [simp]: "sender_at b n (c\<lparr>conn_state := x\<rparr>) = sender_at b n c"
  by (simp add: sender_at_def replying_def)

lemma sender_at_Reset: "sender_at b n c \<Longrightarrow> sender_at b n (aConn_Reset c)" "kept c (aConn_Reset c)"
  by (simp_all add: sender_at_def replying_def Reset_ok kept_def) (simp_all add: aConn_Reset_def)

lemma idle_read_nothing:
  assumes "idle c"
  shows "\<exists>d. ProcessDataRecv malloc nothing_to_read sent c = Inr (- 1, d) \<and> idle d \<and> kept c d
    \<and> (\<forall>b n. sender_at b n c \<longrightarrow> sender_at b n d) \<and> aerrtype d = AERR_TYPE_SYS"
proof -
  let ?d = "SetErrorErrno (new_buf malloc 0 (of_nat CMD_WAIT_INIT) c) EAGAIN"
  have run: "ProcessDataRecv malloc nothing_to_read sent c = Inr (- 1, ?d)"
    using assms by (simp add: ProcessDataRecv_def recv_cmd_wait_def idle_def req_at_def conn_ok_def)
  have r: "received c ?d" by (simp add: received_upd)
  moreover have "idle ?d" using assms r by (simp add: idle_def received_def) (simp add: SetErrorErrno_def upd_defs)
  moreover have "kept c ?d" by (simp add: kept_def SetErrorErrno_def upd_defs)
  moreover have "aerrtype ?d = AERR_TYPE_SYS" by (simp add: SetErrorErrno_def)
  ultimately show ?thesis using run received_sender(1) [OF r] by blast
qed

subsection \<open>The callback\<close>

text \<open>A client: its connection, free for a command, and the event that is registered for it.\<close>

definition client_at :: "server \<Rightarrow> ptr \<Rightarrow> ptr \<Rightarrow> aConn \<Rightarrow> bool" where
  "client_at w ev ac c \<longleftrightarrow> conns w ac = Some c
     \<and> (\<exists>e. events w ev = Some e \<and> ev_aC e = ac \<and> ev_comm e = aTcommptr c)"

lemma commRead_cb_starts:
  assumes "client_at w ev ac c" "conn_free c"
  shows "commRead_cb malloc rd0 rds sent errno fd ev w =
    obind (comm_loop malloc sent ac rds w) (\<lambda>r. Some (comm_finish sent errno fd ev ac r))"
  using assms by (auto simp: commRead_cb_def client_at_def conn_free_def sender_at_def)

text \<open>The last round finds nothing to read, and the callback returns.\<close>

lemma comm_loop_ends:
  assumes "conns w ac = Some c" "idle c"
  shows "\<exists>d. comm_loop malloc sent ac (nothing_to_read # rds) w = Some (Inr (- 1, upd_conn ac d w))
    \<and> comm_finish sent EAGAIN fd ev ac (- 1, upd_conn ac d w) = Inr (upd_conn ac d w)
    \<and> idle d \<and> kept c d \<and> (\<forall>b n. sender_at b n c \<longrightarrow> sender_at b n d)"
proof -
  obtain d where d: "ProcessDataRecv malloc nothing_to_read sent c = Inr (- 1, d)" "idle d" "kept c d"
    "\<forall>b n. sender_at b n c \<longrightarrow> sender_at b n d" "aerrtype d = AERR_TYPE_SYS"
    using idle_read_nothing [OF assms(2)] by blast
  have "comm_round malloc sent ac nothing_to_read w = Some (Inr (False, - 1, upd_conn ac d w))"
    using assms(1) d(1,2) by (simp add: comm_round_def idle_def)
  then show ?thesis using d by (intro exI [of _ d]) (simp add: comm_finish_def)
qed

text \<open>
  A command that was read whole is posted by \<open>command_done\<close>, which resets the connection; the callback
  then comes to its end.
\<close>

lemma comm_loop_posts:
  assumes c: "conns w ac = Some c" "ProcessDataRecv malloc rd sent c = Inr (ret, d)" "0 < ret" "conn_state d = cmd_done"
    and t: "ctype (cmd d) = ACACHED_CMD_SET \<or> ctype (cmd d) = ACACHED_CMD_GETS"
    and post: "aConn_Post2KVdata ac (upd_conn ac (d\<lparr>conn_state := cmd_wait\<rparr>) w) = Some (Inr (0, w1))"
    and d1: "conns w1 ac = Some d1" "conn_ok d1" "dataPendingRead d1 = 0" "ctype (cmd d1) = ctype (cmd d)" "kept c d1"
      "sender_at b n d1"
  shows "\<exists>e w2. obind (comm_loop malloc sent ac (rd # nothing_to_read # rds) w) (\<lambda>r. Some (comm_finish sent EAGAIN fd ev ac r))
      = Some (Inr (upd_conn ac e w1)) \<and> idle e \<and> kept c e \<and> sender_at b n e"
proof -
  let ?w2 = "upd_conn ac (aConn_Reset d1) w1"
  have "command_done ac (upd_conn ac d w) = Some (Inr (True, ?w2))"
    using t post d1(1,4) by (auto simp: command_done_def posts_def upd_conn_def)
  moreover have "dataPendingRead (aConn_Reset d1) = 0" using d1(3) by (simp add: aConn_Reset_def)
  ultimately have round: "comm_round malloc sent ac rd w = Some (Inr (True, ret, ?w2))"
    using c by (simp add: comm_round_def)
  have r: "conns ?w2 ac = Some (aConn_Reset d1)" by simp
  obtain e where e: "comm_loop malloc sent ac (nothing_to_read # rds) ?w2 = Some (Inr (- 1, upd_conn ac e ?w2))"
    "comm_finish sent EAGAIN fd ev ac (- 1, upd_conn ac e ?w2) = Inr (upd_conn ac e ?w2)" "idle e" "kept (aConn_Reset d1) e"
    "\<forall>b n. sender_at b n (aConn_Reset d1) \<longrightarrow> sender_at b n e"
    using comm_loop_ends [OF r Reset_idle [OF d1(2,3)]] by blast
  have "kept c e" using e(4) d1(5) sender_at_Reset(2) [of d1] by (simp add: kept_def)
  moreover have "upd_conn ac e ?w2 = upd_conn ac e w1" by (simp add: upd_conn_def)
  ultimately show ?thesis
    using round e sender_at_Reset(1) [OF d1(6)] by (intro exI [of _ e]) simp
qed

subsection \<open>A GET arrives\<close>

definition plain_key :: "string \<Rightarrow> bool" where
  "plain_key k \<longleftrightarrow> k \<noteq> [] \<and> length k < 256 \<and> set k \<inter> {SP, CR, NUL} = {}"

lemma plain_keyD: "plain_key k \<Longrightarrow> good_key k" "plain_key k \<Longrightarrow> k \<noteq> [] \<and> SP \<notin> set k \<and> CR \<notin> set k \<and> NUL \<notin> set k"
  by (auto simp: plain_key_def good_key_def clean_def)

lemma GET_arrives:
  assumes w: "kv_ready w" "srv_store w B" and c: "client_at w ev ac c" "conn_free c"
    and ks: "ks \<noteq> []" "\<forall>k \<in> set ks. plain_key k" "length (get_line ks) + 2 \<le> CMD_WAIT_INIT"
    and m: "\<And>k. length (malloc k) = k"
  shows "\<exists>qs w1 e. commRead_cb malloc rd0 ((\<lambda>_. Recv (get_line ks @ [CR, LF])) # nothing_to_read # rds) sent EAGAIN fd ev w = Some (Inr w1)
    \<and> map snd qs = ks \<and> distinct (map fst qs) \<and> (\<forall>q \<in> set qs. key_msg w1 ac q) \<and> kv_ready w1 \<and> srv_store w1 B
    \<and> conns w1 = (conns w)(ac \<mapsto> e) \<and> idle e \<and> kept c e \<and> sender_at 1 (length ks) e
    \<and> (\<forall>i < 2. queue_of w1 i = queue_of w i @ keys_of i qs) \<and> ahashtableptr w1 = ahashtableptr w
    \<and> events w1 = events w \<and> set (map fst qs) \<subseteq> set (busy_of (aFBSQGaMsg w1)) \<and> NULL \<notin> set (map fst qs)
    \<and> messages_kept w (set (map fst qs)) w1"
proof -
  let ?rd = "\<lambda>_. Recv (get_line ks @ [CR, LF])"
  have ac: "conns w ac = Some c" "idle c" "sender_at 0 0 c" using c by (simp_all add: client_at_def conn_free_def)
  have keys: "\<forall>k \<in> set ks. k \<noteq> [] \<and> SP \<notin> set k \<and> CR \<notin> set k \<and> NUL \<notin> set k" using ks(2) plain_keyD(2) by blast
  obtain d buf where d: "ProcessDataRecv malloc ?rd sent c = Inr (int (length (get_line ks) + 2), d)"
    "conn_state d = cmd_done" "ctype (cmd d) = ACACHED_CMD_GETS" "req_index (iovReq d) = 0" "dataPendingRead d = 0"
    "wire d = wire c" "req_base (iovReq d) ! 0 = Some buf" "tl (words (cstr buf)) = ks"
    using recv_gets_command [OF ac(2) m ks(1) keys, of ?rd sent] ks(3) by blast
  have rcv: "received c d" using rpostD [OF ProcessDataRecv_received d(1)] by simp
  have snd: "sender_at 0 0 d" "aTcommptr d = aTcommptr c" using received_sender [OF rcv ac(3)] by simp_all
  have okd: "conn_ok d" using rcv ac(2) by (simp add: received_def idle_def)
  let ?d = "d\<lparr>conn_state := cmd_wait\<rparr>" and ?w = "upd_conn ac (d\<lparr>conn_state := cmd_wait\<rparr>) w"
  have rg: "read_gets ?d ks"
    using okd d(3,4,7,8) snd(1) ks(1,2) plain_keyD(1) by (auto simp: read_gets_def sender_at_def)
  have pre: "kv_ready ?w" "conns ?w ac = Some ?d" "Busy ?d = 0" "Q (PendingCmdQ ?d) = []"
    using w(1) snd(1) by (simp_all add: sender_at_def)
  obtain qs w1 pq where w1: "aConn_Post2KVdata ac ?w = Some (Inr (0, w1))" "map snd qs = ks" "distinct (map fst qs)"
    "\<forall>q \<in> set qs. key_msg w1 ac q" "kv_ready w1"
    "conns w1 = (conns ?w)(ac \<mapsto> counted (length ks) True (?d\<lparr>Busy := 1, PendingCmdQ := pq\<rparr>))" "Q pq = []"
    "\<forall>i < 2. queue_of w1 i = queue_of ?w i @ keys_of i qs" "ahashtableptr w1 = ahashtableptr ?w"
    "\<forall>B. srv_store ?w B \<longrightarrow> srv_store w1 B" "events w1 = events ?w"
    "set (map fst qs) \<subseteq> set (busy_of (aFBSQGaMsg w1))" "NULL \<notin> set (map fst qs)" "messages_kept ?w (set (map fst qs)) w1"
    using GETS_posted [OF pre rg] by blast
  let ?d1 = "counted (length ks) True (?d\<lparr>Busy := 1, PendingCmdQ := pq\<rparr>)"
  have d1: "conns w1 ac = Some ?d1" "conn_ok ?d1" "dataPendingRead ?d1 = 0" "ctype (cmd ?d1) = ctype (cmd d)" "kept c ?d1"
    "sender_at 1 (length ks) ?d1"
    using w1(6,7) okd d(5,6) snd by (simp_all add: counted_def conn_ok_def kept_def sender_at_def replying_def)
  from comm_loop_posts [OF ac(1) d(1) _ d(2) _ w1(1) d1, of rds fd ev] d(3) obtain e where
    e: "obind (comm_loop malloc sent ac (?rd # nothing_to_read # rds) w) (\<lambda>r. Some (comm_finish sent EAGAIN fd ev ac r))
      = Some (Inr (upd_conn ac e w1))" "idle e" "kept c e" "sender_at 1 (length ks) e"
    by auto
  have "srv_store (upd_conn ac e w1) B" using w1(10) w(2) by (simp add: srv_store_def srv_table_def)
  moreover have "conns (upd_conn ac e w1) = (conns w)(ac \<mapsto> e)" using w1(6) by simp
  moreover have "\<forall>q \<in> set qs. key_msg (upd_conn ac e w1) ac q" using w1(4) by (simp add: key_msg_def)
  ultimately show ?thesis
    using e w1 by (intro exI [of _ qs] exI [of _ "upd_conn ac e w1"] exI [of _ e]) (simp add: commRead_cb_starts [OF c])
qed

subsection \<open>A SET arrives\<close>

text \<open>A SET request whole: the line, the value, and the line end behind each.\<close>

definition set_request :: "string \<Rightarrow> nat \<Rightarrow> nat \<Rightarrow> char list \<Rightarrow> char list" where
  "set_request key f e val = set_line key f e (length val) @ CR # LF # val @ [CR, LF]"

definition get_request :: "string list \<Rightarrow> char list" where
  "get_request ks = get_line ks @ [CR, LF]"

text \<open>The two calls that take a SET whose value came with its line.\<close>

lemma recv_set_whole:
  assumes idle: "idle c" and m: "\<And>k. length (malloc k) = k" and key: "plain_key key"
    and nums: "f < 2 ^ 32" "e < 2 ^ 32" "val \<noteq> []" "length (set_request key f e val) \<le> CMD_WAIT_INIT"
  shows "\<exists>c1 c2 n. ProcessDataRecv malloc (\<lambda>_. Recv (set_request key f e val)) sent c = Inr (int n, c1) \<and> 0 < n
    \<and> conn_state c1 = body_wait \<and> ProcessDataRecv malloc rd sent c1 = Inr (int (length val + 2), c2)
    \<and> conn_state c2 = cmd_done \<and> dataPendingRead c2 = 0 \<and> read_set c2 key val \<and> received c c2 \<and> wire c2 = wire c"
proof -
  let ?body = "val @ [CR, LF]" and ?n = "length val + 2"
  have k: "key \<noteq> []" "SP \<notin> set key" "CR \<notin> set key" "NUL \<notin> set key" "length key < 256" "length key \<le> 256"
    using key by (auto simp: plain_key_def)
  have len: "length val + 6 \<le> CMD_WAIT_INIT"
    using nums(4) by (simp add: set_request_def set_line_def)
  then have d: "0 < length val" "?n < 2 ^ 31" using nums(3) by simp_all
  have rd1: "(\<lambda>_. Recv (set_request key f e val)) CMD_WAIT_INIT = Recv (set_line key f e (length val) @ CR # LF # ?body)"
    by (simp add: set_request_def)
  have rd2: "length (set_line key f e (length val) @ CR # LF # ?body) \<le> CMD_WAIT_INIT"
    using nums(4) by (simp add: set_request_def)
  obtain c1 where c1: "ProcessDataRecv malloc (\<lambda>_. Recv (set_request key f e val)) sent c
      = Inr (int (length (set_line key f e (length val)) + 2), c1)"
    "body_due c1 ?n ?body" "req_at c1 = 0"
    "cmd c1 = (cmd c)\<lparr>ctype := ACACHED_CMD_SET, keylen := of_nat (length key),
        cmd_key := key @ drop (length key) (cmd_key (cmd c)),
        cmd_flags := of_nat f, exptime := of_nat e, datalen := of_nat (length val)\<rparr>"
    "REQ_HDR \<in> req_desc (iovReq c1) ! 0" "req_indexHdr (iovReq c1) = 0"
    using recv_set_command [OF idle m k(1-4,6) nums(1,2) d rd1 rd2, of sent] by blast
  have full: "length ?body = ?n" "length ?body \<le> ?n" by simp_all
  obtain c2 where c2: "ProcessDataRecv malloc rd sent c1 = Inr (int (length (?body @ [])), c2)"
    "storing c2 ?n (?body @ [])" "req_at c2 = Suc (req_at c1)" "cmd c2 = cmd c1"
    "conn_state c2 = (if length (?body @ []) < ?n then body_wait else cmd_done)"
    using body_first_read [where bs = "[]" and rd = rd, OF c1(2) m full(2)] full(1) by auto
  have wait: "conn_state c1 = body_wait" using c1(2) by (simp add: body_due_def)
  have r1: "received c c1" "wire c1 = wire c"
    using rpostD [OF ProcessDataRecv_received c1(1)] c1(4) by (simp_all add: quiet_def)
  have "recv_body_wait malloc rd c1 = Inr (int (length (?body @ [])), c2)"
    using c2(1) wait by (simp add: ProcessDataRecv_def)
  from rpostD [OF recv_body_wait_step this] have b: "body_step c1 c2" by simp
  then have r2: "received c c2" "wire c2 = wire c" "REQ_HDR \<in> req_desc (iovReq c2) ! 0" "req_indexHdr (iovReq c2) = 0"
    using r1 c1(5,6) by (auto simp: body_step_def intro: received_trans)
  have ok: "conn_ok c2" using r2(1) idle by (simp add: received_def idle_def)
  obtain buf where buf: "req_buf c2 1 = Inr buf" "length buf = ?n" "take ?n buf = ?body"
    using c2(2,3) c1(3) by (auto simp: storing_def)
  then have "buf = ?body" by simp
  then have base: "req_base (iovReq c2) ! 1 = Some ?body"
    using buf(1) by (auto simp: req_buf_def split: if_splits option.splits)
  have "read_set c2 key val"
    unfolding read_set_def headers_ok_def
    using ok r2(3,4) c2(3,4) c1(3,4) base k len by (auto simp: clean_def)
  then show ?thesis
    using c1(1) wait c2(1,2,5) r2(1,2)
    by (intro exI [of _ c1] exI [of _ c2] exI [of _ "length (set_line key f e (length val)) + 2"]) (simp add: storing_def)
qed

lemma SET_arrives:
  assumes w: "kv_ready w" "srv_store w B" and c: "client_at w ev ac c" "conn_free c" and key: "plain_key key"
    and nums: "f < 2 ^ 32" "e < 2 ^ 32" "val \<noteq> []" "length (set_request key f e val) \<le> CMD_WAIT_INIT"
    and m: "\<And>k. length (malloc k) = k"
  shows "\<exists>am a w1 d. commRead_cb malloc rd0 [\<lambda>_. Recv (set_request key f e val), rd, nothing_to_read] sent EAGAIN fd ev w
      = Some (Inr w1)
    \<and> msgs w1 am = Some a \<and> set_msg a key val \<and> am_aC a = ac \<and> hdr_hashval (am_hdr a) = key_hash key
    \<and> kv_ready w1 \<and> srv_store w1 B \<and> conns w1 = (conns w)(ac \<mapsto> d) \<and> idle d \<and> kept c d \<and> sender_at 1 0 d
    \<and> queue_of w1 (worker_of (key_hash key)) = queue_of w (worker_of (key_hash key)) @ [am]
    \<and> (\<forall>j < 2. j \<noteq> worker_of (key_hash key) \<longrightarrow> queue_of w1 j = queue_of w j) \<and> ahashtableptr w1 = ahashtableptr w
    \<and> events w1 = events w \<and> am \<in> set (busy_of (aFBSQGaMsg w1)) \<and> am \<noteq> NULL \<and> messages_kept w {am} w1"
proof -
  let ?rd = "\<lambda>_. Recv (set_request key f e val)"
  have ac: "conns w ac = Some c" "idle c" "sender_at 0 0 c" using c by (simp_all add: client_at_def conn_free_def)
  obtain c1 c2 n where r: "ProcessDataRecv malloc ?rd sent c = Inr (int n, c1)" "0 < n" "conn_state c1 = body_wait"
    "ProcessDataRecv malloc rd sent c1 = Inr (int (length val + 2), c2)" "conn_state c2 = cmd_done" "dataPendingRead c2 = 0"
    "read_set c2 key val" "received c c2" "wire c2 = wire c"
    using recv_set_whole [OF ac(2) m key nums] by blast
  have snd: "sender_at 0 0 c2" "aTcommptr c2 = aTcommptr c" using received_sender [OF r(8) ac(3)] by simp_all
  have okd: "conn_ok c2" and t: "ctype (cmd c2) = ACACHED_CMD_SET" using r(7) by (simp_all add: read_set_def headers_ok_def)
  let ?v = "upd_conn ac c1 w"
  have first: "comm_round malloc sent ac ?rd w = Some (Inr (True, int n, ?v))"
    using ac(1) r(1-3) by (simp add: comm_round_def)
  let ?d = "c2\<lparr>conn_state := cmd_wait\<rparr>" and ?w = "upd_conn ac (c2\<lparr>conn_state := cmd_wait\<rparr>) ?v"
  have rs: "read_set ?d key val" using r(7) by (simp add: read_set_def headers_ok_def req_at_def)
  have store: "srv_store ?w B" using w(2) by (simp add: srv_store_def srv_table_def)
  have pre: "kv_ready ?w" "conns ?w ac = Some ?d" "Busy ?d = 0" "Q (PendingCmdQ ?d) = []"
    using w(1) snd(1) by (simp_all add: sender_at_def)
  obtain am w1 a d1 where w1: "aConn_Post2KVdata ac ?w = Some (Inr (0, w1))" "kv_ready w1" "srv_store w1 B"
    "msgs w1 am = Some a" "set_msg a key val" "am_aC a = ac" "hdr_hashval (am_hdr a) = key_hash key"
    "conns w1 = (conns ?w)(ac \<mapsto> d1)" "posted_conn ?d d1"
    "queue_of w1 (worker_of (key_hash key)) = queue_of ?w (worker_of (key_hash key)) @ [am]"
    "\<forall>j < 2. j \<noteq> worker_of (key_hash key) \<longrightarrow> queue_of w1 j = queue_of ?w j" "ahashtableptr w1 = ahashtableptr ?w"
    "events w1 = events ?w" "am \<noteq> NULL" "am \<in> set (busy_of (aFBSQGaMsg w1))" "messages_kept ?w {am} w1"
    using SET_posted [OF pre(1) store pre(2-4) rs] by blast
  have d1: "conns w1 ac = Some d1" "conn_ok d1" "dataPendingRead d1 = 0" "ctype (cmd d1) = ctype (cmd c2)" "kept c1 d1" "sender_at 1 0 d1"
  proof -
    show "conns w1 ac = Some d1" using w1(8) by simp
    have "wire c1 = wire c" "aTcommptr c1 = aTcommptr c"
    proof -
      have "received c c1" "quiet c c1" using rpostD [OF ProcessDataRecv_received r(1)] by simp_all
      then show "aTcommptr c1 = aTcommptr c" using received_sender(2) [OF _ ac(3)] by blast
      have "recv_body_wait malloc rd c1 = Inr (int (length val + 2), c2)" using r(3,4) by (simp add: ProcessDataRecv_def)
      from rpostD [OF recv_body_wait_step this] have "wire c2 = wire c1" by (simp add: body_step_def)
      then show "wire c1 = wire c" using r(9) by simp
    qed
    then show "conn_ok d1" "dataPendingRead d1 = 0" "ctype (cmd d1) = ctype (cmd c2)" "kept c1 d1" "sender_at 1 0 d1"
      using w1(9) r(6,9) snd by (auto simp: posted_conn_def kept_def sender_at_def replying_def)
  qed
  have in0: "conns ?v ac = Some c1" by simp
  have pos: "0 < int (length val + 2)" by simp
  from comm_loop_posts [OF in0 r(4) pos r(5) _ w1(1) d1, of "[]" fd ev] t obtain e' where
    e': "obind (comm_loop malloc sent ac [rd, nothing_to_read] ?v) (\<lambda>r. Some (comm_finish sent EAGAIN fd ev ac r))
      = Some (Inr (upd_conn ac e' w1))" "idle e'" "kept c1 e'" "sender_at 1 0 e'"
    by auto
  have "kept c e'" using e'(3) d1(5) snd(2) r(9) w1(9) by (auto simp: kept_def posted_conn_def)
  moreover have "srv_store (upd_conn ac e' w1) B" using w1(3) by (simp add: srv_store_def srv_table_def)
  moreover have "conns (upd_conn ac e' w1) = (conns w)(ac \<mapsto> e')" using w1(8) by simp
  moreover have "comm_loop malloc sent ac [?rd, rd, nothing_to_read] w = comm_loop malloc sent ac [rd, nothing_to_read] ?v"
    using first by simp
  ultimately show ?thesis
    using e' w1 by (intro exI [of _ am] exI [of _ a] exI [of _ "upd_conn ac e' w1"] exI [of _ e'])
      (simp add: commRead_cb_starts [OF c])
qed

end
