(* ===== verification/Simulation.thy ===== *)
theory Simulation
  imports Prelude
begin

section \<open>Simulation of an abstract machine\<close>

text \<open>
  A machine \<open>conc\<close> takes requests one after the other; it consumes answers of its environment. It
  simulates an abstract machine, whose steps \<open>step\<close> are functions, when every request takes related
  states to related states and consumes just the answers \<open>needs\<close> that the abstract state says. The
  interface is stated for one request; here it is carried over to any sequence.
\<close>

fun runs :: "('r \<Rightarrow> 'o list \<Rightarrow> 's \<Rightarrow> ('o list \<times> 's) result option) \<Rightarrow> 'r list \<Rightarrow> 'o list \<Rightarrow> 's \<Rightarrow>
    ('o list \<times> 's) result option" where
  "runs conc [] os s = Some (Inr (os, s))"
| "runs conc (r # rs) os s = obind (conc r os s) (\<lambda>(os, s). runs conc rs os s)"

fun all_needs :: "('r \<Rightarrow> 'a \<Rightarrow> 'o list) \<Rightarrow> ('r \<Rightarrow> 'a \<Rightarrow> 'a) \<Rightarrow> 'r list \<Rightarrow> 'a \<Rightarrow> 'o list" where
  "all_needs needs step [] a = []"
| "all_needs needs step (r # rs) a = needs r a @ all_needs needs step rs (step r a)"

fun all_ok :: "('r \<Rightarrow> 'a \<Rightarrow> bool) \<Rightarrow> ('r \<Rightarrow> 'a \<Rightarrow> 'a) \<Rightarrow> 'r list \<Rightarrow> 'a \<Rightarrow> bool" where
  "all_ok ok step [] a = True"
| "all_ok ok step (r # rs) a = (ok r a \<and> all_ok ok step rs (step r a))"

locale simulation =
  fixes conc :: "'r \<Rightarrow> 'o list \<Rightarrow> 's \<Rightarrow> ('o list \<times> 's) result option"
    and needs :: "'r \<Rightarrow> 'a \<Rightarrow> 'o list"
    and step :: "'r \<Rightarrow> 'a \<Rightarrow> 'a"
    and ok :: "'r \<Rightarrow> 'a \<Rightarrow> bool"
    and related :: "'s \<Rightarrow> 'a \<Rightarrow> bool"
  assumes one: "related s a \<Longrightarrow> ok r a \<Longrightarrow> \<exists>s'. conc r (needs r a @ os) s = Some (Inr (os, s')) \<and> related s' (step r a)"
begin

lemma sequence:
  "related s a \<Longrightarrow> all_ok ok step rs a \<Longrightarrow>
    \<exists>s'. runs conc rs (all_needs needs step rs a @ os) s = Some (Inr (os, s')) \<and> related s' (fold step rs a)"
proof (induction rs arbitrary: s a)
  case (Cons r rs)
  have a: "related s a" "ok r a" using Cons.prems by simp_all
  obtain s' where s': "conc r (needs r a @ all_needs needs step rs (step r a) @ os) s
      = Some (Inr (all_needs needs step rs (step r a) @ os, s'))" "related s' (step r a)"
    using one [OF a] by blast
  with Cons.IH [OF s'(2)] Cons.prems(2) show ?case by simp
qed simp

end

end
