(* ===== verification/Session.thy ===== *)
theory Session
  imports Receive Simulation
begin

section \<open>Sessions\<close>

text \<open>
  The whole server on a sequence of commands: the comm thread takes a command from the socket, the workers
  serve it, and the client has its reply before the next command arrives, of this or another client.
\<close>

subsection \<open>The workers keep the server in order\<close>

lemma kv_handle_ready:
  assumes w: "kv_ready w" and a: "msgs w am = Some a" "am_ctype a = ACACHED_CMD_SET \<or> am_ctype a = ACACHED_CMD_GETS"
    and busy: "am \<in> set (busy_of (aFBSQGaMsg w))" "am \<noteq> NULL"
    and run: "kv_handle ok outs sels am w = Some (Inr (r, w'))"
  shows "kv_ready w'" "busy_of (aFBSQGaMsg w') = removeAll am (busy_of (aFBSQGaMsg w))"
    "worker_frame (am_aC a) {am} w w'"
proof -
  show frame: "worker_frame (am_aC a) {am} w w'" using opostD [OF kv_handle_frame [OF a(1)] run] by simp
  have pool: "aFBSQGaMsg w' = snd (aSGARelease (aFBSQGaMsg w) am)" by (rule kv_handle_pool [OF a run])
  then show "busy_of (aFBSQGaMsg w') = removeAll am (busy_of (aFBSQGaMsg w))" using aSGARelease_lists by simp
  have "pool_ok (free_of (aFBSQGaMsg w')) (busy_of (aFBSQGaMsg w'))"
    using w busy unfolding pool by (intro aSGARelease_ok) (simp_all add: kv_ready_def msg_pool_ok_def)
  moreover have "brk w \<le> brk w'" "untouched w' = untouched w" using frame by (simp_all add: worker_frame_def)
  ultimately show "kv_ready w'"
    using w busy aSGARelease_lists [of "aFBSQGaMsg w" am] unfolding kv_ready_def msg_pool_ok_def pool
    by (auto simp: untouched_def)
qed

lemma kv_run_ready:
  assumes "kv_ready w" "distinct ams" "NULL \<notin> set ams" "set ams \<subseteq> set (busy_of (aFBSQGaMsg w))"
    and "\<forall>am \<in> set ams. \<exists>a. msgs w am = Some a \<and> (am_ctype a = ACACHED_CMD_SET \<or> am_ctype a = ACACHED_CMD_GETS)"
    and "kv_run ok sels ams outs w = Some (Inr (r, w'))"
  shows "kv_ready w' \<and> set (busy_of (aFBSQGaMsg w')) = set (busy_of (aFBSQGaMsg w)) - set ams
    \<and> (\<forall>p. p \<notin> set ams \<longrightarrow> msgs w' p = msgs w p) \<and> untouched w' = untouched w"
  using assms
proof (induction ams arbitrary: w outs)
  case (Cons am ams)
  obtain o1 w1 where w1: "kv_handle ok outs sels am w = Some (Inr (o1, w1))" "kv_run ok sels ams o1 w1 = Some (Inr (r, w'))"
    using Cons.prems(6) by (auto simp: obind_eq_Some_Inr_iff)
  obtain a where a: "msgs w am = Some a" "am_ctype a = ACACHED_CMD_SET \<or> am_ctype a = ACACHED_CMD_GETS"
    using Cons.prems(5) by auto
  have am: "am \<in> set (busy_of (aFBSQGaMsg w))" "am \<noteq> NULL" using Cons.prems(3,4) by auto
  note step = kv_handle_ready [OF Cons.prems(1) a am w1(1)]
  have msgs: "\<forall>p. p \<noteq> am \<longrightarrow> msgs w1 p = msgs w p" and unt: "untouched w1 = untouched w"
    using step(3) by (simp_all add: worker_frame_def)
  have busy: "set ams \<subseteq> set (busy_of (aFBSQGaMsg w1))" using Cons.prems(2,4) step(2) by auto
  have known: "\<forall>q \<in> set ams. \<exists>b. msgs w1 q = Some b \<and> (am_ctype b = ACACHED_CMD_SET \<or> am_ctype b = ACACHED_CMD_GETS)"
  proof
    fix q assume q: "q \<in> set ams"
    then have "q \<noteq> am" using Cons.prems(2) by auto
    then show "\<exists>b. msgs w1 q = Some b \<and> (am_ctype b = ACACHED_CMD_SET \<or> am_ctype b = ACACHED_CMD_GETS)"
      using q Cons.prems(5) msgs by simp
  qed
  have "distinct ams" "NULL \<notin> set ams" using Cons.prems(2,3) by simp_all
  from Cons.IH [OF step(1) this busy known w1(2)] show ?case using step(2) msgs unt by auto
qed simp

lemma kv_run_append:
  "kv_run ok sels (xs @ ys) outs w = obind (kv_run ok sels xs outs w) (\<lambda>(outs, w). kv_run ok sels ys outs w)"
proof (induction xs arbitrary: outs w)
  case (Cons x xs)
  show ?case
    by (cases "kv_handle ok outs sels x w"; simp add: obind_def split: sum.split)
      (auto simp: Cons.IH obind_def split: option.splits sum.splits)
qed simp

text \<open>A worker that is run until its queue is empty.\<close>

lemma worker_serves:
  assumes w: "kv_ready w" "i < 2" and run: "kv_run ok sels (queue_of w i) outs w = Some (Inr (r, w'))"
    and nn: "NULL \<notin> set (queue_of w i)" and ready: "kv_ready w'" "untouched w' = untouched w"
  shows "\<exists>x. thrKVdata ok sels i outs w = Some (Inr (r, setq x w')) \<and> kv_ready (setq x w') \<and> queue_of (setq x w') i = []
    \<and> (\<forall>j < 2. j \<noteq> i \<longrightarrow> queue_of (setq x w') j = queue_of w j)"
proof -
  obtain q0 q1 where L: "aTSQGKVdata w = [Some q0, Some q1]" using w(1) by (auto simp: kv_ready_def)
  obtain q n where q: "aTSQGKVdata w ! i = Some (q, n)" using w(2) L by (cases q0; cases q1) (auto simp: less_2_cases_iff)
  then have Qq: "queue_of w i = Q q" by (simp add: queue_of_def)
  have "i < length (aTSQGKVdata w)" using w(2) L by simp
  from thrKVdata_run [OF run [unfolded Qq] q this nn [unfolded Qq]] obtain q' where
    q': "Q q' = []" "thrKVdata ok sels i outs w = Some (Inr (r, setq ((aTSQGKVdata w)[i := Some (q', n)]) w'))" by blast
  let ?x = "(aTSQGKVdata w)[i := Some (q', n)]"
  have "kv_ready (setq ?x w')"
    using ready w(2) L by (auto simp: kv_ready_def setq_def msg_pool_ok_def less_2_cases_iff)
  then show ?thesis
    using q' w(2) L by (intro exI [of _ ?x]) (auto simp: queue_of_def setq_def less_2_cases_iff)
qed

lemma worker_idle:
  assumes "kv_ready w" "i < 2" "queue_of w i = []"
  shows "thrKVdata ok sels i outs w = Some (Inr (outs, w))"
proof -
  obtain q0 q1 where L: "aTSQGKVdata w = [Some q0, Some q1]" using assms(1) by (auto simp: kv_ready_def)
  then show ?thesis
    using assms(2,3) by (cases q0; cases q1) (auto simp: thrKVdata.simps queue_of_def less_2_cases_iff aTSQgetMsg_next(1))
qed

lemma srv_store_setq [simp]: "srv_store (setq x w) B = srv_store w B"
  by (simp add: srv_store_def srv_table_def setq_def)

subsection \<open>One command served\<close>

text \<open>
  The comm thread, then the two workers, each until it waits. \<open>rds\<close> are the answers to the reads of the
  socket, \<open>outs\<close> those to \<open>sendmsg\<close>.
\<close>

definition serve :: "(nat \<Rightarrow> char list) \<Rightarrow> (nat \<Rightarrow> recv) list \<Rightarrow> ptr \<Rightarrow> outcome list \<Rightarrow> server \<Rightarrow>
    (outcome list \<times> server) result option" where
  "serve malloc rds ev outs w =
     obind (commRead_cb malloc nothing_to_read rds 0 EAGAIN 0 ev w) (\<lambda>w.
     obind (thrKVdata True [] 0 outs w) (\<lambda>(outs, w). thrKVdata True [] 1 outs w))"

text \<open>A server between commands, with the items \<open>B\<close>.\<close>

definition server_free :: "server \<Rightarrow> (nat \<Rightarrow> item list) \<Rightarrow> bool" where
  "server_free w B \<longleftrightarrow> kv_ready w \<and> srv_store w B \<and> queue_of w 0 = [] \<and> queue_of w 1 = []"

text \<open>What a command leaves: the events, the other connections, the address of a bucket; the connection is free.\<close>

definition served :: "server \<Rightarrow> ptr \<Rightarrow> aConn \<Rightarrow> char list \<Rightarrow> server \<Rightarrow> bool" where
  "served w ac c reply w' \<longleftrightarrow> events w' = events w \<and> bucket_of (ahashtableptr w') = bucket_of (ahashtableptr w)
     \<and> (\<exists>d. conns w' = (conns w)(ac \<mapsto> d) \<and> conn_free d \<and> wire d = wire c @ reply \<and> aTcommptr d = aTcommptr c)"

lemma servedI:
  "conn_free d \<Longrightarrow> conns w' = (conns w)(ac \<mapsto> d) \<Longrightarrow> wire d = wire c @ reply \<Longrightarrow> aTcommptr d = aTcommptr c \<Longrightarrow>
    events w' = events w \<Longrightarrow> bucket_of (ahashtableptr w') = bucket_of (ahashtableptr w) \<Longrightarrow> served w ac c reply w'"
  unfolding served_def by blast

lemma replied_idle: "replied c d \<Longrightarrow> idle c \<Longrightarrow> idle d" "replied c d \<Longrightarrow> aTcommptr d = aTcommptr c"
  by (simp_all add: replied_def receiver_half_def idle_def)

lemma SET_served:
  assumes w: "server_free w B" and c: "client_at w ev ac c" "conn_free c" and key: "plain_key key"
    and nums: "f < 2 ^ 32" "e < 2 ^ 32" "val \<noteq> []" "length (set_request key f e val) \<le> CMD_WAIT_INIT"
    and m: "\<And>k. length (malloc k) = k"
  shows "\<exists>w' p. serve malloc [\<lambda>_. Recv (set_request key f e val), rd, nothing_to_read] ev (Sent 8 # outs) w = Some (Inr (outs, w'))
    \<and> server_free w' (B(bucket_of (ahashtableptr w) (key_hash key) :=
        item_put (p, key, val) (B (bucket_of (ahashtableptr w) (key_hash key))))) \<and> served w ac c STORED w'"
proof -
  have w0: "kv_ready w" "srv_store w B" "queue_of w 0 = []" "queue_of w 1 = []" using w by (simp_all add: server_free_def)
  obtain am a w1 d where w1: "commRead_cb malloc nothing_to_read [\<lambda>_. Recv (set_request key f e val), rd, nothing_to_read] 0 EAGAIN 0 ev w
      = Some (Inr w1)" "msgs w1 am = Some a" "set_msg a key val" "am_aC a = ac" "hdr_hashval (am_hdr a) = key_hash key"
    "kv_ready w1" "srv_store w1 B" "conns w1 = (conns w)(ac \<mapsto> d)" "idle d" "kept c d" "sender_at 1 0 d"
    "queue_of w1 (worker_of (key_hash key)) = queue_of w (worker_of (key_hash key)) @ [am]"
    "\<forall>j < 2. j \<noteq> worker_of (key_hash key) \<longrightarrow> queue_of w1 j = queue_of w j" "ahashtableptr w1 = ahashtableptr w"
    "events w1 = events w" "am \<in> set (busy_of (aFBSQGaMsg w1))" "am \<noteq> NULL"
    using SET_arrives [OF w0(1,2) c key nums m] by blast
  let ?i = "worker_of (key_hash key)" and ?b = "bucket_of (ahashtableptr w) (key_hash key)"
  have i: "?i = 0 \<or> ?i = 1" using worker_of_less [of "key_hash key"] by auto
  have q0: "queue_of w j = []" if "j < 2" for j using less_2_cases [OF that] w0(3,4) by auto
  have que: "queue_of w1 ?i = [am]" "\<forall>j < 2. j \<noteq> ?i \<longrightarrow> queue_of w1 j = []"
    using w1(12,13) q0 [OF worker_of_less] q0 by simp_all
  have b: "bucket_at w1 a = ?b" using w1(5,14) by (simp add: bucket_at_def)
  have cl: "clean key" using plain_keyD(1) [OF key] by (simp add: good_key_def)
  have d: "conns w1 ac = Some d" "Busy d = 1" "replying Map.empty d 0 []" using w1(8,11) by (simp_all add: sender_at_def)
  obtain w2 c2 where w2: "kv_handle True (Sent 8 # outs) [] am w1 = Some (Inr (outs, w2))"
    "srv_store w2 (B(?b := item_put (brk w1, key, val) (B ?b)))" "conns w2 = (conns w1)(ac \<mapsto> c2)"
    "wire c2 = wire d @ STORED" "Busy c2 = 0" "replying Map.empty c2 0 []" "Q (PendingCmdQ c2) = Q (PendingCmdQ d)"
    "bucket_of (ahashtableptr w2) = bucket_of (ahashtableptr w1)" "replyCount c2 = 0" "reqCount c2 = reqCount d"
    "concPending c2 = concPending d"
    using set_handled [OF w1(2,3) cl w1(4) d w1(7), of outs "[]"] unfolding b by blast
  have ct: "am_ctype a = ACACHED_CMD_SET \<or> am_ctype a = ACACHED_CMD_GETS" using w1(3) by (simp add: set_msg_def)
  note after = kv_handle_ready [OF w1(6,2) ct w1(16,17) w2(1)]
  have rep: "replied d c2" "untouched w2 = untouched w1"
    using after(3) d(1) w2(3) w1(4) by (auto simp: worker_frame_def)
  have run: "kv_run True [] (queue_of w1 ?i) (Sent 8 # outs) w1 = Some (Inr (outs, w2))" using w2(1) que(1) by simp
  have nn: "NULL \<notin> set (queue_of w1 ?i)" using que(1) w1(17) by simp
  obtain x where x: "thrKVdata True [] ?i (Sent 8 # outs) w1 = Some (Inr (outs, setq x w2))" "kv_ready (setq x w2)"
    "queue_of (setq x w2) ?i = []" "\<forall>j < 2. j \<noteq> ?i \<longrightarrow> queue_of (setq x w2) j = queue_of w1 j"
    using worker_serves [OF w1(6) worker_of_less run nn after(1) rep(2)] by blast
  have both: "obind (thrKVdata True [] 0 (Sent 8 # outs) w1) (\<lambda>(outs, w). thrKVdata True [] 1 outs w) = Some (Inr (outs, setq x w2))"
  proof (cases "?i = 0")
    case True
    have "queue_of (setq x w2) 1 = []" using x(4) que(2) True by simp
    from worker_idle [OF x(2) _ this, of True "[]" outs] show ?thesis using x(1) True by simp
  next
    case False
    then have "queue_of w1 0 = []" using que(2) by simp
    from worker_idle [OF w1(6) _ this, of True "[]" "Sent 8 # outs"] show ?thesis using x(1) False i by simp
  qed
  have "queue_of (setq x w2) j = []" if "j < 2" for j using x(3,4) que(2) that by (cases "j = ?i") auto
  then have free: "server_free (setq x w2) (B(?b := item_put (brk w1, key, val) (B ?b)))"
    using x(2) w2(2) by (simp add: server_free_def)
  have "conn_free c2"
    using replied_idle(1) [OF rep(1) w1(9)] w2(5-11) w1(11) by (simp add: conn_free_def sender_at_def)
  moreover have "conns (setq x w2) = (conns w)(ac \<mapsto> c2)" unfolding setq_simps w2(3) w1(8) by simp
  moreover have "wire c2 = wire c @ STORED" "aTcommptr c2 = aTcommptr c"
    using w2(4) w1(10) replied_idle(2) [OF rep(1)] by (simp_all add: kept_def)
  moreover have "events (setq x w2) = events w" using rep(2) w1(15) by (simp add: untouched_def setq_def)
  moreover have "bucket_of (ahashtableptr (setq x w2)) = bucket_of (ahashtableptr w)" using w2(8) w1(14) by simp
  ultimately have "served w ac c STORED (setq x w2)" by (rule servedI)
  moreover have "serve malloc [\<lambda>_. Recv (set_request key f e val), rd, nothing_to_read] ev (Sent 8 # outs) w
      = Some (Inr (outs, setq x w2))" unfolding serve_def w1(1) obind_simps by (rule both)
  ultimately show ?thesis using free by blast
qed

text \<open>
  The keys of a GET in the order of the replies: those of the first worker, then those of the second.
\<close>

definition worker_order :: "string list \<Rightarrow> string list" where
  "worker_order ks = filter (\<lambda>k. worker_of (key_hash k) = 0) ks @ filter (\<lambda>k. worker_of (key_hash k) = 1) ks"

lemma set_worker_order [simp]: "set (worker_order ks) = set ks" "length (worker_order ks) = length ks"
proof -
  have "worker_of h = 0 \<or> worker_of h = 1" for h by (simp add: worker_of_def)
  then show "set (worker_order ks) = set ks" by (auto simp: worker_order_def)
  have one: "worker_of h = 1 \<longleftrightarrow> worker_of h \<noteq> 0" for h by (simp add: worker_of_def)
  show "length (worker_order ks) = length ks"
    unfolding worker_order_def one length_append by (rule sum_length_filter_compl)
qed

lemma worker_order_one [simp]: "worker_order [k] = [k]"
proof -
  have "worker_of (key_hash k) = 0 \<or> worker_of (key_hash k) = 1" by (simp add: worker_of_def)
  then show ?thesis by (auto simp: worker_order_def)
qed

definition get_answers :: "(nat \<Rightarrow> item list) \<Rightarrow> (u32 \<Rightarrow> nat) \<Rightarrow> string list \<Rightarrow> char list" where
  "get_answers B hb ks = concat (map (\<lambda>k. answer (B (hb (key_hash k))) k) (worker_order ks))"

lemma kv_run_split:
  assumes "kv_run ok sels (xs @ ys) outs w = Some (Inr (r, w'))"
  obtains o1 w1 where "kv_run ok sels xs outs w = Some (Inr (o1, w1))" "kv_run ok sels ys o1 w1 = Some (Inr (r, w'))"
  using assms by (auto simp: kv_run_append obind_eq_Some_Inr_iff)

text \<open>The two workers, one after the other.\<close>

lemma workers_serve:
  assumes w: "kv_ready w" and run: "kv_run True [] (queue_of w 0 @ queue_of w 1) outs w = Some (Inr (r, w'))"
    and d: "distinct (queue_of w 0 @ queue_of w 1)" "NULL \<notin> set (queue_of w 0 @ queue_of w 1)"
      "set (queue_of w 0 @ queue_of w 1) \<subseteq> set (busy_of (aFBSQGaMsg w))"
    and a: "\<forall>am \<in> set (queue_of w 0 @ queue_of w 1). \<exists>a. msgs w am = Some a
      \<and> (am_ctype a = ACACHED_CMD_SET \<or> am_ctype a = ACACHED_CMD_GETS)"
  shows "\<exists>x. obind (thrKVdata True [] 0 outs w) (\<lambda>(outs, w). thrKVdata True [] 1 outs w) = Some (Inr (r, setq x w'))
    \<and> kv_ready (setq x w') \<and> queue_of (setq x w') 0 = [] \<and> queue_of (setq x w') 1 = [] \<and> untouched w' = untouched w"
proof -
  let ?q0 = "queue_of w 0" and ?q1 = "queue_of w 1"
  obtain o1 w1 where w1: "kv_run True [] ?q0 outs w = Some (Inr (o1, w1))" "kv_run True [] ?q1 o1 w1 = Some (Inr (r, w'))"
    using kv_run_split [OF run] .
  have "distinct ?q0" "NULL \<notin> set ?q0" "set ?q0 \<subseteq> set (busy_of (aFBSQGaMsg w))"
    "\<forall>am \<in> set ?q0. \<exists>a. msgs w am = Some a \<and> (am_ctype a = ACACHED_CMD_SET \<or> am_ctype a = ACACHED_CMD_GETS)"
    using d a by simp_all
  from kv_run_ready [OF w this w1(1)] have r1: "kv_ready w1" "set (busy_of (aFBSQGaMsg w1)) = set (busy_of (aFBSQGaMsg w)) - set ?q0"
    "\<forall>p. p \<notin> set ?q0 \<longrightarrow> msgs w1 p = msgs w p" "untouched w1 = untouched w" by simp_all
  have nn: "NULL \<notin> set ?q0" using d(2) by simp
  obtain x where x: "thrKVdata True [] 0 outs w = Some (Inr (o1, setq x w1))" "kv_ready (setq x w1)"
    "queue_of (setq x w1) 0 = []" "\<forall>j < 2. j \<noteq> 0 \<longrightarrow> queue_of (setq x w1) j = queue_of w j"
    using worker_serves [OF w _ w1(1) nn r1(1,4)] by auto
  let ?v = "setq x w1"
  have q1: "queue_of ?v 1 = ?q1" using x(4) by simp
  have run1: "kv_run True [] (queue_of ?v 1) o1 ?v = Some (Inr (r, setq x w'))" unfolding q1 by (rule kv_run_moved [OF w1(2)])
  have dis: "set ?q0 \<inter> set ?q1 = {}" using d(1) by auto
  have "distinct ?q1" "NULL \<notin> set ?q1" "set ?q1 \<subseteq> set (busy_of (aFBSQGaMsg w1))"
    using d r1(2) dis by auto
  moreover have "\<forall>am \<in> set ?q1. \<exists>a. msgs w1 am = Some a \<and> (am_ctype a = ACACHED_CMD_SET \<or> am_ctype a = ACACHED_CMD_GETS)"
  proof
    fix am assume am: "am \<in> set ?q1"
    then have "am \<notin> set ?q0" using dis by auto
    then show "\<exists>a. msgs w1 am = Some a \<and> (am_ctype a = ACACHED_CMD_SET \<or> am_ctype a = ACACHED_CMD_GETS)"
      using r1(3) a am by simp
  qed
  ultimately have r2: "kv_ready (setq x w')" "untouched (setq x w') = untouched ?v" "untouched w' = untouched w1"
    using kv_run_ready [OF x(2) _ _ _ _ run1] kv_run_ready [OF r1(1) _ _ _ _ w1(2)] unfolding q1 by simp_all
  have nn1: "NULL \<notin> set (queue_of ?v 1)" unfolding q1 using d(2) by simp
  obtain y where y: "thrKVdata True [] 1 o1 ?v = Some (Inr (r, setq y (setq x w')))" "kv_ready (setq y (setq x w'))"
    "queue_of (setq y (setq x w')) 1 = []" "\<forall>j < 2. j \<noteq> 1 \<longrightarrow> queue_of (setq y (setq x w')) j = queue_of ?v j"
    using worker_serves [OF x(2) _ run1 nn1 r2(1,2)] by auto
  moreover have "setq y (setq x w') = setq y w'" by (simp add: setq_def)
  ultimately show ?thesis using x(1,3) r2(3) r1(4) by (intro exI [of _ y]) simp
qed

lemma GET_served_whole:
  assumes w: "server_free w B" and c: "client_at w ev ac c" "conn_free c"
    and ks: "ks \<noteq> []" "\<forall>k \<in> set ks. plain_key k" "length (get_line ks) + 2 \<le> CMD_WAIT_INIT" "length ks < 500"
    and m: "\<And>k. length (malloc k) = k"
  defines "A \<equiv> get_answers B (bucket_of (ahashtableptr w)) ks"
  assumes A: "length A \<le> 126 * 1024"
  shows "\<exists>w'. serve malloc ((\<lambda>_. Recv (get_request ks)) # nothing_to_read # rds) ev (Sent (length A + 5) # outs) w = Some (Inr (outs, w'))
    \<and> server_free w' B \<and> served w ac c (A @ END_line) w'"
proof -
  have w0: "kv_ready w" "srv_store w B" "queue_of w 0 = []" "queue_of w 1 = []" using w by (simp_all add: server_free_def)
  obtain qs w1 d where w1: "commRead_cb malloc nothing_to_read ((\<lambda>_. Recv (get_request ks)) # nothing_to_read # rds) 0 EAGAIN 0 ev w = Some (Inr w1)"
    "map snd qs = ks" "distinct (map fst qs)" "\<forall>q \<in> set qs. key_msg w1 ac q" "kv_ready w1" "srv_store w1 B"
    "conns w1 = (conns w)(ac \<mapsto> d)" "idle d" "kept c d" "sender_at 1 (length ks) d"
    "\<forall>i < 2. queue_of w1 i = queue_of w i @ keys_of i qs" "ahashtableptr w1 = ahashtableptr w" "events w1 = events w"
    "set (map fst qs) \<subseteq> set (busy_of (aFBSQGaMsg w1))" "NULL \<notin> set (map fst qs)"
    using GET_arrives [OF w0(1,2) c ks(1-3) m] unfolding get_request_def by blast
  let ?hb = "\<lambda>k. bucket_of (ahashtableptr w) (key_hash k)"
  define ps where "ps = filter (\<lambda>q. worker_of (key_hash (snd q)) = 0) qs @ filter (\<lambda>q. worker_of (key_hash (snd q)) = 1) qs"
  define T where "T = map (\<lambda>q. (fst q, snd q, ?hb (snd q))) ps"
  have que: "queue_of w1 0 = keys_of 0 qs" "queue_of w1 1 = keys_of 1 qs" using w1(11) w0(3,4) by simp_all
  have fT: "map fst T = queue_of w1 0 @ queue_of w1 1" unfolding que by (simp add: T_def ps_def keys_of_def comp_def)
  have sT: "map snd ps = worker_order ks"
    unfolding w1(2) [symmetric] by (simp add: ps_def worker_order_def filter_map comp_def)
  have one: "worker_of h \<noteq> Suc 0 \<Longrightarrow> worker_of h = 0" for h by (simp add: worker_of_def split: if_splits)
  have setp: "set ps = set qs" by (auto simp: ps_def dest: one)
  have lenp: "length ps = length ks" using arg_cong [OF sT, of length] by simp
  have "distinct (map fst ps)"
  proof -
    have "inj_on fst (set qs)" "distinct qs" using w1(3) by (simp_all add: distinct_map)
    moreover from this have "distinct ps" by (auto simp: ps_def)
    ultimately show ?thesis using setp by (simp add: distinct_map)
  qed
  then have dis: "distinct (map fst T)" by (simp add: T_def comp_def)
  have ask: "\<forall>q \<in> set T. asks w1 ac q" using w1(4,12) setp by (auto simp: T_def key_msg_def asks_def bucket_at_def)
  have ans: "answers B T = A" unfolding A_def get_answers_def sT [symmetric] by (simp add: T_def answers_def comp_def)
  have d: "conns w1 ac = Some d" "Busy d = 1" "replying Map.empty d 0 []" "concPending d = 0"
    "reqCount d = replyCount d + of_nat (length T)"
    using w1(7,10) lenp by (simp_all add: sender_at_def T_def)
  have ne: "T \<noteq> []" using lenp ks(1) by (auto simp: T_def)
  have small: "0 + 2 * length T < 1000" "length ([] :: char list) + length (answers B T) \<le> 126 * 1024"
    unfolding ans using ks(4) lenp A by (simp_all add: T_def)
  obtain w2 c2 where w2: "kv_run True [] (map fst T) (Sent (length A + 5) # outs) w1 = Some (Inr (outs, w2))"
    "srv_store w2 B" "conns w2 ac = Some c2" "wire c2 = wire d @ A @ END_line"
    "replying (mem (ahashtableptr w2)) c2 0 []" "replyCount c2 = 0" "reqCount c2 = 0" "Busy c2 = 0" "concPending c2 = 0"
    "Q (PendingCmdQ c2) = Q (PendingCmdQ d)"
    using kv_run_gets [OF ne dis ask w1(6) d(1) replying_nothing [OF d(3)] small d(4,2,5), of "[]" outs]
    by (auto simp: ans)
  have in0: "set (queue_of w1 0 @ queue_of w1 1) = set (map fst qs)" 
    unfolding fT [symmetric] T_def using setp by (simp add: image_image)
  have pre: "distinct (queue_of w1 0 @ queue_of w1 1)" "NULL \<notin> set (queue_of w1 0 @ queue_of w1 1)"
    "set (queue_of w1 0 @ queue_of w1 1) \<subseteq> set (busy_of (aFBSQGaMsg w1))"
    using dis w1(14,15) unfolding in0 by (simp_all only: fT not_False_eq_True)
  have types: "\<forall>am \<in> set (queue_of w1 0 @ queue_of w1 1). \<exists>a. msgs w1 am = Some a
      \<and> (am_ctype a = ACACHED_CMD_SET \<or> am_ctype a = ACACHED_CMD_GETS)"
    unfolding in0 using w1(4) by (auto simp: key_msg_def get_msg_def)
  obtain x where x: "obind (thrKVdata True [] 0 (Sent (length A + 5) # outs) w1) (\<lambda>(outs, w). thrKVdata True [] 1 outs w)
      = Some (Inr (outs, setq x w2))" "kv_ready (setq x w2)" "queue_of (setq x w2) 0 = []" "queue_of (setq x w2) 1 = []"
    "untouched w2 = untouched w1"
    using workers_serve [OF w1(5) w2(1) [unfolded fT] pre types] by blast
  have "\<forall>am \<in> set (map fst T). \<exists>a. msgs w1 am = Some a \<and> am_aC a = ac" using ask by (auto simp: asks_def)
  from opostD [OF kv_run_frame [OF dis this] w2(1)] have fr: "worker_frame ac (set (map fst T)) w1 w2" by simp
  then have rep: "replied d c2" using d(1) w2(3) by (auto simp: worker_frame_def)
  have "conns w2 p = ((conns w)(ac \<mapsto> c2)) p" for p
    using fr w2(3) w1(7) by (cases "p = ac") (simp_all add: worker_frame_def)
  then have cs: "conns (setq x w2) = (conns w)(ac \<mapsto> c2)" by (simp add: fun_eq_iff)
  have "conn_free c2"
    using replied_idle(1) [OF rep w1(8)] w2(5-10) w1(10) replying_nothing by (simp add: conn_free_def sender_at_def)
  moreover note cs
  moreover have "wire c2 = wire c @ A @ END_line" "aTcommptr c2 = aTcommptr c"
    using w2(4) w1(9) replied_idle(2) [OF rep] by (simp_all add: kept_def)
  moreover have "events (setq x w2) = events w" using x(5) w1(13) by (simp add: untouched_def setq_def)
  moreover have "bucket_of (ahashtableptr (setq x w2)) = bucket_of (ahashtableptr w)"
    using x(5) w1(12) by (simp add: untouched_def)
  ultimately have "served w ac c (A @ END_line) (setq x w2)" by (rule servedI)
  moreover have "serve malloc ((\<lambda>_. Recv (get_request ks)) # nothing_to_read # rds) ev (Sent (length A + 5) # outs) w = Some (Inr (outs, setq x w2))"
    unfolding serve_def w1(1) obind_simps by (rule x(1))
  moreover have "server_free (setq x w2) B" using x(2-4) w2(2) by (simp add: server_free_def)
  ultimately show ?thesis by blast
qed

subsection \<open>The cache a client sees\<close>

text \<open>
  The abstract server: a map from keys to values, and the bytes sent to each client. A request is a SET
  (key, flags, expiry, value) or a GET (keys) of a client.
\<close>

datatype request = SetReq string nat nat "char list" | GetReq "string list"

type_synonym cache = "(string \<rightharpoonup> char list) \<times> (ptr \<Rightarrow> char list)"

fun request_bytes :: "request \<Rightarrow> char list" where
  "request_bytes (SetReq key f e val) = set_request key f e val"
| "request_bytes (GetReq ks) = get_request ks"

fun response :: "request \<Rightarrow> (string \<rightharpoonup> char list) \<Rightarrow> char list" where
  "response (SetReq key f e val) M = STORED"
| "response (GetReq ks) M =
     concat (map (\<lambda>k. case M k of None \<Rightarrow> [] | Some v \<Rightarrow> value_reply k v) (worker_order ks)) @ END_line"

fun stored_by :: "request \<Rightarrow> (string \<rightharpoonup> char list) \<Rightarrow> string \<rightharpoonup> char list" where
  "stored_by (SetReq key f e val) M = M(key \<mapsto> val)"
| "stored_by (GetReq ks) M = M"

definition cache_step :: "ptr \<times> request \<Rightarrow> cache \<Rightarrow> cache" where
  "cache_step q S = (case S of (M, W) \<Rightarrow>
     (stored_by (snd q) M, W(fst q := W (fst q) @ response (snd q) M)))"

text \<open>
  The requests considered: keys of one length, without blanks; a value that is not empty; what is sent
  and what is answered within the sizes of the buffers.
\<close>

fun request_ok :: "nat \<Rightarrow> request \<Rightarrow> (string \<rightharpoonup> char list) \<Rightarrow> bool" where
  "request_ok n (SetReq key f e val) M \<longleftrightarrow> plain_key key \<and> length key = n \<and> f < 2 ^ 32 \<and> e < 2 ^ 32 \<and> val \<noteq> []
     \<and> length (set_request key f e val) \<le> CMD_WAIT_INIT"
| "request_ok n (GetReq ks) M \<longleftrightarrow> ks \<noteq> [] \<and> (\<forall>k \<in> set ks. plain_key k \<and> length k = n) \<and> length ks < 500
     \<and> length (get_request ks) \<le> CMD_WAIT_INIT \<and> length (response (GetReq ks) M) \<le> 126 * 1024"

text \<open>One request on the real server: the socket gives it whole, and the kernel takes the reply whole.\<close>

definition request_served :: "(nat \<Rightarrow> char list) \<Rightarrow> (ptr \<Rightarrow> ptr) \<Rightarrow> ptr \<times> request \<Rightarrow> outcome list \<Rightarrow> server \<Rightarrow>
    (outcome list \<times> server) result option" where
  "request_served malloc event_of q = serve malloc
     [\<lambda>_. Recv (request_bytes (snd q)), nothing_to_read, nothing_to_read] (event_of (fst q))"

definition reply_taken :: "ptr \<times> request \<Rightarrow> cache \<Rightarrow> outcome list" where
  "reply_taken q S = [Sent (length (response (snd q) (fst S)))]"

text \<open>
  The items of the server as a map: all keys have the length \<open>n\<close>, so that no key is the beginning of another
  one, or of another key and its value.
\<close>

definition sees :: "(nat \<Rightarrow> item list) \<Rightarrow> (u32 \<Rightarrow> nat) \<Rightarrow> nat \<Rightarrow> (string \<rightharpoonup> char list) \<Rightarrow> bool" where
  "sees B hb n M \<longleftrightarrow> (\<forall>b. \<forall>x \<in> set (B b). length (fst (snd x)) = n)
     \<and> (\<forall>k. length k = n \<longrightarrow> map_option (\<lambda>x. snd (snd x)) (item_get k (B (hb (key_hash k)))) = M k)"

definition cache_related :: "(nat \<Rightarrow> char list) \<Rightarrow> (ptr \<Rightarrow> ptr) \<Rightarrow> nat \<Rightarrow> ptr set \<Rightarrow> server \<Rightarrow> cache \<Rightarrow> bool" where
  "cache_related malloc event_of n clients w S \<longleftrightarrow> (\<forall>k. length (malloc k) = k)
     \<and> (\<exists>B. server_free w B \<and> sees B (bucket_of (ahashtableptr w)) n (fst S))
     \<and> (\<forall>ac \<in> clients. \<exists>c. client_at w (event_of ac) ac c \<and> conn_free c \<and> wire c = snd S ac)"

lemma item_put_keys: "x \<in> set (item_put y ys) \<Longrightarrow> x = y \<or> x \<in> set ys"
  by (induction ys) (auto split: if_splits)

lemma hit_same_length: "length s = length (fst (snd x)) \<Longrightarrow> hit s x \<longleftrightarrow> fst (snd x) = s"
  by (auto simp: hit_def prefix_def append_eq_append_conv)

lemma item_get_put_other:
  assumes "k \<noteq> key" "length k = n" "length key = n" "\<forall>x \<in> set ys. length (fst (snd x)) = n"
  shows "item_get k (item_put (p, key, val) ys) = item_get k ys"
  using assms(4)
proof (induction ys)
  case Nil
  then show ?case using assms(1-3) hit_same_length [of k "(p, key, val)"] by simp
next
  case (Cons y ys)
  then show ?case
    using assms(1-3) hit_same_length [of k "(p, key, val)"] hit_same_length [of k y] hit_same_length [of key y] by auto
qed

lemma sees_put:
  assumes "sees B hb n M" "length key = n"
  defines "b \<equiv> hb (key_hash key)"
  shows "sees (B(b := item_put (p, key, val) (B b))) hb n (M(key \<mapsto> val))"
proof -
  have len: "\<forall>x \<in> set (B b). length (fst (snd x)) = n" for b using assms(1) by (simp add: sees_def)
  have "map_option (\<lambda>x. snd (snd x)) (item_get k ((B(b := item_put (p, key, val) (B b))) (hb (key_hash k)))) = (M(key \<mapsto> val)) k"
    if "length k = n" for k
    using that assms(1,2) item_get_put_other [OF _ that assms(2) len] 
    by (cases "k = key") (auto simp: item_get_put b_def sees_def)
  then show ?thesis using len assms(2) by (auto simp: sees_def dest!: item_put_keys)
qed

lemma sees_answer:
  "sees B hb n M \<Longrightarrow> length k = n \<Longrightarrow> answer (B (hb (key_hash k))) k = (case M k of None \<Rightarrow> [] | Some v \<Rightarrow> value_reply k v)"
  unfolding sees_def answer_def by (drule conjunct2, drule spec [of _ k]) (auto split: option.splits)

lemma sees_response:
  assumes "sees B hb n M" "\<forall>k \<in> set ks. length k = n"
  shows "get_answers B hb ks @ END_line = response (GetReq ks) M"
proof -
  have "map (\<lambda>k. answer (B (hb (key_hash k))) k) (worker_order ks)
      = map (\<lambda>k. case M k of None \<Rightarrow> [] | Some v \<Rightarrow> value_reply k v) (worker_order ks)"
    by (rule map_cong [OF refl]) (use assms(2) sees_answer [OF assms(1)] in simp)
  then show ?thesis unfolding get_answers_def response.simps by (simp only:)
qed

text \<open>One request is served as the abstract server does.\<close>

lemma served_clients:
  assumes s: "served w ac c reply w'" "client_at w ev ac c" and W: "wire c = W ac"
    and all: "\<forall>p \<in> clients. \<exists>d. client_at w (event_of p) p d \<and> conn_free d \<and> wire d = W p" and ev: "event_of ac = ev"
  shows "\<forall>p \<in> clients. \<exists>d. client_at w' (event_of p) p d \<and> conn_free d \<and> wire d = (W(ac := W ac @ reply)) p"
proof
  fix p assume p: "p \<in> clients"
  obtain c' where c': "events w' = events w" "conns w' = (conns w)(ac \<mapsto> c')" "conn_free c'" "wire c' = wire c @ reply"
    "aTcommptr c' = aTcommptr c"
    using s(1) by (auto simp: served_def)
  show "\<exists>d. client_at w' (event_of p) p d \<and> conn_free d \<and> wire d = (W(ac := W ac @ reply)) p"
  proof (cases "p = ac")
    case True
    then show ?thesis using c' s(2) W ev by (auto simp: client_at_def)
  next
    case False
    then show ?thesis using all p c' by (auto simp: client_at_def)
  qed
qed

lemma request_step:
  assumes rel: "cache_related malloc event_of n clients w S" and ok: "fst q \<in> clients \<and> request_ok n (snd q) (fst S)"
  shows "\<exists>w'. request_served malloc event_of q (reply_taken q S @ os) w = Some (Inr (os, w'))
    \<and> cache_related malloc event_of n clients w' (cache_step q S)"
proof -
  obtain ac r where q: "q = (ac, r)" by (cases q)
  obtain M W where S: "S = (M, W)" by (cases S)
  have m: "length (malloc k) = k" for k using rel by (simp add: cache_related_def)
  obtain B where B: "server_free w B" "sees B (bucket_of (ahashtableptr w)) n M" using rel by (auto simp: cache_related_def S)
  have all: "\<forall>p \<in> clients. \<exists>d. client_at w (event_of p) p d \<and> conn_free d \<and> wire d = W p"
    using rel by (simp add: cache_related_def S)
  then obtain c where c: "client_at w (event_of ac) ac c" "conn_free c" "wire c = W ac" using ok by (auto simp: q)
  let ?rds = "[\<lambda>_. Recv (request_bytes r), nothing_to_read, nothing_to_read]"
  have "\<exists>w' B'. serve malloc ?rds (event_of ac) (Sent (length (response r M)) # os) w = Some (Inr (os, w'))
    \<and> server_free w' B' \<and> sees B' (bucket_of (ahashtableptr w)) n (stored_by r M) \<and> served w ac c (response r M) w'"
  proof (cases r)
    case (SetReq key f e val)
    have k: "plain_key key" "length key = n" "f < 2 ^ 32" "e < 2 ^ 32" "val \<noteq> []" "length (set_request key f e val) \<le> CMD_WAIT_INIT"
      using ok by (simp_all add: q S SetReq)
    have "length STORED = 8" by (simp add: STORED_def)
    then show ?thesis
      using SET_served [OF B(1) c(1,2) k(1,3-6) m, where rd = nothing_to_read and outs = os] sees_put [OF B(2) k(2)]
      by (auto simp: SetReq)
  next
    case (GetReq ks)
    let ?A = "get_answers B (bucket_of (ahashtableptr w)) ks"
    have k: "ks \<noteq> []" "\<forall>k \<in> set ks. plain_key k" "length (get_line ks) + 2 \<le> CMD_WAIT_INIT" "length ks < 500"
      "\<forall>k \<in> set ks. length k = n" "length (response (GetReq ks) M) \<le> 126 * 1024"
      using ok by (simp_all add: q S GetReq get_request_def)
    have A: "?A @ END_line = response (GetReq ks) M" by (rule sees_response [OF B(2) k(5)])
    have len: "length (response (GetReq ks) M) = length ?A + 5" "length ?A \<le> 126 * 1024"
      using arg_cong [OF A, of length] k(6) by (simp_all add: END_line_def)
    obtain w' where "serve malloc ((\<lambda>_. Recv (get_request ks)) # nothing_to_read # [nothing_to_read]) (event_of ac)
        (Sent (length ?A + 5) # os) w = Some (Inr (os, w'))" "server_free w' B" "served w ac c (?A @ END_line) w'"
      using GET_served_whole [OF B(1) c(1,2) k(1-4) m len(2)] by blast
    then show ?thesis using B(2) unfolding A len(1) [symmetric] by (auto simp: GetReq)
  qed
  then obtain w' B' where w': "serve malloc ?rds (event_of ac) (Sent (length (response r M)) # os) w = Some (Inr (os, w'))"
    "server_free w' B'" "sees B' (bucket_of (ahashtableptr w)) n (stored_by r M)" "served w ac c (response r M) w'" by blast
  have "bucket_of (ahashtableptr w') = bucket_of (ahashtableptr w)" using w'(4) by (simp add: served_def)
  then have "cache_related malloc event_of n clients w' (cache_step q S)"
    using w'(2,3) m served_clients [OF w'(4) c(1,3) all refl] by (auto simp: cache_related_def cache_step_def q S)
  then show ?thesis using w'(1) by (auto simp: request_served_def reply_taken_def q S)
qed

interpretation cache: simulation "request_served malloc event_of" reply_taken cache_step
    "\<lambda>q S. fst q \<in> clients \<and> request_ok n (snd q) (fst S)" "cache_related malloc event_of n clients"
    for malloc event_of n clients
  by unfold_locales (rule request_step)

end
