(* ===== verification/Logging.thy ===== *)
theory Logging
  imports Util
begin

section \<open>The log (adapt/adaptlog, and hexdump1 of aUtil.cpp)\<close>

text \<open>
  Log statements name a group; they are evaluated, with the calls in their arguments, when the group is
  in \<open>alogVal\<close>. The log file and its mutex are shared by all threads: a statement that finds the mutex
  held waits, and \<open>None\<close> is a wait that does not end.
\<close>

datatype log_file = LogFile string | Stderr

record adaptlog =
  alogVal :: u64
  alogMask :: u64
  logFP :: log_file
  logmutex :: bool
  log_lines :: "string list"

definition ALOG_INFO :: u64 where "ALOG_INFO = push_bit 0 1"
definition ALOG_DALL :: u64 where "ALOG_DALL = push_bit 1 1"
definition ALOG_MSG :: u64 where "ALOG_MSG = push_bit 2 1"
definition ALOG_TMSG :: u64 where "ALOG_TMSG = push_bit 3 1"
definition ALOG_TCONN :: u64 where "ALOG_TCONN = push_bit 4 1"
definition ALOG_THASH :: u64 where "ALOG_THASH = push_bit 5 1"
definition ALOG_TTOK :: u64 where "ALOG_TTOK = push_bit 6 1"
definition ALOG_TQ :: u64 where "ALOG_TQ = push_bit 7 1"
definition ALOG_TSQ :: u64 where "ALOG_TSQ = push_bit 8 1"
definition ALOG_TTHR :: u64 where "ALOG_TTHR = push_bit 9 1"
definition ALOG_INTERNAL :: u64 where "ALOG_INTERNAL = push_bit 10 1"
definition ALOG_TCONC :: u64 where "ALOG_TCONC = push_bit 11 1"
definition ALOG_TLCK :: u64 where "ALOG_TLCK = push_bit 12 1"
definition ALOG_TERR :: u64 where "ALOG_TERR = push_bit 13 1"
definition ALOG_COMM :: u64 where "ALOG_COMM = push_bit 14 1"
definition ALOG_PROCMD :: u64 where "ALOG_PROCMD = push_bit 15 1"
definition ALOG_KVDATA :: u64 where "ALOG_KVDATA = push_bit 16 1"
definition ALOG_CLIENT :: u64 where "ALOG_CLIENT = push_bit 17 1"
definition ALOG_ALERT :: u64 where "ALOG_ALERT = push_bit 18 1"
definition ALOG_MEM :: u64 where "ALOG_MEM = push_bit 19 1"
definition ALOG_PARSE :: u64 where "ALOG_PARSE = push_bit 20 1"

lemmas alog_defs = ALOG_INFO_def ALOG_DALL_def ALOG_MSG_def ALOG_TMSG_def ALOG_TCONN_def ALOG_THASH_def ALOG_TTOK_def
  ALOG_TQ_def ALOG_TSQ_def ALOG_TTHR_def ALOG_INTERNAL_def ALOG_TCONC_def ALOG_TLCK_def ALOG_TERR_def ALOG_COMM_def
  ALOG_PROCMD_def ALOG_KVDATA_def ALOG_CLIENT_def ALOG_ALERT_def ALOG_MEM_def ALOG_PARSE_def

subsection \<open>The log object\<close>

text \<open>The constructor: \<open>ok\<close> says whether the file could be opened.\<close>

definition adaptlog_new :: "string \<Rightarrow> bool \<Rightarrow> adaptlog" where
  "adaptlog_new name ok = \<lparr>alogVal = 0, alogMask = 0xFFFFFFFF, logFP = (if ok then LogFile name else Stderr),
     logmutex = False, log_lines = []\<rparr>"

definition adaptlog_Init :: "u64 \<Rightarrow> adaptlog \<Rightarrow> u64 \<times> adaptlog" where
  "adaptlog_Init m L = (let v = alogVal L OR m in (v, L\<lparr>alogVal := v\<rparr>))"

text \<open>
  The macro behind all log statements. \<open>self\<close> is the text of \<open>pthread_self()\<close>, \<open>msg\<close> the formatted
  message, computed only when the group is on.
\<close>

definition log_message :: "string \<Rightarrow> u64 \<Rightarrow> string \<Rightarrow> (unit \<Rightarrow> string) \<Rightarrow> adaptlog \<Rightarrow> adaptlog option" where
  "log_message self flg str msg L =
     (if flg AND alogVal L \<noteq> 0 then
        (if logmutex L then None
         else Some (L\<lparr>log_lines := log_lines L @ [str @ '':'' @ self @ '':'' @ msg () @ [LF]]\<rparr>))
      else Some L)"

text \<open>The levels: the four macros are compiled in when \<open>LOGOG_LEVEL\<close> is at least theirs.\<close>

definition LOGOG_LEVEL :: int where "LOGOG_LEVEL = 88"

definition at_level :: "int \<Rightarrow> (adaptlog \<Rightarrow> adaptlog option) \<Rightarrow> adaptlog \<Rightarrow> adaptlog option" where
  "at_level lv f L = (if lv \<le> LOGOG_LEVEL then f L else Some L)"

definition LOGOG_DEBUG :: "string \<Rightarrow> u64 \<Rightarrow> (unit \<Rightarrow> string) \<Rightarrow> adaptlog \<Rightarrow> adaptlog option" where
  "LOGOG_DEBUG self flg msg = at_level 80 (log_message self flg ''DEBUG'' msg)"

definition LOGOG_INFO :: "string \<Rightarrow> u64 \<Rightarrow> (unit \<Rightarrow> string) \<Rightarrow> adaptlog \<Rightarrow> adaptlog option" where
  "LOGOG_INFO self flg msg = at_level 72 (log_message self flg ''INFO'' msg)"

definition LOGOG_ALERT :: "string \<Rightarrow> u64 \<Rightarrow> (unit \<Rightarrow> string) \<Rightarrow> adaptlog \<Rightarrow> adaptlog option" where
  "LOGOG_ALERT self flg msg = at_level 16 (log_message self flg ''ALERT'' msg)"

definition LOGOG_INTERNAL :: "string \<Rightarrow> u64 \<Rightarrow> (unit \<Rightarrow> string) \<Rightarrow> adaptlog \<Rightarrow> adaptlog option" where
  "LOGOG_INTERNAL self flg msg = at_level 8 (log_message self flg ''INTERNAL'' msg)"

text \<open>The groups \<open>main\<close> switches on, in its order.\<close>

definition main_masks :: "u64 list" where
  "main_masks = [ALOG_DALL OR ALOG_MSG OR ALOG_TMSG,
     ALOG_INFO OR ALOG_INTERNAL OR ALOG_TCONC OR ALOG_TLCK OR ALOG_TMSG OR ALOG_TCONN, ALOG_TCONN,
     ALOG_INTERNAL OR ALOG_INFO OR ALOG_ALERT OR ALOG_TERR OR ALOG_PARSE, ALOG_CLIENT, ALOG_COMM, ALOG_PROCMD,
     ALOG_KVDATA OR ALOG_TCONN, ALOG_TERR, ALOG_TCONN OR ALOG_TMSG OR ALOG_MEM, ALOG_TCONC]"

definition main_log :: "bool \<Rightarrow> adaptlog" where
  "main_log ok = fold (\<lambda>m L. snd (adaptlog_Init m L)) main_masks (adaptlog_new ''log'' ok)"

definition log_on :: "u64 \<Rightarrow> adaptlog \<Rightarrow> bool" where
  "log_on flg L \<longleftrightarrow> flg AND alogVal L \<noteq> 0"

lemma main_log_val: "alogVal (main_log ok) = 0x1FFC1F"
  by (simp add: main_log_def main_masks_def adaptlog_Init_def adaptlog_new_def alog_defs Let_def)

subsection \<open>hexdump1\<close>

fun hex :: "nat \<Rightarrow> string" where
  "hex n = (let d = n mod 16; c = (if d < 10 then char_of (48 + d) else char_of (87 + d))
     in if n < 16 then [c] else hex (n div 16) @ [c])"

declare hex.simps [simp del]

text \<open>\<open>sprintf("%0wx")\<close>\<close>

definition hex_pad :: "nat \<Rightarrow> nat \<Rightarrow> string" where
  "hex_pad w n = (let s = hex n in replicate (w - length s) (CHR ''0'') @ s)"

definition put_at :: "string \<Rightarrow> nat \<Rightarrow> string \<Rightarrow> string" where
  "put_at buf i s = take i buf @ s @ drop (i + length s) buf"

text \<open>
  The loop over the bytes: \<open>i\<close> is the index of the first byte of the list, \<open>j\<close> its column. \<open>temp\<close> has
  eight bytes.
\<close>

fun hex_loop :: "char list \<Rightarrow> nat \<Rightarrow> nat \<Rightarrow> string \<Rightarrow> string list \<Rightarrow> (nat \<times> string \<times> string list) result" where
  "hex_loop [] i j buf out = Inr (j, buf, out)"
| "hex_loop (c # cs) i j buf out =
     rbind (if j = 16 then
              (let temp = ''+'' @ hex_pad 4 i in
               if 8 \<le> length temp then Inl OutOfBounds
               else Inr (0, put_at (put_at buf 0 (replicate 74 SP)) 0 (take 5 temp), out @ [cstr buf]))
            else Inr (j, buf, out)) (\<lambda>(j, buf, out).
       let buf = put_at buf (8 + j * 3) (hex_pad 2 (of_char c));
           buf = buf[58 + j := (if 31 < (of_char c :: nat) \<and> (of_char c :: nat) < 127 then c else CHR ''.'')]
       in hex_loop cs (i + 1) (j + 1) buf out)"

definition hex_first :: string where
  "hex_first = put_at (replicate 74 SP @ LF # replicate 53 NUL) 0 ''+0000''"

text \<open>
  \<open>hexdump1\<close> with the text \<open>ptr\<close> of the address: what it prints, and the log with its mutex. The return
  for an empty block does not release the mutex.
\<close>

definition hexdump1 :: "string \<Rightarrow> char list \<Rightarrow> int \<Rightarrow> string \<Rightarrow> bool \<Rightarrow> adaptlog \<Rightarrow> (string list \<times> adaptlog) result option" where
  "hexdump1 ptr data sz caption flag L =
     (if \<not> flag then Some (Inr ([], L))
      else if logmutex L then None
      else
        (let L = L\<lparr>logmutex := True\<rparr>;
             head = ''---------> '' @ caption @ '' <--------- ('' @ (if sz < 0 then ''-'' else []) @ dec (nat \<bar>sz\<bar>)
               @ '' bytes from '' @ ptr @ '')'' @ [LF] in
         if sz \<le> 0 then Some (Inr ([head], L))
         else if length data < nat sz then Some (Inl OutOfBounds)
         else
           (let ruler = ''        +0          +4          +8          +c            0   4   8   c   '' @ [LF] in
            Some (rbind (hex_loop (take (nat sz) data) 0 0 hex_first [head, ruler]) (\<lambda>(j, buf, out).
              Inr (if j \<noteq> 0 then out @ [cstr buf] else out, L\<lparr>logmutex := False\<rparr>))))))"

text \<open>
  The \<open>hexdump\<close> that the program calls has an empty body.
\<close>

definition hexdump :: "char list \<Rightarrow> int \<Rightarrow> string \<Rightarrow> bool \<Rightarrow> adaptlog \<Rightarrow> adaptlog" where
  "hexdump data sz caption flag L = L"

subsection \<open>Properties\<close>

lemma main_log_simps [simp]: "logmutex (main_log ok) = False" "log_lines (main_log ok) = []"
  by (simp_all add: main_log_def main_masks_def adaptlog_Init_def adaptlog_new_def Let_def)

lemma main_log_bits: "bit (0x1FFC1F :: u64) i \<longleftrightarrow> i \<in> {0..4} \<union> {10..20}"
proof -
  have m: "(0x1FFC1F :: u64) = mask 5 OR push_bit 10 (mask 11)" by (simp add: mask_eq_exp_minus_1)
  show ?thesis unfolding m by (auto simp: bit_simps)
qed

text \<open>
  \<open>main\<close> switches on every log group but those of the hash table, the tokenizer, the queues and the
  thread objects (bits 5 to 9). A debug statement of a group that is on is evaluated, with the calls in its
  arguments, and adds its line; any other one does nothing.
\<close>
theorem main_log_groups:
  "log_on flg (main_log ok) \<longleftrightarrow> (\<exists>i \<in> {0..4} \<union> {10..20}. bit flg i)
   \<and> LOGOG_DEBUG self flg msg (main_log ok) = Some (if log_on flg (main_log ok)
       then (main_log ok)\<lparr>log_lines := [''DEBUG:'' @ self @ '':'' @ msg () @ [LF]]\<rparr> else main_log ok)"
proof -
  have "flg AND 0x1FFC1F \<noteq> 0 \<longleftrightarrow> (\<exists>i. bit flg i \<and> bit (0x1FFC1F :: u64) i)"
    by (auto simp: bit_eq_iff bit_and_iff)
  then have "log_on flg (main_log ok) \<longleftrightarrow> (\<exists>i \<in> {0..4} \<union> {10..20}. bit flg i)"
    unfolding log_on_def main_log_val main_log_bits by blast
  moreover have "LOGOG_DEBUG self flg msg (main_log ok) = Some (if log_on flg (main_log ok)
       then (main_log ok)\<lparr>log_lines := [''DEBUG:'' @ self @ '':'' @ msg () @ [LF]]\<rparr> else main_log ok)"
    by (simp add: LOGOG_DEBUG_def at_level_def LOGOG_LEVEL_def log_message_def log_on_def)
  ultimately show ?thesis by simp
qed

text \<open>
  A dump of an empty block returns with the log mutex locked: whatever is logged later, in a group that
  is on, waits for ever.
\<close>
theorem hexdump1_keeps_the_mutex:
  assumes "\<not> logmutex L" "sz \<le> 0" "log_on flg L"
  shows "\<exists>out L'. hexdump1 ptr data sz caption True L = Some (Inr (out, L'))
    \<and> LOGOG_DEBUG self flg msg L' = None \<and> hexdump1 ptr data sz caption True L' = None"
  using assms by (simp add: hexdump1_def LOGOG_DEBUG_def at_level_def LOGOG_LEVEL_def log_message_def log_on_def Let_def)

lemma hexdump1_keeps_the_mutex_witness:
  "\<exists>out L'. hexdump1 ''0x10'' [] 0 ''body'' True (main_log True) = Some (Inr (out, L'))
    \<and> LOGOG_DEBUG ''1'' ALOG_COMM (\<lambda>_. ''x'') L' = None \<and> hexdump1 ''0x10'' [] 0 ''body'' True L' = None"
  by (rule hexdump1_keeps_the_mutex) (simp_all add: log_on_def main_log_val ALOG_COMM_def)

end
