(* ===== verification/Startup.thy ===== *)
theory Startup
  imports CommThread Logging
begin

section \<open>Start of the server (acached.cpp, the sockets of aUtil.cpp)\<close>

text \<open>
  \<open>main\<close> opens the listening socket, switches on the log, makes the shared state and accepts connections.
  What the system calls answer is an argument.
\<close>

subsection \<open>The listening socket\<close>

record addrinfo =
  ai_flags :: int
  ai_family :: int
  ai_socktype :: int
  ai_protocol :: int

text \<open>
  The hints for \<open>getaddrinfo\<close>. \<open>memset(&hints, sizeof(struct addrinfo), 0x0)\<close> writes as many bytes as its
  third argument says, none: the fields that are not set afterwards are what the stack held (\<open>junk\<close>).
\<close>

definition hints_of :: "addrinfo \<Rightarrow> addrinfo" where
  "hints_of junk = junk\<lparr>ai_socktype := 1, ai_flags := 1, ai_family := 0\<rparr>"

text \<open>
  For one of the addresses found: its family, and what \<open>socket\<close>, the option \<open>IPV6_V6ONLY\<close>, \<open>bind\<close> and
  \<open>listen\<close> answer, where needed with \<open>errno\<close>. The other options only print when they fail.
\<close>

record address =
  ad_family :: int
  ad_socket :: "int \<times> int"
  ad_v6only :: int
  ad_bind :: "int \<times> int"
  ad_listen :: int

record sockets =
  so_closed :: "int list"
  so_listening :: "int list"

definition close_fd :: "int \<Rightarrow> sockets \<Rightarrow> sockets" where
  "close_fd fd s = s\<lparr>so_closed := fd # so_closed s\<rparr>"

abbreviation (input) AF_INET :: int where "AF_INET \<equiv> 2"
abbreviation (input) AF_INET6 :: int where "AF_INET6 \<equiv> 10"
abbreviation (input) EMFILE :: int where "EMFILE \<equiv> 24"
abbreviation (input) EADDRINUSE :: int where "EADDRINUSE \<equiv> 98"

definition new_socket :: "address \<Rightarrow> int \<times> int" where
  "new_socket a = (if fst (ad_socket a) = - 1 then (- 1, snd (ad_socket a)) else ad_socket a)"

text \<open>
  The loop over the addresses. \<open>sfd\<close> is the variable of that name, unset at first. Every address that can be
  used gets a socket of its own; the last value of \<open>sfd\<close> is returned.
\<close>

fun ss_loop :: "address list \<Rightarrow> int option \<Rightarrow> sockets \<Rightarrow> (int \<times> sockets) result" where
  "ss_loop [] sfd s = (case sfd of None \<Rightarrow> Inl Uninitialised | Some fd \<Rightarrow> Inr (fd, s))"
| "ss_loop (a # as) sfd s =
     (let (fd, err) = new_socket a in
      if fd = - 1 then (if err = EMFILE then Inl (Exits 1) else ss_loop as (Some fd) s)
      else if ad_family a = AF_INET6 \<and> ad_v6only a \<noteq> 0 then ss_loop as (Some fd) (close_fd fd s)
      else if fst (ad_bind a) = - 1 then
        (if snd (ad_bind a) \<noteq> EADDRINUSE then Inr (1, close_fd fd s) else ss_loop as (Some fd) (close_fd fd s))
      else if ad_listen a = - 1 then Inr (1, close_fd fd s)
      else ss_loop as (Some fd) (s\<lparr>so_listening := fd # so_listening s\<rparr>))"

text \<open>\<open>gai\<close> is \<open>getaddrinfo\<close>: from the host, the port as text and the hints to an error or the addresses.\<close>

definition server_socket :: "(string \<Rightarrow> string \<Rightarrow> addrinfo \<Rightarrow> int \<times> address list) \<Rightarrow> addrinfo \<Rightarrow> string \<Rightarrow> int \<Rightarrow>
    sockets \<Rightarrow> (int \<times> sockets) result" where
  "server_socket gai junk host port s =
     (let port = (if port = - 1 then 0 else port);
          (error, ads) = gai host (take 31 (dec_int port)) (hints_of junk)
      in if error \<noteq> 0 then Inr (1, s) else ss_loop ads None s)"

text \<open>
  \<open>setNonblocking\<close>: from what \<open>F_GETFL\<close> answers to the flags that are set. \<open>vperror\<close> prints a buffer that
  was never written. \<open>get_in_addr\<close> gives the address inside a socket address at \<open>sa\<close>.
\<close>

definition setNonblocking :: "int \<Rightarrow> int" where
  "setNonblocking getfl = (let flags = (if getfl = - 1 then 0 else getfl) in flags OR 2048)"

definition vperror :: "string \<Rightarrow> int \<Rightarrow> int result" where
  "vperror fmt errno = (let buf = (None :: string option) in
     case buf of None \<Rightarrow> Inl Uninitialised | Some _ \<Rightarrow> Inr errno)"

definition get_in_addr :: "nat \<Rightarrow> int \<Rightarrow> nat" where
  "get_in_addr sa family = (if family = AF_INET then sa + 4 else sa + 8)"

subsection \<open>main\<close>

fun accept_loop :: "int \<Rightarrow> int list \<Rightarrow> nat \<times> server \<Rightarrow> (nat \<times> server) result" where
  "accept_loop sockfd [] s = Inr s"
| "accept_loop sockfd (fd # fds) s = rbind (accept_round sockfd fd s) (accept_loop sockfd fds)"

text \<open>
  \<open>main\<close> up to the point where \<open>fds\<close>, the answers of \<open>accept\<close>, are used up: \<open>sig\<close> is the answer of
  \<open>sigignore\<close>, \<open>logok\<close> says whether the log file could be opened, \<open>cores\<close> is the number of cores. The result
  of \<open>server_socket\<close> is not looked at.
\<close>

definition acached_main :: "int \<Rightarrow> bool \<Rightarrow> (string \<Rightarrow> string \<Rightarrow> addrinfo \<Rightarrow> int \<times> address list) \<Rightarrow> addrinfo \<Rightarrow>
    int \<Rightarrow> aConn \<Rightarrow> int list \<Rightarrow> (adaptlog \<times> sockets \<times> nat \<times> server) result" where
  "acached_main sig logok gai junk cores junkc fds =
     (if sig = - 1 then Inl (Exits 1)
      else rbind (server_socket gai junk ''localhost'' 11211 \<lparr>so_closed = [], so_listening = []\<rparr>) (\<lambda>(sockfd, s).
        rbind (acacheSGA_new 1 cores junkc) (\<lambda>w.
        rbind (accept_loop sockfd fds (0, w)) (\<lambda>r. Inr (main_log logok, s, r)))))"

subsection \<open>Properties\<close>

text \<open>What becomes of one address, when it does not end the loop: it listens, or not.\<close>

definition passed_over :: "address \<Rightarrow> bool" where
  "passed_over a \<longleftrightarrow> fst (ad_socket a) = - 1 \<and> snd (ad_socket a) \<noteq> EMFILE
     \<or> fst (ad_socket a) \<noteq> - 1 \<and> (ad_family a = AF_INET6 \<and> ad_v6only a \<noteq> 0 \<or> ad_bind a = (- 1, EADDRINUSE))"

definition listens :: "address \<Rightarrow> bool" where
  "listens a \<longleftrightarrow> fst (ad_socket a) \<noteq> - 1 \<and> \<not> (ad_family a = AF_INET6 \<and> ad_v6only a \<noteq> 0)
     \<and> fst (ad_bind a) \<noteq> - 1 \<and> ad_listen a \<noteq> - 1"

lemma ss_loop_all:
  assumes "\<forall>a \<in> set as. passed_over a \<or> listens a" "as \<noteq> [] \<or> sfd \<noteq> None"
  shows "\<exists>s'. ss_loop as sfd s = Inr (if as = [] then the sfd else fst (ad_socket (last as)), s')
    \<and> so_listening s' = rev (map (\<lambda>a. fst (ad_socket a)) (filter listens as)) @ so_listening s"
  using assms
proof (induction as arbitrary: sfd s)
  case (Cons a as)
  have fd: "fst (new_socket a) = fst (ad_socket a)" "snd (new_socket a) = snd (ad_socket a)"
    by (simp_all add: new_socket_def)
  show ?case
  proof (cases "listens a")
    case True
    let ?s = "s\<lparr>so_listening := fst (ad_socket a) # so_listening s\<rparr>"
    have "ss_loop (a # as) sfd s = ss_loop as (Some (fst (ad_socket a))) ?s"
      using True fd by (auto simp: listens_def Let_def split: prod.splits)
    moreover have "\<exists>s'. ss_loop as (Some (fst (ad_socket a))) ?s
        = Inr (if as = [] then fst (ad_socket a) else fst (ad_socket (last as)), s')
      \<and> so_listening s' = rev (map (\<lambda>a. fst (ad_socket a)) (filter listens as)) @ so_listening ?s"
      by (cases "as = []") (use Cons.IH [of "Some (fst (ad_socket a))" ?s] Cons.prems in simp_all)
    ultimately show ?thesis using True by auto
  next
    case False
    then have p: "passed_over a" using Cons.prems by simp
    let ?fd = "fst (ad_socket a)"
    define s1 where "s1 = (if ?fd = - 1 then s else close_fd ?fd s)"
    have s1: "ss_loop (a # as) sfd s = ss_loop as (Some ?fd) s1" "so_listening s1 = so_listening s"
      using p fd by (auto simp: passed_over_def s1_def close_fd_def Let_def split: prod.splits)
    have "\<exists>s'. ss_loop as (Some (fst (ad_socket a))) s1
        = Inr (if as = [] then fst (ad_socket a) else fst (ad_socket (last as)), s')
      \<and> so_listening s' = rev (map (\<lambda>a. fst (ad_socket a)) (filter listens as)) @ so_listening s1"
      by (cases "as = []") (use Cons.IH [of "Some (fst (ad_socket a))" s1] Cons.prems in simp_all)
    then show ?thesis using False s1 by auto
  qed
qed (auto split: option.split)


definition two_addresses :: "address list" where
  "two_addresses = [\<lparr>ad_family = AF_INET, ad_socket = (3, 0), ad_v6only = 0, ad_bind = (0, 0), ad_listen = 0\<rparr>,
     \<lparr>ad_family = AF_INET6, ad_socket = (- 1, 97), ad_v6only = 0, ad_bind = (0, 0), ad_listen = 0\<rparr>]"


text \<open>The sockets that \<open>accept\<close> gives go to the two comm threads in turn.\<close>

definition announced :: "int list \<Rightarrow> MsgPipe_t list" where
  "announced fds = map (\<lambda>fd. \<lparr>initType = CHR ''I'', pipe_fd = fd\<rparr>) fds"

fun alternate :: "nat \<Rightarrow> nat \<Rightarrow> 'a list \<Rightarrow> 'a list" where
  "alternate i k [] = []"
| "alternate i k (x # xs) = (if i = k then x # alternate (1 - i) k xs else alternate (1 - i) k xs)"

lemma turn_mod_2: "i < 2 \<Longrightarrow> (1 - i + j) mod 2 = (i + Suc j) mod (2 :: nat)"
  by (drule less_2_cases, elim disjE) simp_all

lemma accept_loop_turns:
  assumes "aTcomm w = [p0, p1]" "p0 \<noteq> p1" "i < 2"
  shows "\<exists>w'. accept_loop sockfd fds (i, w) = Inr ((i + length fds) mod 2, w') \<and> aTcomm w' = [p0, p1]
    \<and> pipes w' p0 = pipes w p0 @ announced (alternate i 0 fds) \<and> pipes w' p1 = pipes w p1 @ announced (alternate i 1 fds)
    \<and> closed w' = replicate (count_list fds (- 1)) sockfd @ closed w"
  using assms
proof (induction fds arbitrary: i w)
  case Nil
  then show ?case by (simp add: announced_def)
next
  case (Cons fd fds)
  let ?p = "if i = 0 then p0 else p1"
  let ?w = "(if fd = - 1 then w\<lparr>closed := sockfd # closed w\<rparr> else w)\<lparr>pipes := (pipes w)(?p := pipes w ?p @ announced [fd])\<rparr>"
  have i: "i = 0 \<or> i = 1" using Cons.prems(3) by auto
  have one: "accept_round sockfd fd (i, w) = Inr (1 - i, ?w)"
    using i Cons.prems(1) by (auto simp: accept_round_def announced_def)
  have comm: "aTcomm ?w = [p0, p1]" and less: "1 - i < 2" using Cons.prems(1) i by auto
  obtain w' where w': "accept_loop sockfd fds (1 - i, ?w) = Inr ((1 - i + length fds) mod 2, w')" "aTcomm w' = [p0, p1]"
    "pipes w' p0 = pipes ?w p0 @ announced (alternate (1 - i) 0 fds)"
    "pipes w' p1 = pipes ?w p1 @ announced (alternate (1 - i) 1 fds)"
    "closed w' = replicate (count_list fds (- 1)) sockfd @ closed ?w"
    using Cons.IH [OF comm Cons.prems(2) less] by blast
  have m: "(1 - i + length fds) mod 2 = (i + length (fd # fds)) mod 2" using turn_mod_2 [OF Cons.prems(3)] by simp
  show ?case
    using w' i Cons.prems(2) one unfolding m
    by (intro exI [of _ w']) (auto simp: announced_def replicate_append_same)
qed



end
