(* ===== verification/Boot.thy ===== *)
theory Boot
  imports Session Startup
begin

section \<open>From the start of the server to its first request\<close>

text \<open>
  The server that \<open>main\<close> makes on a machine with two cores, the start of its comm threads, and the
  connections that they take from their pipes: this gives a server between requests, without items,
  to which the results on sessions apply.
\<close>

subsection \<open>What the constructor makes\<close>

text \<open>What the loops of the constructor leave alone, besides the settings.\<close>

definition made :: "server \<Rightarrow> server \<Rightarrow> bool" where
  "made w w' \<longleftrightarrow> ahashtableptr w' = ahashtableptr w \<and> events w' = events w \<and> pipes w' = pipes w"

lemma made_loops: "made w (times n new_msg w)" "made w (times n (new_conn j) w)" "made w (times n new_thread w)"
    "made w (times n new_comm w)"
  by (induction n) (simp_all add: made_def new_msg_def new_conn_def new_thread_def new_comm_def)

lemma made_trans: "made w w1 \<Longrightarrow> made w1 w2 \<Longrightarrow> made w w2"
  by (simp add: made_def)

lemma comm_loops: "aTcomm (times n new_msg w) = aTcomm w" "aTcomm (times n (new_conn j) w) = aTcomm w"
    "aTcomm (times n new_thread w) = aTcomm w" "aTcomm (times n new_comm w) = aTcomm w @ [brk w..<brk w + n]"
proof -
  show "aTcomm (times n new_msg w) = aTcomm w" "aTcomm (times n (new_conn j) w) = aTcomm w"
    "aTcomm (times n new_thread w) = aTcomm w"
    by (induction n) (simp_all add: new_msg_def new_conn_def new_thread_def)
  have "aTcomm (times n new_comm w) = aTcomm w @ [brk w..<brk w + n] \<and> brk (times n new_comm w) = brk w + n"
    by (induction n) (simp_all add: new_comm_def new_thread_def)
  then show "aTcomm (times n new_comm w) = aTcomm w @ [brk w..<brk w + n]" ..
qed

lemma new_kvqs_made:
  "new_kvqs n is w = Inr w' \<Longrightarrow> made w w' \<and> conns w' = conns w \<and> aTcomm w' = aTcomm w"
proof (induction "is" arbitrary: w)
  case (Cons i "is")
  obtain w1 where w1: "new_kvq n i w = Inr w1" "new_kvqs n is w1 = Inr w'"
    using Cons.prems by (cases "new_kvq n i w") auto
  let ?w = "times n new_thread (w\<lparr>brk := Suc (brk w)\<rparr>)"
  have "made w ?w \<and> conns ?w = conns w \<and> aTcomm ?w = aTcomm w"
    using made_loops(3) [of "w\<lparr>brk := Suc (brk w)\<rparr>" n] by (simp add: made_def comm_loops constructor_frame)
  moreover have "made ?w w1 \<and> conns w1 = conns ?w \<and> aTcomm w1 = aTcomm ?w"
    using w1(1) by (auto simp: new_kvq_def Let_def made_def split: if_splits)
  ultimately show ?case using Cons.IH [OF w1(2)] made_trans by simp metis
qed (simp add: made_def)

lemma new_conns:
  "conns (times n (new_conn j) w) p = (if brk w \<le> p \<and> p < brk w + n then Some (aConn_new 401 (- 1) j) else conns w p)"
proof (induction n)
  case (Suc n)
  have "conns (new_conn j v) p = (if p = brk v then Some (aConn_new 401 (- 1) j) else conns v p)" for v
    by (simp add: new_conn_def)
  then have "conns (times (Suc n) (new_conn j) w) p
      = (if p = brk w + n then Some (aConn_new 401 (- 1) j) else conns (times n (new_conn j) w) p)"
    by (simp add: new_conn_kv(3))
  with Suc.IH show ?case by auto
qed auto

text \<open>The address of the first connection, and how many there are.\<close>

abbreviation (input) conn_base :: ptr where "conn_base \<equiv> 6 + INIT_COUNT_GLOBAL_MSG"

lemma acacheSGA_two_cores:
  "\<exists>w p. acacheSGA_new t 2 junk = Inr w \<and> kv_ready w \<and> queue_of w 0 = [] \<and> queue_of w 1 = []
     \<and> free_of (aFBSQGaConn w) = [conn_base..<conn_base + INIT_COUNT_GLOBAL_CONN]
     \<and> (\<forall>q \<in> {conn_base..<conn_base + INIT_COUNT_GLOBAL_CONN}. conns w q = Some (aConn_new 401 (- 1) junk))
     \<and> ahashtableptr w = ahashtable_new 65536 (floor_log2 128) \<and> aTcomm w = [p, Suc p] \<and> p \<noteq> NULL
     \<and> events w = Map.empty \<and> pipes w = (\<lambda>_. [])"
proof -
  let ?s = "sga_settings t 2"
  let ?w1 = "times INIT_COUNT_GLOBAL_CONN (new_conn junk) (times INIT_COUNT_GLOBAL_MSG new_msg ?s)"
  obtain w where w: "acacheSGA_new t 2 junk = Inr w" "aTSQGKVdata w = replicate 2 (Some (adaptSharedQ_new 404, 1))"
    "free_of (aFBSQGaMsg w) = [6..<6 + INIT_COUNT_GLOBAL_MSG]" "busy_of (aFBSQGaMsg w) = []"
    "free_of (aFBSQGaConn w) = [conn_base..<conn_base + INIT_COUNT_GLOBAL_CONN]"
    "conn_base + INIT_COUNT_GLOBAL_CONN \<le> brk w" "numCores w = 2" "sga_hashsize w = 65536" "sga_hashmask w = 65535"
    using acacheSGA_new_ready [of t 0 junk] by auto
  have "\<exists>w2. new_kvqs (nat (2 sdiv 2)) [0..<nat (2 sdiv 2 + 1)] ?w1 = Inr w2 \<and> w = times 2 new_comm w2"
    using w(1) unfolding acacheSGA_new_eq [of 2, simplified] by (auto simp: rbind_eq_Inr_iff)
  then obtain w2 where w2: "new_kvqs (nat (2 sdiv 2)) [0..<nat (2 sdiv 2 + 1)] ?w1 = Inr w2" "w = times 2 new_comm w2" by blast
  note k = new_kvqs_made [OF w2(1)]
  have "made ?s ?w1" using made_loops(1,2) made_trans by blast
  then have "made ?s w" using k made_loops(4) made_trans unfolding w2(2) by blast
  then have "ahashtableptr w = ahashtable_new 65536 (floor_log2 128)" "events w = Map.empty" "pipes w = (\<lambda>_. [])"
    by (simp_all add: made_def sga_settings_def Let_def)
  moreover have "aTcomm w2 = []" using k by (simp add: comm_loops sga_settings_def Let_def)
  then have "aTcomm w = [brk w2..<brk w2 + 2]" unfolding w2(2) comm_loops by simp
  then have "aTcomm w = [brk w2, Suc (brk w2)]" by (simp add: numeral_2_eq_2)
  moreover have "brk w = brk w2 + 2" unfolding w2(2) new_comm_kv ..
  then have "brk w2 \<noteq> NULL" using w(6) INIT_COUNT_pos by simp
  moreover have "conns w q = Some (aConn_new 401 (- 1) junk)"
    if "q \<in> {conn_base..<conn_base + INIT_COUNT_GLOBAL_CONN}" for q
  proof -
    have "conns w = conns ?w1" using k unfolding w2(2) new_comm_kv by simp
    moreover have "brk (times INIT_COUNT_GLOBAL_MSG new_msg ?s) = conn_base"
      using new_msgs [of INIT_COUNT_GLOBAL_MSG ?s] by (simp add: sga_settings_def Let_def)
    ultimately show ?thesis using that by (simp add: new_conns)
  qed
  moreover have "kv_ready w" using w by (auto simp: kv_ready_def msg_pool_ok_def pool_ok_def numeral_2_eq_2)
  moreover have "queue_of w 0 = []" "queue_of w 1 = []"
    using w(2) by (simp_all add: queue_of_def numeral_2_eq_2 adaptSharedQ_new_def)
  ultimately show ?thesis using w(1,5) by blast
qed

subsection \<open>Connections\<close>

definition conn_fresh :: "aConn \<Rightarrow> bool" where
  "conn_fresh c \<longleftrightarrow> conn_free c \<and> wire c = []"

lemma conn_new_fresh:
  assumes "length (req_desc (iovReq junk)) = REQ_SIZE" "length (cmd_key (cmd junk)) = 256"
  shows "conn_fresh (aConn_new t fd junk)"
proof -
  have ok: "conn_ok (aConn_new t fd junk)" by (rule new_ok [OF assms])
  moreover have "idle (aConn_new t fd junk)"
    using ok by (simp add: idle_def) (simp add: aConn_new_def aConn_Reset_def nth_append)
  moreover have "sender_at 0 0 (aConn_new t fd junk)"
    using ok by (simp add: sender_at_def replying_def settled_def)
      (simp add: aConn_new_def aConn_Reset_def adaptSharedQ_new_def)
  ultimately show ?thesis
    by (simp add: conn_fresh_def conn_free_def) (simp add: aConn_new_def aConn_Reset_def)
qed

lemma Init_fresh:
  assumes "conn_fresh c"
  shows "conn_fresh ((aConn_Init c t fd)\<lparr>aTcommptr := x, commRead_wptr := y, ev_loop := z\<rparr>)"
proof -
  let ?d = "(aConn_Init c t fd)\<lparr>aTcommptr := x, commRead_wptr := y, ev_loop := z\<rparr>"
  have c: "conn_ok c" "dataPendingRead c = 0" "sender_at 0 0 c" "wire c = []"
    using assms by (simp_all add: conn_fresh_def conn_free_def idle_def)
  have ok: "conn_ok ?d" using c(1) by (simp add: conn_ok_def aConn_Init_def aConn_Reset_def)
  moreover have "idle ?d" using ok c(2) by (simp add: idle_def) (simp add: aConn_Init_def aConn_Reset_def nth_append)
  moreover have "sender_at 0 0 ?d"
    using ok c(3) by (simp add: sender_at_def replying_def) (simp add: aConn_Init_def aConn_Reset_def)
  ultimately show ?thesis using c(4)
    by (simp add: conn_fresh_def conn_free_def) (simp add: aConn_Init_def aConn_Reset_def)
qed

text \<open>
  A server without items that has taken the connections \<open>L\<close>, each with its event and socket. No event has an
  address that was not handed out.
\<close>

definition opened :: "server \<Rightarrow> (ptr \<times> ptr \<times> int) list \<Rightarrow> bool" where
  "opened w L \<longleftrightarrow> server_free w (\<lambda>_. []) \<and> distinct (map fst L @ free_of (aFBSQGaConn w))
     \<and> (\<forall>p \<in> set (free_of (aFBSQGaConn w)). p \<noteq> NULL \<and> (\<exists>c. conns w p = Some c \<and> conn_fresh c))
     \<and> (\<forall>(ac, ev, fd) \<in> set L. \<exists>c. client_at w ev ac c \<and> conn_fresh c \<and> cSockFd c = fd)
     \<and> (\<forall>ev. brk w \<le> ev \<longrightarrow> events w ev = None)"

definition kv_part :: "server \<Rightarrow> int \<times> int \<times> u32 \<times> (adaptSharedQ \<times> nat) option list \<times> adaptFBSharedQ \<times> ahashtable" where
  "kv_part w = (numCores w, sga_hashsize w, sga_hashmask w, aTSQGKVdata w, aFBSQGaMsg w, ahashtableptr w)"

lemma server_free_frame:
  assumes "server_free w B" "kv_part w' = kv_part w" "brk w \<le> brk w'"
  shows "server_free w' B"
proof -
  have k: "numCores w' = numCores w" "sga_hashsize w' = sga_hashsize w" "sga_hashmask w' = sga_hashmask w"
    "aTSQGKVdata w' = aTSQGKVdata w" "aFBSQGaMsg w' = aFBSQGaMsg w" "ahashtableptr w' = ahashtableptr w"
    using assms(2) by (simp_all add: kv_part_def)
  have "kv_ready w'" using assms(1,3) k by (auto simp: server_free_def kv_ready_def msg_pool_ok_def)
  moreover have "srv_store w' B"
    by (rule srv_store_grows [of w]) (use assms k in \<open>simp_all add: server_free_def\<close>)
  ultimately show ?thesis using assms(1) k by (simp add: server_free_def queue_of_def)
qed

lemma new_fd_opens:
  assumes w: "opened w L" and free: "free_of (aFBSQGaConn w) = p # ps"
  shows "\<exists>w'. new_fd e fd w = Inr w' \<and> opened w' (L @ [(p, brk w, fd)]) \<and> free_of (aFBSQGaConn w') = ps
    \<and> pipes w' = pipes w \<and> brk w' = Suc (brk w) \<and> (\<forall>q < brk w. events w' q = events w q)"
proof -
  obtain c where c: "p \<noteq> NULL" "conns w p = Some c" "conn_fresh c" using w free by (auto simp: opened_def)
  note al = aConnAllocate_cons [OF free]
  let ?f = "snd (aSGAAllocate (aFBSQGaConn w))"
  let ?d = "(aConn_Init c 402 fd)\<lparr>aTcommptr := ev_comm e, commRead_wptr := brk w, ev_loop := ev_base e\<rparr>"
  let ?w = "w\<lparr>aFBSQGaConn := ?f, conns := (conns w)(p \<mapsto> ?d),
      events := (events w)(brk w \<mapsto> \<lparr>ev_base = ev_base e, ev_comm = ev_comm e, ev_aC = p\<rparr>),
      brk := Suc (brk w), watched := insert (brk w) (watched w)\<rparr>"
  have run: "new_fd e fd w = Inr ?w" using c(1,2) by (simp add: new_fd_def al fetch_def Let_def upd_conn_def)
  have fs: "free_of ?f = ps" using aSGAAllocate_cons [OF free] by simp
  have d: "conn_fresh ?d" by (rule Init_fresh [OF c(3)])
  have dis: "distinct (map fst L @ p # ps)" using w free by (simp add: opened_def)
  have nev: "events w (brk w) = None" using w by (simp add: opened_def)
  have old: "\<exists>c. client_at ?w ev ac c \<and> conn_fresh c \<and> cSockFd c = s" if x: "(ac, ev, s) \<in> set L" for ac ev s
  proof -
    obtain b where b: "client_at w ev ac b" "conn_fresh b" "cSockFd b = s" using w x by (fastforce simp: opened_def)
    have "ac \<noteq> p" using x dis by force
    moreover have "ev \<noteq> brk w" using b(1) nev by (auto simp: client_at_def)
    ultimately show ?thesis using b by (auto simp: client_at_def)
  qed
  have new: "client_at ?w (brk w) p ?d" "cSockFd ?d = fd" by (simp_all add: client_at_def aConn_Init_def aConn_Reset_def)
  have "server_free ?w (\<lambda>_. [])" by (rule server_free_frame [of w]) (use w in \<open>simp_all add: opened_def kv_part_def\<close>)
  moreover have "\<forall>q \<in> set ps. q \<noteq> NULL \<and> (\<exists>c. conns ?w q = Some c \<and> conn_fresh c)"
    using w free dis by (auto simp: opened_def)
  moreover have "\<forall>(ac, ev, fd) \<in> set (L @ [(p, brk w, fd)]). \<exists>c. client_at ?w ev ac c \<and> conn_fresh c \<and> cSockFd c = fd"
    using old new d by fastforce
  moreover have "\<forall>ev. brk ?w \<le> ev \<longrightarrow> events ?w ev = None" using w by (simp add: opened_def)
  ultimately have "opened ?w (L @ [(p, brk w, fd)])" using dis fs by (simp add: opened_def)
  then show ?thesis using run fs by (intro exI [of _ ?w]) simp
qed

lemma ProcessNewFd_opens:
  assumes "opened w L" "length fds \<le> length (free_of (aFBSQGaConn w))"
  shows "\<exists>w' K. ProcessNewFd e (announced fds) w = Some (Inr w') \<and> opened w' (L @ K) \<and> map (\<lambda>x. snd (snd x)) K = fds
    \<and> length (free_of (aFBSQGaConn w')) = length (free_of (aFBSQGaConn w)) - length fds
    \<and> pipes w' = pipes w \<and> (\<forall>q < brk w. events w' q = events w q)"
  using assms
proof (induction fds arbitrary: w L)
  case Nil
  then show ?case by (intro exI [of _ w] exI [of _ "[]"]) (simp add: announced_def)
next
  case (Cons fd fds)
  obtain p ps where free: "free_of (aFBSQGaConn w) = p # ps" using Cons.prems(2) by (cases "free_of (aFBSQGaConn w)") simp_all
  obtain w1 where w1: "new_fd e fd w = Inr w1" "opened w1 (L @ [(p, brk w, fd)])" "free_of (aFBSQGaConn w1) = ps"
    "pipes w1 = pipes w" "brk w1 = Suc (brk w)" "\<forall>q < brk w. events w1 q = events w q"
    using new_fd_opens [OF Cons.prems(1) free] by blast
  have "length fds \<le> length (free_of (aFBSQGaConn w1))" using Cons.prems(2) w1(3) free by simp
  from Cons.IH [OF w1(2) this] obtain w' K where w': "ProcessNewFd e (announced fds) w1 = Some (Inr w')"
    "opened w' (L @ (p, brk w, fd) # K)" "map (\<lambda>x. snd (snd x)) K = fds"
    "length (free_of (aFBSQGaConn w')) = length ps - length fds" "pipes w' = pipes w1" "\<forall>q < brk w1. events w' q = events w1 q"
    using w1(3) by auto
  then show ?case using w1 free
    by (intro exI [of _ w'] exI [of _ "(p, brk w, fd) # K"]) (simp add: announced_def)
qed

subsection \<open>Start\<close>

lemma accept_loop_frame:
  "accept_loop sockfd fds (i, w) = Inr (j, w') \<Longrightarrow> \<exists>p c. w' = w\<lparr>pipes := p, closed := c\<rparr>"
proof (induction fds arbitrary: i w)
  case Nil
  then show ?case by (intro exI [of _ "pipes w"] exI [of _ "server.closed w"]) simp
next
  case (Cons fd fds)
  obtain i1 w1 where w1: "accept_round sockfd fd (i, w) = Inr (i1, w1)" "accept_loop sockfd fds (i1, w1) = Inr (j, w')"
    using Cons.prems by (cases "accept_round sockfd fd (i, w)") auto
  have "w1 = w\<lparr>pipes := pipes w1, closed := server.closed w1\<rparr>"
    using w1(1) by (auto simp: accept_round_def Let_def split: if_splits)
  then obtain p c where "w1 = w\<lparr>pipes := p, closed := c\<rparr>" by blast
  then show ?case using Cons.IH [OF w1(2)] by auto
qed

text \<open>
  The comm threads start, and the event loop of each calls \<open>commReadMain_cb\<close> when there is something in
  its pipe. \<open>base\<close> are the event loops, \<open>fd\<close> the descriptors of the pipes.
\<close>

definition comm_wakes :: "int \<Rightarrow> ptr \<Rightarrow> server \<Rightarrow> server result option" where
  "comm_wakes fd ev w = obind (Some (fetch (events w) ev)) (\<lambda>e.
     if pipes w (ev_comm e) = [] then Some (Inr w) else commReadMain_cb True fd ev w)"

definition comms_start :: "(nat \<Rightarrow> ptr) \<Rightarrow> (nat \<Rightarrow> int) \<Rightarrow> server \<Rightarrow> server result option" where
  "comms_start base fd w =
     (let (ev0, w) = thrComm (aTcomm w ! 0) (base 0) w; (ev1, w) = thrComm (aTcomm w ! 1) (base 1) w
      in obind (comm_wakes (fd 0) ev0 w) (comm_wakes (fd 1) ev1))"

lemma opened_pipes: "opened (w\<lparr>pipes := p, closed := c\<rparr>) L \<longleftrightarrow> opened w L" "opened (w\<lparr>pipes := p\<rparr>) L \<longleftrightarrow> opened w L"
proof -
  have f: "server_free (w\<lparr>pipes := p, closed := c\<rparr>) B \<longleftrightarrow> server_free w B"
    "server_free (w\<lparr>pipes := p\<rparr>) B \<longleftrightarrow> server_free w B" for w :: server and p c B
    by (simp_all add: server_free_def kv_ready_def msg_pool_ok_def srv_store_def srv_table_def queue_of_def)
  show "opened (w\<lparr>pipes := p, closed := c\<rparr>) L \<longleftrightarrow> opened w L" "opened (w\<lparr>pipes := p\<rparr>) L \<longleftrightarrow> opened w L"
    by (simp_all add: opened_def f client_at_def)
qed

lemma comm_wakes_opens:
  assumes w: "opened w L" "events w ev = Some e" "pipes w (ev_comm e) = announced fds" "ev < brk w"
    and n: "length fds \<le> 63" "length fds \<le> length (free_of (aFBSQGaConn w))"
  shows "\<exists>w' K. comm_wakes fd ev w = Some (Inr w') \<and> opened w' (L @ K) \<and> map (\<lambda>x. snd (snd x)) K = fds
    \<and> length (free_of (aFBSQGaConn w')) = length (free_of (aFBSQGaConn w)) - length fds
    \<and> (\<forall>p. p \<noteq> ev_comm e \<longrightarrow> pipes w' p = pipes w p) \<and> (\<forall>q < brk w. events w' q = events w q)"
proof (cases "fds = []")
  case True
  then show ?thesis using w by (intro exI [of _ w] exI [of _ "[]"]) (simp add: comm_wakes_def announced_def)
next
  case False
  let ?w = "w\<lparr>pipes := (pipes w)(ev_comm e := [])\<rparr>"
  have "length (announced fds) \<le> 63" "announced fds \<noteq> []" using n(1) False by (simp_all add: announced_def)
  then have run: "comm_wakes fd ev w = ProcessNewFd e (announced fds) ?w"
    using w(2,3) by (simp add: comm_wakes_def commReadMain_cb_def Let_def)
  have "opened ?w L" using w(1) opened_pipes(2) by simp
  from ProcessNewFd_opens [OF this, of fds e] n(2) show ?thesis unfolding run by fastforce
qed

lemma thrComm_opens:
  assumes "opened w L"
  shows "\<exists>w'. thrComm p b w = (brk w, w') \<and> opened w' L \<and> brk w' = Suc (brk w) \<and> pipes w' = pipes w
    \<and> aFBSQGaConn w' = aFBSQGaConn w \<and> aTcomm w' = aTcomm w
    \<and> events w' = (events w)(brk w \<mapsto> \<lparr>ev_base = b, ev_comm = p, ev_aC = NULL\<rparr>)"
proof -
  let ?w = "snd (thrComm p b w)"
  have nev: "events w (brk w) = None" using assms by (simp add: opened_def)
  have "server_free ?w (\<lambda>_. [])"
    by (rule server_free_frame [of w]) (use assms in \<open>simp_all add: opened_def kv_part_def thrComm_def\<close>)
  moreover have "client_at ?w ev ac c" if "client_at w ev ac c" for ev ac c
    using that nev by (auto simp: client_at_def thrComm_def)
  then have "\<forall>(ac, ev, fd) \<in> set L. \<exists>c. client_at ?w ev ac c \<and> conn_fresh c \<and> cSockFd c = fd"
    using assms by (fastforce simp: opened_def)
  ultimately have "opened ?w L" using assms by (simp add: opened_def thrComm_def)
  then show ?thesis by (simp add: thrComm_def)
qed

lemma acacheSGA_opened:
  assumes "length (req_desc (iovReq junk)) = REQ_SIZE" "length (cmd_key (cmd junk)) = 256"
  shows "\<exists>w p. acacheSGA_new t 2 junk = Inr w \<and> opened w [] \<and> length (free_of (aFBSQGaConn w)) = INIT_COUNT_GLOBAL_CONN
    \<and> aTcomm w = [p, Suc p] \<and> pipes w = (\<lambda>_. [])"
proof -
  obtain w p where w: "acacheSGA_new t 2 junk = Inr w" "kv_ready w" "queue_of w 0 = []" "queue_of w 1 = []"
    "free_of (aFBSQGaConn w) = [conn_base..<conn_base + INIT_COUNT_GLOBAL_CONN]"
    "\<forall>q \<in> {conn_base..<conn_base + INIT_COUNT_GLOBAL_CONN}. conns w q = Some (aConn_new 401 (- 1) junk)"
    "ahashtableptr w = ahashtable_new 65536 (floor_log2 128)" "aTcomm w = [p, Suc p]" "events w = Map.empty" "pipes w = (\<lambda>_. [])"
    using acacheSGA_two_cores by blast
  have "table_rel (ahashtableptr w) (\<lambda>_. [])"
    unfolding w(7) using new_rel [where n = 65536 and r = "floor_log2 128" and m = Map.empty]
    by (simp add: ahashtable_new_def Let_def)
  then have "srv_table w (\<lambda>_. [])" using w(2) by (simp add: srv_table_def kv_ready_def msg_pool_ok_def)
  then have "srv_store w (\<lambda>_. [])" unfolding srv_store_def by (intro exI [of _ "\<lambda>_. []"]) simp
  moreover have "\<forall>q \<in> set (free_of (aFBSQGaConn w)). q \<noteq> NULL \<and> (\<exists>c. conns w q = Some c \<and> conn_fresh c)"
    using w(6) conn_new_fresh [OF assms, of 401 "- 1"] unfolding w(5) by simp
  ultimately have "opened w []" using w(2-5,9) by (simp add: opened_def server_free_def)
  then show ?thesis using w(1,5,8,10) by auto
qed

lemma alternate_length: "i < 2 \<Longrightarrow> k < 2 \<Longrightarrow> length (alternate i k xs) = (length xs + (if i = k then 1 else 0)) div 2"
proof (induction xs arbitrary: i)
  case (Cons x xs)
  have "1 - i < 2" "(1 - i = k) \<longleftrightarrow> (i \<noteq> k)"
    using less_2_cases [OF Cons.prems(1)] less_2_cases [OF Cons.prems(2)] by auto
  then have "length (alternate (1 - i) k xs) = (length xs + (if i \<noteq> k then 1 else 0)) div 2"
    using Cons.IH [of "1 - i"] Cons.prems(2) by simp
  then show ?case by (cases "i = k") simp_all
qed auto

lemma comms_start_opens:
  assumes w: "opened w []" "aTcomm w = [p0, p1]" "p0 \<noteq> p1" "pipes w p0 = announced xs" "pipes w p1 = announced ys"
    and n: "length xs \<le> 63" "length ys \<le> 63" "length xs + length ys \<le> length (free_of (aFBSQGaConn w))"
  shows "\<exists>w' L. comms_start base fd w = Some (Inr w') \<and> opened w' L \<and> map (\<lambda>x. snd (snd x)) L = xs @ ys"
proof -
  obtain w1 where w1: "thrComm p0 (base 0) w = (brk w, w1)" "opened w1 []" "brk w1 = Suc (brk w)" "pipes w1 = pipes w"
    "aFBSQGaConn w1 = aFBSQGaConn w" "aTcomm w1 = aTcomm w"
    "events w1 = (events w)(brk w \<mapsto> \<lparr>ev_base = base 0, ev_comm = p0, ev_aC = NULL\<rparr>)"
    using thrComm_opens [OF w(1)] by blast
  obtain w2 where w2: "thrComm p1 (base 1) w1 = (brk w1, w2)" "opened w2 []" "brk w2 = Suc (brk w1)" "pipes w2 = pipes w1"
    "aFBSQGaConn w2 = aFBSQGaConn w1"
    "events w2 = (events w1)(brk w1 \<mapsto> \<lparr>ev_base = base 1, ev_comm = p1, ev_aC = NULL\<rparr>)"
    using thrComm_opens [OF w1(2)] by blast
  let ?e0 = "\<lparr>ev_base = base 0, ev_comm = p0, ev_aC = NULL\<rparr>" and ?e1 = "\<lparr>ev_base = base 1, ev_comm = p1, ev_aC = NULL\<rparr>"
  have e: "events w2 (brk w) = Some ?e0" "events w2 (brk w1) = Some ?e1" "brk w < brk w2" "brk w1 < brk w2"
    using w1(3,7) w2(3,6) by simp_all
  obtain w3 K where w3: "comm_wakes (fd 0) (brk w) w2 = Some (Inr w3)" "opened w3 K" "map (\<lambda>x. snd (snd x)) K = xs"
    "length (free_of (aFBSQGaConn w3)) = length (free_of (aFBSQGaConn w2)) - length xs" "pipes w3 p1 = pipes w2 p1"
    "events w3 (brk w1) = Some ?e1" "brk w1 < brk w3"
  proof -
    have p: "pipes w2 (ev_comm ?e0) = announced xs" using w(4) w1(4) w2(4) by simp
    have l: "length xs \<le> length (free_of (aFBSQGaConn w2))" using n(3) w1(5) w2(5) by simp
    from comm_wakes_opens [OF w2(2) e(1) p e(3) n(1) l, of "fd 0", unfolded append_Nil] obtain w3 K where w3: "comm_wakes (fd 0) (brk w) w2 = Some (Inr w3)"
      "opened w3 K" "map (\<lambda>x. snd (snd x)) K = xs"
      "length (free_of (aFBSQGaConn w3)) = length (free_of (aFBSQGaConn w2)) - length xs"
      "\<forall>p. p \<noteq> ev_comm ?e0 \<longrightarrow> pipes w3 p = pipes w2 p" "\<forall>q < brk w2. events w3 q = events w2 q"
      by blast
    have "events w3 (brk w1) = Some ?e1" using w3(6) e by simp
    moreover have "\<forall>ev. brk w3 \<le> ev \<longrightarrow> events w3 ev = None" using w3(2) by (simp add: opened_def)
    ultimately have "events w3 (brk w1) = Some ?e1" "brk w1 < brk w3" by (force, metis not_le option.distinct(1))
    moreover have "pipes w3 p1 = pipes w2 p1" using w3(5) w(3) by simp
    ultimately show thesis using that [OF w3(1-4)] by blast
  qed
  have l: "length ys \<le> length (free_of (aFBSQGaConn w3))" using w3(4) n(3) w1(5) w2(5) by simp
  have p: "pipes w3 (ev_comm ?e1) = announced ys" using w3(5) w(5) w1(4) w2(4) by simp
  obtain w4 K' where w4: "comm_wakes (fd 1) (brk w1) w3 = Some (Inr w4)" "opened w4 (K @ K')" "map (\<lambda>x. snd (snd x)) K' = ys"
    using comm_wakes_opens [OF w3(2,6) p w3(7) n(2) l, of "fd 1"] by blast
  have "comms_start base fd w = Some (Inr w4)"
    using w(2) w1(1,6) w2(1) w3(1) w4(1) by (simp add: comms_start_def)
  then show ?thesis using w4(2,3) w3(3) by (intro exI [of _ w4] exI [of _ "K @ K'"]) simp
qed

lemma opened_related:
  assumes "opened w L" "\<forall>k. length (malloc k) = k"
  shows "cache_related malloc (\<lambda>ac. fst (the (map_of L ac))) n (set (map fst L)) w (Map.empty, \<lambda>_. [])"
proof -
  have dis: "distinct (map fst L)" using assms(1) by (simp add: opened_def)
  have "\<exists>c. client_at w (fst (the (map_of L ac))) ac c \<and> conn_free c \<and> wire c = []" if "ac \<in> set (map fst L)" for ac
  proof -
    obtain ev fd where x: "(ac, ev, fd) \<in> set L" using \<open>ac \<in> set (map fst L)\<close> by auto
    then have "map_of L ac = Some (ev, fd)" using dis by simp
    then show ?thesis using x assms(1) by (fastforce simp: opened_def conn_fresh_def)
  qed
  moreover have "server_free w (\<lambda>_. [])" "sees (\<lambda>_. []) (bucket_of (ahashtableptr w)) n Map.empty"
    using assms(1) by (simp_all add: opened_def sees_def)
  ultimately show ?thesis using assms(2) by (auto simp: cache_related_def)
qed

subsection \<open>Properties\<close>

lemma started:
  assumes "sig \<noteq> - 1"
    and "server_socket gai junk ''localhost'' 11211 \<lparr>so_closed = [], so_listening = []\<rparr> = Inr (sockfd, s)"
    and "length (req_desc (iovReq junkc)) = REQ_SIZE" "length (cmd_key (cmd junkc)) = 256"
    and "length fds \<le> 126" "\<forall>k. length (malloc k) = k"
  shows "\<exists>i w w' acs event_of. acached_main sig logok gai junk 2 junkc fds = Inr (main_log logok, s, i, w)
    \<and> comms_start base fd w = Some (Inr w') \<and> distinct acs
    \<and> list_all2 (\<lambda>ac so. \<exists>c. conns w' ac = Some c \<and> cSockFd c = so) acs (alternate 0 0 fds @ alternate 0 1 fds)
    \<and> cache_related malloc event_of n (set acs) w' (Map.empty, \<lambda>_. [])"
proof -
  obtain w0 p where w0: "acacheSGA_new 1 2 junkc = Inr w0" "opened w0 []"
    "length (free_of (aFBSQGaConn w0)) = INIT_COUNT_GLOBAL_CONN" "aTcomm w0 = [p, Suc p]" "pipes w0 = (\<lambda>_. [])"
    using acacheSGA_opened [OF assms(3,4)] by blast
  obtain w1 where w1: "accept_loop sockfd fds (0, w0) = Inr ((0 + length fds) mod 2, w1)" "aTcomm w1 = [p, Suc p]"
    "pipes w1 p = pipes w0 p @ announced (alternate 0 0 fds)" "pipes w1 (Suc p) = pipes w0 (Suc p) @ announced (alternate 0 1 fds)"
    using accept_loop_turns [OF w0(4), of 0 sockfd fds] by auto
  obtain x c where f: "w1 = w0\<lparr>pipes := x, closed := c\<rparr>" using accept_loop_frame [OF w1(1)] by blast
  have o1: "opened w1 []" using w0(2) unfolding f opened_pipes .
  have p: "pipes w1 p = announced (alternate 0 0 fds)" "pipes w1 (Suc p) = announced (alternate 0 1 fds)"
    using w1(3,4) w0(5) by simp_all
  have n: "length (alternate 0 0 fds) \<le> 63" "length (alternate 0 1 fds) \<le> 63" 
    using assms(5) alternate_length [of 0 0 fds] alternate_length [of 0 1 fds] by simp_all
  have "length (free_of (aFBSQGaConn w1)) = 500" using w0(3) unfolding f by (simp add: INIT_COUNT_GLOBAL_CONN_def)
  then have l: "length (alternate 0 0 fds) + length (alternate 0 1 fds) \<le> length (free_of (aFBSQGaConn w1))" using n by simp
  have d: "p \<noteq> Suc p" by simp
  obtain w' L where w': "comms_start base fd w1 = Some (Inr w')" "opened w' L"
    "map (\<lambda>x. snd (snd x)) L = alternate 0 0 fds @ alternate 0 1 fds"
    using comms_start_opens [OF o1 w1(2) d p n l, where base = base and fd = fd] by blast
  have "acached_main sig logok gai junk 2 junkc fds = Inr (main_log logok, s, (0 + length fds) mod 2, w1)"
    using assms(1,2) w0(1) w1(1) by (simp add: acached_main_def)
  moreover have "\<forall>x \<in> set L. \<exists>c. conns w' (fst x) = Some c \<and> cSockFd c = snd (snd x)"
    using w'(2) by (fastforce simp: opened_def client_at_def)
  then have "list_all2 (\<lambda>ac so. \<exists>c. conns w' ac = Some c \<and> cSockFd c = so) (map fst L) (map (\<lambda>x. snd (snd x)) L)"
    by (simp add: list_all2_map1 list_all2_map2 list_all2_same)
  moreover have "distinct (map fst L)" using w'(2) by (simp add: opened_def)
  ultimately show ?thesis using w'(1) opened_related [OF w'(2) assms(6)] unfolding w'(3) by blast
qed

text \<open>The server started with two clients: one stores a value, the other one reads it.\<close>

definition two_requests :: "ptr \<Rightarrow> ptr \<Rightarrow> (ptr \<times> request) list" where
  "two_requests a b = [(a, SetReq ''ab'' 0 0 ''x''), (b, GetReq [''ab''])]"

lemma two_requests_facts:
  assumes "a \<noteq> b"
  shows "all_ok (\<lambda>q S. fst q \<in> {a, b} \<and> request_ok 2 (snd q) (fst S)) cache_step (two_requests a b) (Map.empty, \<lambda>_. [])"
    "all_needs reply_taken cache_step (two_requests a b) (Map.empty, \<lambda>_. []) = [Sent 8, Sent 24]"
    "snd (fold cache_step (two_requests a b) (Map.empty, \<lambda>_. [])) b = ''VALUE ab 0 1 1'' @ [CR, LF] @ ''x'' @ [CR, LF] @ ''END'' @ [CR, LF]"
proof -
  have v: "value_reply ''ab'' ''x'' = ''VALUE ab 0 1 1'' @ [CR, LF] @ ''x'' @ [CR, LF]" by code_simp
  have r: "length (set_request ''ab'' 0 0 ''x'') = 17" "length (get_request [''ab'']) = 8" by code_simp+
  have k: "plain_key ''ab''" by (simp add: plain_key_def)
  show "all_ok (\<lambda>q S. fst q \<in> {a, b} \<and> request_ok 2 (snd q) (fst S)) cache_step (two_requests a b) (Map.empty, \<lambda>_. [])"
    using k r by (simp add: two_requests_def cache_step_def v END_line_def)
  show "all_needs reply_taken cache_step (two_requests a b) (Map.empty, \<lambda>_. []) = [Sent 8, Sent 24]"
    by (simp add: two_requests_def reply_taken_def cache_step_def v END_line_def STORED_def)
  show "snd (fold cache_step (two_requests a b) (Map.empty, \<lambda>_. [])) b = ''VALUE ab 0 1 1'' @ [CR, LF] @ ''x'' @ [CR, LF] @ ''END'' @ [CR, LF]"
    using assms by (simp add: two_requests_def cache_step_def v END_line_def)
qed

lemma two_addresses_socket:
  "server_socket (\<lambda>_ _ _. (0, two_addresses)) \<lparr>ai_flags = 0, ai_family = 0, ai_socktype = 0, ai_protocol = 0\<rparr>
     ''localhost'' 11211 \<lparr>so_closed = [], so_listening = []\<rparr> = Inr (- 1, \<lparr>so_closed = [], so_listening = [3]\<rparr>)"
  by (simp add: server_socket_def two_addresses_def new_socket_def)

lemma zero_conn_lengths: "length (req_desc (iovReq zero_conn)) = REQ_SIZE" "length (cmd_key (cmd zero_conn)) = 256"
  by (simp_all add: zero_conn_def)

lemma zeros_length: "\<forall>k. length (zeros k) = k"
  by (simp add: zeros_def)

lemma two_clients:
  "\<exists>w acs event_of. distinct acs \<and> length acs = 2 \<and> cache_related zeros event_of n (set acs) w (Map.empty, \<lambda>_. [])"
proof -
  have l: "length [7, 8 :: int] \<le> 126" by simp
  have "(0 :: int) \<noteq> - 1" by simp
  from started [OF this two_addresses_socket zero_conn_lengths l zeros_length, where n = n] obtain w' acs event_of where
    "distinct acs" "list_all2 (\<lambda>ac so. \<exists>c. conns w' ac = Some c \<and> cSockFd c = so) acs (alternate 0 0 [7, 8] @ alternate 0 1 [7, 8])"
    "cache_related zeros event_of n (set acs) w' (Map.empty, \<lambda>_. [])" by blast
  moreover from this(2) have "length acs = 2" by (drule_tac list_all2_lengthD) simp
  ultimately show ?thesis by blast
qed





end
