(* ===== verification/Interleave.thy ===== *)
theory Interleave
  imports Boot
begin

section \<open>Requests of several clients at the same time\<close>

text \<open>
  The comm threads take requests while the workers still serve those of other clients. Here the turns of
  the threads come in any order: a call of \<open>commRead_cb\<close> that takes a request, or a turn of a worker that
  takes the next message of its queue. Each client has one request in progress, and each request has one
  key and so one message; what two workers do to one connection is the subject of another theory.
\<close>

subsection \<open>The abstract machine\<close>

datatype action = Arrive ptr request | Serve nat

type_synonym busy_cache = "cache \<times> (ptr \<times> request) list"

fun req_key :: "request \<Rightarrow> string" where
  "req_key (SetReq key f e val) = key"
| "req_key (GetReq ks) = hd ks"

definition req_worker :: "ptr \<times> request \<Rightarrow> nat" where
  "req_worker q = worker_of (key_hash (req_key (snd q)))"

text \<open>The next request of a worker, among those in progress in the order in which they came.\<close>

fun abs_step :: "action \<Rightarrow> busy_cache \<Rightarrow> busy_cache" where
  "abs_step (Arrive ac r) (C, qs) = (C, qs @ [(ac, r)])"
| "abs_step (Serve i) (C, qs) =
     (case filter (\<lambda>q. req_worker q = i) qs of [] \<Rightarrow> (C, qs)
      | q # _ \<Rightarrow> (cache_step q C, filter (\<lambda>p. fst p \<noteq> fst q) qs))"

text \<open>What the kernel takes of the reply.\<close>

fun act_needs :: "action \<Rightarrow> busy_cache \<Rightarrow> outcome list" where
  "act_needs (Arrive ac r) S = []"
| "act_needs (Serve i) (C, qs) =
     (case filter (\<lambda>q. req_worker q = i) qs of [] \<Rightarrow> [] | q # _ \<Rightarrow> reply_taken q C)"

fun single :: "nat \<Rightarrow> request \<Rightarrow> bool" where
  "single n (SetReq key f e val) \<longleftrightarrow> request_ok n (SetReq key f e val) Map.empty"
| "single n (GetReq ks) \<longleftrightarrow> length ks = 1 \<and> request_ok n (GetReq ks) Map.empty"

fun act_ok :: "nat \<Rightarrow> ptr set \<Rightarrow> action \<Rightarrow> busy_cache \<Rightarrow> bool" where
  "act_ok n clients (Arrive ac r) S \<longleftrightarrow> ac \<in> clients \<and> ac \<notin> fst ` set (snd S) \<and> single n r"
| "act_ok n clients (Serve i) S \<longleftrightarrow> i < 2"

text \<open>The turns on the server.\<close>

fun act :: "(nat \<Rightarrow> char list) \<Rightarrow> (ptr \<Rightarrow> ptr) \<Rightarrow> action \<Rightarrow> outcome list \<Rightarrow> server \<Rightarrow> (outcome list \<times> server) result option" where
  "act malloc event_of (Arrive ac r) outs w =
     obind (commRead_cb malloc nothing_to_read [\<lambda>_. Recv (request_bytes r), nothing_to_read, nothing_to_read] 0 EAGAIN 0
       (event_of ac) w) (\<lambda>w. Some (Inr (outs, w)))"
| "act malloc event_of (Serve i) outs w = worker_turn True [] i outs w"

subsection \<open>A message served\<close>

definition msg_for :: "server \<Rightarrow> ptr \<Rightarrow> ptr \<Rightarrow> request \<Rightarrow> bool" where
  "msg_for w am ac r \<longleftrightarrow> (\<exists>a. msgs w am = Some a \<and> am_aC a = ac \<and> hdr_hashval (am_hdr a) = key_hash (req_key r)
     \<and> (case r of SetReq key f e val \<Rightarrow> set_msg a key val | GetReq ks \<Rightarrow> ks = [req_key r] \<and> get_msg a (req_key r)))"

definition keys_due :: "request \<Rightarrow> nat" where
  "keys_due r = (case r of SetReq _ _ _ _ \<Rightarrow> 0 | GetReq ks \<Rightarrow> length ks)"

text \<open>Everything but the reply itself follows from the frame of the handlers.\<close>

lemma handled_frame:
  assumes w: "kv_ready w" and a: "msgs w am = Some a" "am_ctype a = ACACHED_CMD_SET \<or> am_ctype a = ACACHED_CMD_GETS" "am_aC a = ac"
    and busy: "am \<in> set (busy_of (aFBSQGaMsg w))" "am \<noteq> NULL" and c: "conns w ac = Some c" "idle c" "conns w' ac = Some c'"
    and run: "kv_handle ok outs sels am w = Some (Inr (r, w'))"
  shows "kv_ready w' \<and> conns w' = (conns w)(ac \<mapsto> c') \<and> idle c' \<and> aTcommptr c' = aTcommptr c
    \<and> busy_of (aFBSQGaMsg w') = removeAll am (busy_of (aFBSQGaMsg w)) \<and> (\<forall>p. p \<noteq> am \<longrightarrow> msgs w' p = msgs w p)
    \<and> untouched w' = untouched w"
proof -
  note h = kv_handle_ready [OF w a(1,2) busy run]
  have "replied c c'" using h(3) a(3) c by (auto simp: worker_frame_def)
  moreover have "conns w' p = ((conns w)(ac \<mapsto> c')) p" for p
    using h(3) a(3) c(3) by (cases "p = ac") (simp_all add: worker_frame_def)
  ultimately show ?thesis
    using h replied_idle [of c c'] c(2) by (auto simp: worker_frame_def fun_eq_iff)
qed

lemma message_handled:
  assumes w: "kv_ready w" "srv_store w B" "sees B (bucket_of (ahashtableptr w)) n M" and m: "msg_for w am ac r"
    and r: "single n r" "length (response r M) \<le> 126 * 1024"
    and c: "conns w ac = Some c" "idle c" "sender_at 1 (keys_due r) c"
    and busy: "am \<in> set (busy_of (aFBSQGaMsg w))" "am \<noteq> NULL"
  shows "\<exists>w' B' c'. kv_handle True (Sent (length (response r M)) # outs) [] am w = Some (Inr (outs, w'))
    \<and> srv_store w' B' \<and> sees B' (bucket_of (ahashtableptr w)) n (stored_by r M) \<and> kv_ready w'
    \<and> conns w' = (conns w)(ac \<mapsto> c') \<and> conn_free c' \<and> wire c' = wire c @ response r M \<and> aTcommptr c' = aTcommptr c
    \<and> busy_of (aFBSQGaMsg w') = removeAll am (busy_of (aFBSQGaMsg w)) \<and> (\<forall>p. p \<noteq> am \<longrightarrow> msgs w' p = msgs w p)
    \<and> untouched w' = untouched w"
proof (cases r)
  case (SetReq key f e val)
  obtain a where a: "msgs w am = Some a" "am_aC a = ac" "hdr_hashval (am_hdr a) = key_hash key" "set_msg a key val"
    using m by (auto simp: msg_for_def SetReq)
  have k: "plain_key key" "length key = n" using r(1) by (simp_all add: SetReq)
  let ?b = "bucket_of (ahashtableptr w) (key_hash key)"
  have b: "bucket_at w a = ?b" using a(3) by (simp add: bucket_at_def)
  have cl: "clean key" using plain_keyD(1) [OF k(1)] by (simp add: good_key_def)
  have d: "Busy c = 1" "replying Map.empty c 0 []" using c(3) by (simp_all add: sender_at_def)
  obtain w' c' where w': "kv_handle True (Sent 8 # outs) [] am w = Some (Inr (outs, w'))"
    "srv_store w' (B(?b := item_put (brk w, key, val) (B ?b)))" "conns w' = (conns w)(ac \<mapsto> c')"
    "wire c' = wire c @ STORED" "Busy c' = 0" "replying Map.empty c' 0 []" "Q (PendingCmdQ c') = Q (PendingCmdQ c)"
    "replyCount c' = 0" "reqCount c' = reqCount c" "concPending c' = concPending c"
    using set_handled [OF a(1,4) cl a(2) c(1) d w(2), of outs "[]"] unfolding b by blast
  have t: "am_ctype a = ACACHED_CMD_SET \<or> am_ctype a = ACACHED_CMD_GETS" using a(4) by (simp add: set_msg_def)
  have c': "conns w' ac = Some c'" using w'(3) by simp
  note fr = handled_frame [OF w(1) a(1) t a(2) busy c(1,2) c' w'(1)]
  have "conn_free c'" using fr w'(5-10) c(3) by (simp add: conn_free_def sender_at_def keys_due_def SetReq)
  moreover have "sees (B(?b := item_put (brk w, key, val) (B ?b))) (bucket_of (ahashtableptr w)) n (stored_by r M)"
    using sees_put [OF w(3) k(2)] by (simp add: SetReq)
  moreover have "length (response r M) = 8" by (simp add: SetReq STORED_def)
  then have "kv_handle True (Sent (length (response r M)) # outs) [] am w = Some (Inr (outs, w'))"
    using w'(1) by (simp only:)
  moreover have "wire c' = wire c @ response r M" using w'(4) by (simp add: SetReq)
  ultimately show ?thesis using w'(2) fr by blast
next
  case (GetReq ks)
  obtain a k where a: "msgs w am = Some a" "am_aC a = ac" "hdr_hashval (am_hdr a) = key_hash k" "ks = [k]" "get_msg a k"
    using m by (auto simp: msg_for_def GetReq)
  have k: "length k = n" using r(1) by (simp add: GetReq a(4))
  let ?b = "bucket_of (ahashtableptr w) (key_hash k)" and ?q = "(am, k, bucket_of (ahashtableptr w) (key_hash k))"
  have ans: "answers B [?q] @ END_line = response r M"
    using sees_answer [OF w(3) k] by (simp add: answers_def GetReq a(4))
  have len: "length (response r M) = length (answers B [?q]) + 5" unfolding ans [symmetric] by (simp add: END_text)
  have ask: "\<forall>q \<in> set [?q]. asks w ac q" using a by (simp add: asks_def bucket_at_def)
  have d: "replying Map.empty c 0 []" "concPending c = 0" "Busy c = 1" "reqCount c = replyCount c + of_nat (length [?q])"
    using c(3) by (simp_all add: sender_at_def keys_due_def GetReq a(4))
  have small: "[?q] \<noteq> []" "distinct (map fst [?q])" "0 + 2 * length [?q] < 1000"
    "length ([] :: char list) + length (answers B [?q]) \<le> 126 * 1024" using r(2) len by simp_all
  obtain w' c' where w': "kv_run True [] (map fst [?q]) (Sent (length ([] :: char list) + length (answers B [?q]) + 5) # outs) w = Some (Inr (outs, w'))"
    "srv_store w' B" "conns w' ac = Some c'" "wire c' = wire c @ [] @ answers B [?q] @ END_line"
    "replying (mem (ahashtableptr w')) c' 0 []" "replyCount c' = 0" "reqCount c' = 0" "Busy c' = 0" "concPending c' = 0"
    "Q (PendingCmdQ c') = Q (PendingCmdQ c)"
    using kv_run_gets [OF small(1,2) ask w(2) c(1) replying_nothing [OF d(1)] small(3,4) d(2-4), of "[]" outs] by blast
  have run: "kv_handle True (Sent (length (response r M)) # outs) [] am w = Some (Inr (outs, w'))"
    using w'(1) unfolding len by (auto simp: obind_eq_Some_Inr_iff)
  have t: "am_ctype a = ACACHED_CMD_SET \<or> am_ctype a = ACACHED_CMD_GETS" using a(5) by (simp add: get_msg_def)
  note fr = handled_frame [OF w(1) a(1) t a(2) busy c(1,2) w'(3) run]
  have "conn_free c'" using fr w'(5-10) c(3) replying_nothing by (simp add: conn_free_def sender_at_def)
  moreover have "wire c' = wire c @ response r M" using w'(4) ans by simp
  moreover have "sees B (bucket_of (ahashtableptr w)) n (stored_by r M)" using w(3) by (simp add: GetReq)
  ultimately show ?thesis using run w'(2) fr by blast
qed

subsection \<open>The states\<close>

text \<open>A message on its way: its address, and the request of a client it stands for.\<close>

definition flight_ok :: "server \<Rightarrow> nat \<Rightarrow> ptr set \<Rightarrow> ptr \<times> ptr \<times> request \<Rightarrow> bool" where
  "flight_ok w n clients x \<longleftrightarrow> fst x \<noteq> NULL \<and> fst x \<in> set (busy_of (aFBSQGaMsg w)) \<and> msg_for w (fst x) (fst (snd x)) (snd (snd x))
     \<and> single n (snd (snd x)) \<and> fst (snd x) \<in> clients"

definition flights :: "server \<Rightarrow> nat \<Rightarrow> ptr set \<Rightarrow> (ptr \<times> ptr \<times> request) list \<Rightarrow> bool" where
  "flights w n clients L \<longleftrightarrow> distinct (map fst L) \<and> distinct (map (\<lambda>x. fst (snd x)) L) \<and> (\<forall>x \<in> set L. flight_ok w n clients x)
     \<and> (\<forall>i < 2. queue_of w i = map fst (filter (\<lambda>x. req_worker (snd x) = i) L))"

text \<open>A client: its connection is free, or waits for the reply to its request.\<close>

definition client_state :: "server \<Rightarrow> (ptr \<Rightarrow> ptr) \<Rightarrow> (ptr \<times> request) list \<Rightarrow> ptr \<Rightarrow> char list \<Rightarrow> bool" where
  "client_state w event_of qs ac sent \<longleftrightarrow> (\<exists>c. client_at w (event_of ac) ac c \<and> idle c \<and> wire c = sent
     \<and> (ac \<notin> fst ` set qs \<longrightarrow> sender_at 0 0 c) \<and> (\<forall>r. (ac, r) \<in> set qs \<longrightarrow> sender_at 1 (keys_due r) c))"

text \<open>The values are no longer than a request.\<close>

definition values_fit :: "(string \<rightharpoonup> char list) \<Rightarrow> bool" where
  "values_fit M \<longleftrightarrow> (\<forall>v \<in> ran M. length v \<le> CMD_WAIT_INIT)"

definition flying :: "(nat \<Rightarrow> char list) \<Rightarrow> (ptr \<Rightarrow> ptr) \<Rightarrow> nat \<Rightarrow> ptr set \<Rightarrow> server \<Rightarrow> busy_cache \<Rightarrow> bool" where
  "flying malloc event_of n clients w S \<longleftrightarrow> (\<forall>k. length (malloc k) = k) \<and> kv_ready w \<and> values_fit (fst (fst S))
     \<and> (\<exists>B. srv_store w B \<and> sees B (bucket_of (ahashtableptr w)) n (fst (fst S)))
     \<and> (\<exists>L. flights w n clients L \<and> map snd L = snd S)
     \<and> (\<forall>ac \<in> clients. client_state w event_of (snd S) ac (snd (fst S) ac))"

lemma values_fit_stored: "values_fit M \<Longrightarrow> single n r \<Longrightarrow> values_fit (stored_by r M)"
  by (cases r) (auto simp: values_fit_def ran_def set_request_def split: if_splits)

lemma response_fits:
  assumes "values_fit M" "single n r"
  shows "length (response r M) \<le> 126 * 1024"
proof (cases r)
  case (SetReq key f e val)
  then show ?thesis by (simp add: STORED_def)
next
  case (GetReq ks)
  then obtain k where k: "ks = [k]" using assms(2) by (auto simp: length_Suc_conv)
  have "length v \<le> CMD_WAIT_INIT" if "M k = Some v" for v using that assms(1) by (auto simp: values_fit_def ran_def)
  then show ?thesis
    by (cases "M k") (auto simp: GetReq k END_text value_reply_def value_line_def min_def)
qed

lemma filter_first:
  assumes "distinct (map f L)" "filter P L = x # xs"
  shows "filter P (filter (\<lambda>y. f y \<noteq> f x) L) = xs"
proof -
  have "distinct (map f (filter P L))" using assms(1) by (rule distinct_map_filter)
  then have "\<forall>y \<in> set xs. f y \<noteq> f x" using assms(2) by simp (metis image_eqI)
  then have "filter (\<lambda>y. f y \<noteq> f x) (filter P L) = xs" using assms(2) by simp
  then show ?thesis by (simp add: conj_commute)
qed

lemma filter_other:
  assumes "distinct (map f L)" "x \<in> set L" "\<not> P x"
  shows "filter P (filter (\<lambda>y. f y \<noteq> f x) L) = filter P L"
proof -
  have "\<forall>y \<in> set L. f y = f x \<longrightarrow> y = x" using assms(1,2) by (auto simp: distinct_map inj_on_def)
  then have "\<forall>y \<in> set L. P y \<longrightarrow> f y \<noteq> f x" using assms(3) by auto
  then show ?thesis by (auto intro!: filter_cong)
qed

subsection \<open>A request arrives\<close>

lemma request_arrives:
  assumes w: "kv_ready w" "srv_store w B" and c: "client_at w ev ac c" "conn_free c" and r: "single n r"
    and m: "\<And>k. length (malloc k) = k"
  shows "\<exists>am w1 d. commRead_cb malloc nothing_to_read [\<lambda>_. Recv (request_bytes r), nothing_to_read, nothing_to_read] 0 EAGAIN 0 ev w
      = Some (Inr w1)
    \<and> msg_for w1 am ac r \<and> kv_ready w1 \<and> srv_store w1 B \<and> conns w1 = (conns w)(ac \<mapsto> d) \<and> idle d \<and> kept c d
    \<and> sender_at 1 (keys_due r) d \<and> (\<forall>i < 2. queue_of w1 i = queue_of w i @ (if req_worker (ac, r) = i then [am] else []))
    \<and> ahashtableptr w1 = ahashtableptr w \<and> events w1 = events w \<and> am \<in> set (busy_of (aFBSQGaMsg w1)) \<and> am \<noteq> NULL
    \<and> messages_kept w {am} w1"
proof (cases r)
  case (SetReq key f e val)
  have k: "plain_key key" "f < 2 ^ 32" "e < 2 ^ 32" "val \<noteq> []" "length (set_request key f e val) \<le> CMD_WAIT_INIT"
    using r by (simp_all add: SetReq)
  have wk: "req_worker (ac, r) = worker_of (key_hash key)" by (simp add: req_worker_def SetReq)
  obtain am a w1 d where w1: "commRead_cb malloc nothing_to_read [\<lambda>_. Recv (set_request key f e val), nothing_to_read, nothing_to_read]
      0 EAGAIN 0 ev w = Some (Inr w1)" "msgs w1 am = Some a" "set_msg a key val" "am_aC a = ac" "hdr_hashval (am_hdr a) = key_hash key"
    "kv_ready w1" "srv_store w1 B" "conns w1 = (conns w)(ac \<mapsto> d)" "idle d" "kept c d" "sender_at 1 0 d"
    "queue_of w1 (worker_of (key_hash key)) = queue_of w (worker_of (key_hash key)) @ [am]"
    "\<forall>j < 2. j \<noteq> worker_of (key_hash key) \<longrightarrow> queue_of w1 j = queue_of w j" "ahashtableptr w1 = ahashtableptr w"
    "events w1 = events w" "am \<in> set (busy_of (aFBSQGaMsg w1))" "am \<noteq> NULL" "messages_kept w {am} w1"
    using SET_arrives [OF w c k m] by blast
  have "msg_for w1 am ac r" using w1(2-5) by (simp add: msg_for_def SetReq)
  moreover have "\<forall>i < 2. queue_of w1 i = queue_of w i @ (if req_worker (ac, r) = i then [am] else [])"
    using w1(12,13) wk by auto
  moreover have "sender_at 1 (keys_due r) d" using w1(11) by (simp add: keys_due_def SetReq)
  moreover have "request_bytes r = set_request key f e val" by (simp add: SetReq)
  ultimately show ?thesis using w1(1,6-10,14-18) by (intro exI [of _ am] exI [of _ w1] exI [of _ d]) simp
next
  case (GetReq ks)
  then obtain k where ks: "ks = [k]" using r by (auto simp: length_Suc_conv)
  have k: "ks \<noteq> []" "\<forall>k \<in> set ks. plain_key k" "length (get_line ks) + 2 \<le> CMD_WAIT_INIT"
    using r by (simp_all add: GetReq ks get_request_def)
  have wk: "req_worker (ac, r) = worker_of (key_hash k)" by (simp add: req_worker_def GetReq ks)
  obtain qs w1 d where w1: "commRead_cb malloc nothing_to_read ((\<lambda>_. Recv (get_line ks @ [CR, LF])) # nothing_to_read # [nothing_to_read])
      0 EAGAIN 0 ev w = Some (Inr w1)"
    "map snd qs = ks" "\<forall>q \<in> set qs. key_msg w1 ac q" "kv_ready w1" "srv_store w1 B" "conns w1 = (conns w)(ac \<mapsto> d)" "idle d"
    "kept c d" "sender_at 1 (length ks) d" "\<forall>i < 2. queue_of w1 i = queue_of w i @ keys_of i qs"
    "ahashtableptr w1 = ahashtableptr w" "events w1 = events w" "set (map fst qs) \<subseteq> set (busy_of (aFBSQGaMsg w1))"
    "NULL \<notin> set (map fst qs)" "messages_kept w (set (map fst qs)) w1"
    using GET_arrives [OF w c k m] by blast
  obtain am where qs: "qs = [(am, k)]" using w1(2) by (auto simp: ks map_eq_Cons_conv)
  have "msg_for w1 am ac r" using w1(3) by (auto simp: msg_for_def GetReq ks qs key_msg_def)
  moreover have "\<forall>i < 2. queue_of w1 i = queue_of w i @ (if req_worker (ac, r) = i then [am] else [])"
    using w1(10) wk by (simp add: keys_of_def qs)
  moreover have "sender_at 1 (keys_due r) d" using w1(9) by (simp add: keys_due_def GetReq)
  moreover have "request_bytes r = get_line ks @ [CR, LF]" by (simp add: GetReq get_request_def)
  moreover have "am \<in> set (busy_of (aFBSQGaMsg w1))" "am \<noteq> NULL" "messages_kept w {am} w1" using w1(13-15) by (simp_all add: qs)
  ultimately show ?thesis using w1(1,4-8,11,12) by (intro exI [of _ am] exI [of _ w1] exI [of _ d]) simp
qed

lemma flight_ok_kept:
  assumes "messages_kept w new w'" "flight_ok w n clients x"
  shows "flight_ok w' n clients x"
  using assms by (auto simp: flight_ok_def messages_kept_def msg_for_def)

lemma arrive_step:
  assumes fly: "flying malloc event_of n clients w (C, qs)" and ok: "act_ok n clients (Arrive ac r) (C, qs)"
  shows "\<exists>w'. act malloc event_of (Arrive ac r) os w = Some (Inr (os, w')) \<and> flying malloc event_of n clients w' (C, qs @ [(ac, r)])"
proof -
  obtain M W where C: "C = (M, W)" by (cases C)
  have m: "length (malloc k) = k" for k using fly by (simp add: flying_def)
  obtain B L where w: "kv_ready w" "srv_store w B" "sees B (bucket_of (ahashtableptr w)) n M" "flights w n clients L" "map snd L = qs"
    using fly by (auto simp: flying_def C)
  have cl: "\<forall>p \<in> clients. client_state w event_of qs p (W p)" using fly by (simp add: flying_def C)
  have r: "ac \<in> clients" "ac \<notin> fst ` set qs" "single n r" using ok by simp_all
  then obtain c where c: "client_at w (event_of ac) ac c" "idle c" "wire c = W ac" "sender_at 0 0 c"
    using cl by (auto simp: client_state_def)
  have "conn_free c" using c by (simp add: conn_free_def)
  then obtain am w1 d where w1: "commRead_cb malloc nothing_to_read [\<lambda>_. Recv (request_bytes r), nothing_to_read, nothing_to_read] 0 EAGAIN 0
      (event_of ac) w = Some (Inr w1)"
    "msg_for w1 am ac r" "kv_ready w1" "srv_store w1 B" "conns w1 = (conns w)(ac \<mapsto> d)" "idle d" "kept c d"
    "sender_at 1 (keys_due r) d" "\<forall>i < 2. queue_of w1 i = queue_of w i @ (if req_worker (ac, r) = i then [am] else [])"
    "ahashtableptr w1 = ahashtableptr w" "events w1 = events w" "am \<in> set (busy_of (aFBSQGaMsg w1))" "am \<noteq> NULL"
    "messages_kept w {am} w1"
    using request_arrives [OF w(1,2) c(1) _ r(3) m] by blast
  let ?L = "L @ [(am, ac, r)]"
  have new: "am \<notin> set (map fst L)" using w(4) w1(14) by (auto simp: flights_def flight_ok_def messages_kept_def)
  have nac: "ac \<notin> set (map (\<lambda>x. fst (snd x)) L)" using r(2) unfolding w(5) [symmetric] by auto
  have "\<forall>x \<in> set ?L. flight_ok w1 n clients x"
    using w(4) w1(2,12,13) r flight_ok_kept [OF w1(14)] by (auto simp: flights_def flight_ok_def)
  then have "flights w1 n clients ?L"
    using w(4) new nac w1(9) by (auto simp: flights_def)
  moreover have "client_state w1 event_of (qs @ [(ac, r)]) p (W p)" if p: "p \<in> clients" for p
  proof (cases "p = ac")
    case True
    have "client_at w1 (event_of ac) ac d" using c(1) w1(5,7,11) by (auto simp: client_at_def kept_def)
    then show ?thesis using True w1(6-8) c(3) r(2) by (force simp: client_state_def kept_def)
  next
    case False
    obtain b where "client_at w (event_of p) p b" "idle b" "wire b = W p" "p \<notin> fst ` set qs \<longrightarrow> sender_at 0 0 b"
      "\<forall>r. (p, r) \<in> set qs \<longrightarrow> sender_at 1 (keys_due r) b" using cl p unfolding client_state_def by blast
    then show ?thesis using False w1(5,11) by (intro client_state_def [THEN iffD2] exI [of _ b]) (auto simp: client_at_def)
  qed
  ultimately have "flying malloc event_of n clients w1 (C, qs @ [(ac, r)])"
    using fly w(3,5) w1(3,4,10) m by (auto simp: flying_def C intro!: exI [of _ ?L])
  then show ?thesis using w1(1) by simp
qed

subsection \<open>A worker takes a message\<close>

lemma serve_step:
  assumes fly: "flying malloc event_of n clients w (C, qs)" and i: "i < 2"
  shows "\<exists>w'. act malloc event_of (Serve i) (act_needs (Serve i) (C, qs) @ os) w = Some (Inr (os, w'))
    \<and> flying malloc event_of n clients w' (abs_step (Serve i) (C, qs))"
proof -
  obtain M W where C: "C = (M, W)" by (cases C)
  obtain B L where w: "kv_ready w" "srv_store w B" "sees B (bucket_of (ahashtableptr w)) n M" "flights w n clients L" "map snd L = qs"
    using fly by (auto simp: flying_def C)
  let ?on = "\<lambda>x. req_worker (snd x) = i"
  have que: "queue_of w i = map fst (filter ?on L)" using w(4) i by (simp add: flights_def)
  have fq: "filter (\<lambda>q. req_worker q = i) qs = map snd (filter ?on L)" unfolding w(5) [symmetric] by (simp add: filter_map comp_def)
  obtain q0 q1 where arr: "aTSQGKVdata w = [Some q0, Some q1]" using w(1) by (auto simp: kv_ready_def)
  obtain q m where q: "aTSQGKVdata w ! i = Some (q, m)" using i arr by (cases q0; cases q1) (auto simp: less_2_cases_iff)
  then have Qq: "Q q = queue_of w i" by (simp add: queue_of_def)
  show ?thesis
  proof (cases "filter ?on L")
    case Nil
    then have "worker_turn True [] i os w = Some (Inr (os, w))" using worker_turn_waits [OF q] Qq que by simp
    then show ?thesis using Nil fly by (simp add: fq)
  next
    case (Cons x xs)
    obtain am ac r where x: "x = (am, ac, r)" by (cases x)
    have "x \<in> set (filter ?on L)" using Cons by simp
    then have xL: "x \<in> set L" and xi: "req_worker (ac, r) = i" by (simp_all add: x)
    have dis: "distinct (map fst L)" "distinct (map (\<lambda>x. fst (snd x)) L)" using w(4) by (simp_all add: flights_def)
    have xok: "flight_ok w n clients (am, ac, r)" using w(4) xL by (auto simp: flights_def x)
    have am: "am \<noteq> NULL" "am \<in> set (busy_of (aFBSQGaMsg w))" "msg_for w am ac r" "single n r" "ac \<in> clients"
      using xok by (simp_all add: flight_ok_def)
    have fit: "values_fit M" using fly by (simp add: flying_def C)
    have inq: "(ac, r) \<in> set qs" unfolding w(5) [symmetric] using xL x by force
    have cl: "\<forall>p \<in> clients. client_state w event_of qs p (W p)" using fly by (simp add: flying_def C)
    then have "client_state w event_of qs ac (W ac)" using am(5) by blast
    then obtain c where c: "client_at w (event_of ac) ac c" "idle c" "wire c = W ac" "sender_at 1 (keys_due r) c"
      using inq unfolding client_state_def by blast
    have cc: "conns w ac = Some c" using c(1) by (simp add: client_at_def)
    obtain w1 B' c' where w1: "kv_handle True (Sent (length (response r M)) # os) [] am w = Some (Inr (os, w1))"
      "srv_store w1 B'" "sees B' (bucket_of (ahashtableptr w)) n (stored_by r M)" "kv_ready w1" "conns w1 = (conns w)(ac \<mapsto> c')"
      "conn_free c'" "wire c' = wire c @ response r M" "aTcommptr c' = aTcommptr c"
      "busy_of (aFBSQGaMsg w1) = removeAll am (busy_of (aFBSQGaMsg w))" "\<forall>p. p \<noteq> am \<longrightarrow> msgs w1 p = msgs w p"
      "untouched w1 = untouched w"
      using message_handled [OF w(1-3) am(3,4) response_fits [OF fit am(4)] cc c(2,4) am(2,1), of os] by blast
    have "Q q = am # map fst xs" using Qq que Cons x by simp
    from worker_turn_takes [OF q this am(1) w1(1)] obtain q' where
      q': "Q q' = map fst xs" "worker_turn True [] i (Sent (length (response r M)) # os) w
        = Some (Inr (os, setq ((aTSQGKVdata w)[i := Some (q', m)]) w1))" by blast
    let ?w2 = "setq ((aTSQGKVdata w)[i := Some (q', m)]) w1"
    let ?L = "filter (\<lambda>y. fst (snd y) \<noteq> ac) L" and ?qs = "filter (\<lambda>p. fst p \<noteq> ac) qs"
    have u: "events w1 = events w" "bucket_of (ahashtableptr w1) = bucket_of (ahashtableptr w)"
      using w1(11) by (simp_all add: untouched_def)
    have ready: "kv_ready ?w2" using w1(4) arr i by (auto simp: kv_ready_def setq_def msg_pool_ok_def less_2_cases_iff)
    have que2: "queue_of ?w2 j = map fst (filter (\<lambda>x. req_worker (snd x) = j) ?L)" if j: "j < 2" for j
    proof (cases "j = i")
      case True
      have "queue_of ?w2 j = map fst xs" using True q'(1) i arr by (auto simp: queue_of_def setq_def less_2_cases_iff)
      moreover have "filter ?on ?L = xs" using filter_first [OF dis(2) Cons] by (simp add: x)
      ultimately show ?thesis using True by simp
    next
      case False
      have "queue_of ?w2 j = queue_of w j" using False i j arr by (auto simp: queue_of_def setq_def less_2_cases_iff)
      moreover have "filter (\<lambda>x. req_worker (snd x) = j) ?L = filter (\<lambda>x. req_worker (snd x) = j) L"
        using filter_other [OF dis(2) xL, of "\<lambda>x. req_worker (snd x) = j"] xi False by (simp add: x)
      ultimately show ?thesis using w(4) j by (simp add: flights_def)
    qed
    have others: "fst y \<noteq> am" if "y \<in> set ?L" for y
    proof
      assume e: "fst y = am"
      have "inj_on fst (set L)" using dis(1) by (simp add: distinct_map)
      moreover have "fst y = fst x" "y \<in> set L" using e that by (simp_all add: x)
      ultimately have "y = x" using xL by (rule inj_onD)
      then show False using that by (simp add: x)
    qed
    then have "\<forall>y \<in> set ?L. flight_ok ?w2 n clients y"
      using w(4) w1(9,10) by (auto simp: flights_def flight_ok_def msg_for_def)
    then have "flights ?w2 n clients ?L"
      using dis que2 by (simp add: flights_def distinct_map_filter)
    moreover have "map snd ?L = ?qs" unfolding w(5) [symmetric] by (simp add: filter_map comp_def)
    moreover have "client_state ?w2 event_of ?qs p ((W(ac := W ac @ response r M)) p)" if p: "p \<in> clients" for p
    proof (cases "p = ac")
      case True
      have "client_at ?w2 (event_of ac) ac c'" using c(1) w1(5,8) u(1) by (auto simp: client_at_def setq_def)
      then show ?thesis using True w1(6,7) c(3) by (force simp: client_state_def conn_free_def)
    next
      case False
      obtain b where "client_at w (event_of p) p b" "idle b" "wire b = W p" "p \<notin> fst ` set qs \<longrightarrow> sender_at 0 0 b"
        "\<forall>r. (p, r) \<in> set qs \<longrightarrow> sender_at 1 (keys_due r) b" using cl p unfolding client_state_def by blast
      then show ?thesis using False w1(5) u(1)
        by (intro client_state_def [THEN iffD2] exI [of _ b]) (force simp: client_at_def setq_def)
    qed
    moreover have "srv_store ?w2 B'" using w1(2) by simp
    ultimately have "flying malloc event_of n clients ?w2 ((stored_by r M, W(ac := W ac @ response r M)), ?qs)"
      using fly w1(3) u(2) ready values_fit_stored [OF fit am(4)] by (auto simp: flying_def C)
    then show ?thesis using q'(2) Cons by (simp add: fq x C cache_step_def reply_taken_def)
  qed
qed

interpretation turns: simulation "act malloc event_of" act_needs abs_step "act_ok n clients" "flying malloc event_of n clients"
    for malloc event_of n clients
proof
  fix w S a os
  assume fly: "flying malloc event_of n clients w S" and ok: "act_ok n clients a S"
  obtain C qs where S: "S = (C, qs)" by (cases S)
  show "\<exists>w'. act malloc event_of a (act_needs a S @ os) w = Some (Inr (os, w')) \<and> flying malloc event_of n clients w' (abs_step a S)"
  proof (cases a)
    case (Arrive ac r)
    then show ?thesis using arrive_step [OF fly [unfolded S] ok [unfolded S Arrive], of os] by (simp add: S)
  next
    case (Serve i)
    then show ?thesis using serve_step [OF fly [unfolded S], of i os] ok by (simp add: S)
  qed
qed

subsection \<open>The requests in the order in which they are served\<close>

fun arrivals :: "action list \<Rightarrow> (ptr \<times> request) list" where
  "arrivals [] = []"
| "arrivals (Arrive ac r # as) = (ac, r) # arrivals as"
| "arrivals (Serve i # as) = arrivals as"

fun serves :: "action list \<Rightarrow> busy_cache \<Rightarrow> (ptr \<times> request) list" where
  "serves [] S = []"
| "serves (Arrive ac r # as) S = serves as (abs_step (Arrive ac r) S)"
| "serves (Serve i # as) S =
     (case filter (\<lambda>q. req_worker q = i) (snd S) of [] \<Rightarrow> [] | q # _ \<Rightarrow> [q]) @ serves as (abs_step (Serve i) S)"

lemma serves_run: "fst (fold abs_step as S) = fold cache_step (serves as S) (fst S)"
  by (induction as S rule: serves.induct) (auto split: list.split)

abbreviation of_client :: "ptr \<Rightarrow> (ptr \<times> request) list \<Rightarrow> (ptr \<times> request) list" where
  "of_client ac qs \<equiv> filter (\<lambda>q. fst q = ac) qs"

lemma serve_one:
  assumes "distinct (map fst qs)" "q \<in> set qs"
  shows "of_client ac qs = of_client ac [q] @ of_client ac (filter (\<lambda>p. fst p \<noteq> fst q) qs)"
proof (cases "fst q = ac")
  case True
  have "of_client ac qs = [q]"
    using assms True by (induction qs) (auto simp: filter_empty_conv image_iff)
  then show ?thesis using True by simp
next
  case False
  then show ?thesis by (auto intro!: filter_cong)
qed

lemma serves_order:
  "all_ok (act_ok n clients) abs_step as S \<Longrightarrow> distinct (map fst (snd S)) \<Longrightarrow>
    of_client ac (snd S @ arrivals as) = of_client ac (serves as S @ snd (fold abs_step as S))"
proof (induction as S rule: serves.induct)
  case (2 p r as S)
  obtain C qs where S: "S = (C, qs)" by (cases S)
  show ?case using 2 by (simp add: S)
next
  case (3 i as S)
  obtain C qs where S: "S = (C, qs)" by (cases S)
  show ?case
  proof (cases "filter (\<lambda>q. req_worker q = i) qs")
    case Nil
    then show ?thesis using 3 by (simp add: S)
  next
    case (Cons q xs)
    then have "q \<in> set (filter (\<lambda>q. req_worker q = i) qs)" by simp
    then have q: "q \<in> set qs" by simp
    have d: "distinct (map fst qs)" using 3(3) by (simp add: S)
    have "of_client ac (filter (\<lambda>p. fst p \<noteq> fst q) qs @ arrivals as)
        = of_client ac (serves as (abs_step (Serve i) S) @ snd (fold abs_step as (abs_step (Serve i) S)))"
      using 3 Cons d by (simp add: S distinct_map_filter)
    then show ?thesis using serve_one [OF d q, of ac] Cons by (simp add: S)
  qed
qed simp

lemma free_flying:
  assumes "cache_related malloc event_of n clients w C" "values_fit (fst C)"
  shows "flying malloc event_of n clients w (C, [])"
proof -
  obtain B where B: "server_free w B" "sees B (bucket_of (ahashtableptr w)) n (fst C)" using assms(1) by (auto simp: cache_related_def)
  have "flights w n clients []" using B(1) by (auto simp: flights_def server_free_def less_2_cases_iff)
  moreover have "client_state w event_of [] ac (snd C ac)" if "ac \<in> clients" for ac
    using assms(1) that by (force simp: cache_related_def client_state_def conn_free_def)
  moreover have "kv_ready w" "srv_store w B" using B(1) by (simp_all add: server_free_def)
  ultimately show ?thesis using assms B(2) by (auto simp: flying_def cache_related_def)
qed

text \<open>When the workers go on, all requests in progress are served.\<close>

abbreviation on_worker :: "nat \<Rightarrow> (ptr \<times> request) list \<Rightarrow> (ptr \<times> request) list" where
  "on_worker i qs \<equiv> filter (\<lambda>q. req_worker q = i) qs"

lemma abs_turn:
  assumes "distinct (map fst (snd S))"
  shows "on_worker i (snd (abs_step (Serve i) S)) = tl (on_worker i (snd S))"
    "j \<noteq> i \<Longrightarrow> on_worker j (snd (abs_step (Serve i) S)) = on_worker j (snd S)"
    "distinct (map fst (snd (abs_step (Serve i) S)))"
proof -
  obtain C qs where S: "S = (C, qs)" by (cases S)
  have d: "distinct (map fst qs)" using assms by (simp add: S)
  show "on_worker i (snd (abs_step (Serve i) S)) = tl (on_worker i (snd S))"
    using filter_first [OF d] by (cases "on_worker i qs") (simp_all add: S)
  show "distinct (map fst (snd (abs_step (Serve i) S)))"
    using d by (cases "on_worker i qs") (simp_all add: S distinct_map_filter)
  show "on_worker j (snd (abs_step (Serve i) S)) = on_worker j (snd S)" if j: "j \<noteq> i"
  proof (cases "on_worker i qs")
    case (Cons q xs)
    then have "q \<in> set (on_worker i qs)" by simp
    then have q: "q \<in> set qs" "req_worker q \<noteq> j" using j by auto
    then show ?thesis using filter_other [OF d q(1), of "\<lambda>q. req_worker q = j"] Cons by (simp add: S)
  qed (simp add: S)
qed

lemma abs_turns:
  assumes "distinct (map fst (snd S))" "T = fold abs_step (replicate k (Serve i)) S"
  shows "on_worker i (snd T) = drop k (on_worker i (snd S)) \<and> (\<forall>j. j \<noteq> i \<longrightarrow> on_worker j (snd T) = on_worker j (snd S))
    \<and> distinct (map fst (snd T))"
  unfolding assms(2) using assms(1)
proof (induction k arbitrary: S)
  case (Suc k)
  from Suc.IH [OF abs_turn(3) [OF Suc.prems, of i]] show ?case
    using abs_turn(1,2) [OF Suc.prems] by (simp add: drop_Suc)
qed simp

definition all_turns :: "nat \<Rightarrow> action list" where
  "all_turns k = replicate k (Serve 0) @ replicate k (Serve 1)"

lemma no_worker: "on_worker 0 qs = [] \<Longrightarrow> on_worker 1 qs = [] \<Longrightarrow> qs = []"
proof (cases qs)
  case (Cons q rs)
  have "req_worker q = 0 \<or> req_worker q = 1" by (simp add: req_worker_def worker_of_def)
  then show "on_worker 0 qs = [] \<Longrightarrow> on_worker 1 qs = [] \<Longrightarrow> qs = []" using Cons by auto
qed

lemma all_turns_served:
  assumes "distinct (map fst qs)"
  shows "snd (fold abs_step (all_turns (length qs)) (C, qs)) = []"
proof -
  let ?T = "fold abs_step (replicate (length qs) (Serve 0)) (C, qs)"
  let ?U = "fold abs_step (replicate (length qs) (Serve 1)) ?T"
  have t: "on_worker 0 (snd ?T) = []" "on_worker 1 (snd ?T) = on_worker 1 qs" "distinct (map fst (snd ?T))"
    using abs_turns [of "(C, qs)" ?T "length qs" 0] assms by simp_all
  have u: "on_worker 1 (snd ?U) = []" "on_worker 0 (snd ?U) = []"
    using abs_turns [OF t(3), of ?U "length qs" 1] t(1,2) by simp_all
  have "snd ?U = []" by (rule no_worker [OF u(2,1)])
  then show ?thesis by (simp add: all_turns_def)
qed

lemma all_turns_ok: "all_ok (act_ok n clients) abs_step (all_turns k) S"
proof -
  have "i < 2 \<Longrightarrow> all_ok (act_ok n clients) abs_step as T \<Longrightarrow> all_ok (act_ok n clients) abs_step (replicate k (Serve i) @ as) T"
    if "\<And>T. all_ok (act_ok n clients) abs_step as T" for i as T
    using that by (induction k arbitrary: T) simp_all
  from this [of "[]" 1] this [of "replicate k (Serve 1)" 0] show ?thesis unfolding all_turns_def by simp
qed

lemma arrivals_turns [simp]: "arrivals (all_turns k) = []"
proof -
  have "arrivals (replicate k (Serve i) @ as) = arrivals as" for i as by (induction k) simp_all
  from this [of 0 "replicate k (Serve 1)"] this [of 1 "[]"] show ?thesis by (simp add: all_turns_def)
qed

lemma flying_free:
  assumes "flying malloc event_of n clients w (C, [])"
  shows "cache_related malloc event_of n clients w C"
proof -
  have "queue_of w 0 = []" "queue_of w 1 = []" using assms by (auto simp: flying_def flights_def)
  then show ?thesis
    using assms by (fastforce simp: flying_def cache_related_def server_free_def client_state_def conn_free_def)
qed

subsection \<open>Properties\<close>

text \<open>
  C2: requests of several clients at the same time. From a server between requests, let the comm threads
  take requests of one key, each of a client that has none in progress, and let the workers take turns, in
  any order. No turn fails, and the map and the bytes sent to each client are those of a cache that serves
  the requests one after the other, in the order in which the workers took them, which is between a
  request's arrival and its reply; for each client it is the order in which its requests came, and what is
  missing in it is still in progress.
\<close>
theorem interleaved_requests_linearize:
  assumes "cache_related malloc event_of n clients w C" "values_fit (fst C)"
    and "all_ok (act_ok n clients) abs_step acts (C, [])"
  defines "rs \<equiv> serves acts (C, [])" and "qs \<equiv> snd (fold abs_step acts (C, []))"
  shows "(\<exists>w'. runs (act malloc event_of) acts (all_needs act_needs abs_step acts (C, []) @ outs) w = Some (Inr (outs, w'))
      \<and> flying malloc event_of n clients w' (fold cache_step rs C, qs))
    \<and> (\<forall>ac. of_client ac (arrivals acts) = of_client ac rs @ of_client ac qs)"
proof -
  have "fold abs_step acts (C, []) = (fold cache_step rs C, qs)"
    using serves_run [of acts "(C, [])"] by (simp add: prod_eq_iff rs_def qs_def)
  then have "\<exists>w'. runs (act malloc event_of) acts (all_needs act_needs abs_step acts (C, []) @ outs) w = Some (Inr (outs, w'))
      \<and> flying malloc event_of n clients w' (fold cache_step rs C, qs)"
    using turns.sequence [OF free_flying [OF assms(1,2)] assms(3), of outs] by simp
  moreover have "\<forall>ac. of_client ac (arrivals acts) = of_client ac rs @ of_client ac qs"
    using serves_order [OF assms(3)] by (simp add: rs_def qs_def)
  ultimately show ?thesis ..
qed

text \<open>The SET of one client and the GET of another one arrive, before a worker serves them.\<close>

definition two_at_once :: "ptr \<Rightarrow> ptr \<Rightarrow> action list" where
  "two_at_once a b = [Arrive a (SetReq ''ab'' 0 0 ''x''), Arrive b (GetReq [''ab'']),
     Serve (worker_of (key_hash ''ab'')), Serve (worker_of (key_hash ''ab''))]"

lemma two_at_once_facts:
  assumes "a \<noteq> b"
  shows "all_ok (act_ok 2 {a, b}) abs_step (two_at_once a b) ((Map.empty, \<lambda>_. []), [])"
    "all_needs act_needs abs_step (two_at_once a b) ((Map.empty, \<lambda>_. []), []) = [Sent 8, Sent 24]"
    "serves (two_at_once a b) ((Map.empty, \<lambda>_. []), []) = two_requests a b"
proof -
  have v: "value_reply ''ab'' ''x'' = ''VALUE ab 0 1 1'' @ [CR, LF] @ ''x'' @ [CR, LF]" by code_simp
  have r: "length (set_request ''ab'' 0 0 ''x'') = 17" "length (get_request [''ab'']) = 8" by code_simp+
  have k: "plain_key ''ab''" by (simp add: plain_key_def)
  show "all_ok (act_ok 2 {a, b}) abs_step (two_at_once a b) ((Map.empty, \<lambda>_. []), [])"
    using k r assms worker_of_less [of "key_hash ''ab''"] by (simp add: two_at_once_def END_line_def)
  show "all_needs act_needs abs_step (two_at_once a b) ((Map.empty, \<lambda>_. []), []) = [Sent 8, Sent 24]"
    using assms by (simp add: two_at_once_def req_worker_def reply_taken_def cache_step_def v END_line_def STORED_def)
  show "serves (two_at_once a b) ((Map.empty, \<lambda>_. []), []) = two_requests a b"
    using assms by (simp add: two_at_once_def req_worker_def two_requests_def)
qed

lemma interleaved_requests_linearize_witness:
  "\<exists>event_of w w' a b c. runs (act zeros event_of) (two_at_once a b) [Sent 8, Sent 24] w = Some (Inr ([], w'))
    \<and> conns w' b = Some c \<and> wire c = ''VALUE ab 0 1 1'' @ [CR, LF] @ ''x'' @ [CR, LF] @ ''END'' @ [CR, LF]"
proof -
  obtain w acs event_of where w: "distinct acs" "length acs = 2" "cache_related zeros event_of 2 (set acs) w (Map.empty, \<lambda>_. [])"
    using two_clients by blast
  obtain a b where ab: "acs = [a, b]" "a \<noteq> b" using w(1,2) by (auto simp: numeral_2_eq_2 length_Suc_conv)
  have s: "set acs = {a, b}" using ab(1) by simp
  have v: "values_fit (fst (Map.empty, \<lambda>_. []))" by (simp add: values_fit_def)
  note f = two_at_once_facts [OF ab(2)]
  from interleaved_requests_linearize [OF w(3) v f(1) [folded s], of "[]", unfolded f(2,3)] obtain w' where
    w': "runs (act zeros event_of) (two_at_once a b) [Sent 8, Sent 24] w = Some (Inr ([], w'))"
    "flying zeros event_of 2 (set acs) w' (fold cache_step (two_requests a b) (Map.empty, \<lambda>_. []),
       snd (fold abs_step (two_at_once a b) ((Map.empty, \<lambda>_. []), [])))" by auto
  have "b \<in> set acs" using s by simp
  then obtain c where "conns w' b = Some c" "wire c = snd (fold cache_step (two_requests a b) (Map.empty, \<lambda>_. [])) b"
    using w'(2) unfolding flying_def client_state_def client_at_def fst_conv snd_conv by blast
  then show ?thesis using w'(1) unfolding two_requests_facts(3) [OF ab(2)] by blast
qed

text \<open>
  C3: no request is left behind. Whatever requests of one key are in progress, when each worker takes as many
  turns as there are requests, all are served: every client has its reply, the requests of a client are
  answered in their order, and the server is one between requests, with all connections free.
\<close>
theorem requests_all_answered:
  assumes "flying malloc event_of n clients w (C, qs)"
  shows "\<exists>w' outs rs. runs (act malloc event_of) (all_turns (length qs)) outs w = Some (Inr ([], w'))
    \<and> cache_related malloc event_of n clients w' (fold cache_step rs C) \<and> (\<forall>ac. of_client ac rs = of_client ac qs)"
proof -
  let ?as = "all_turns (length qs)" and ?rs = "serves (all_turns (length qs)) (C, qs)"
  obtain L where L: "flights w n clients L" "map snd L = qs" using assms by (auto simp: flying_def)
  then have d: "distinct (map fst qs)" by (auto simp: flights_def comp_def)
  obtain w' where w': "runs (act malloc event_of) ?as (all_needs act_needs abs_step ?as (C, qs)) w = Some (Inr ([], w'))"
    "flying malloc event_of n clients w' (fold abs_step ?as (C, qs))"
    using turns.sequence [OF assms all_turns_ok, of _ "[]"] by auto
  have "fold abs_step ?as (C, qs) = (fold cache_step ?rs C, [])"
    using serves_run [of ?as "(C, qs)"] all_turns_served [OF d, of C] by (simp add: prod_eq_iff)
  then have "cache_related malloc event_of n clients w' (fold cache_step ?rs C)" using w'(2) flying_free by simp
  moreover have "\<forall>ac. of_client ac ?rs = of_client ac qs"
    using serves_order [OF all_turns_ok [of n clients "length qs" "(C, qs)"]] d all_turns_served [OF d, of C] by simp
  ultimately show ?thesis using w'(1) by blast
qed

lemma sent_to:
  assumes "\<forall>q \<in> set (of_client ac rs). \<exists>key f e val. snd q = SetReq key f e val"
  shows "snd (fold cache_step rs C) ac = snd C ac @ concat (map (\<lambda>_. STORED) (of_client ac rs))"
  using assms
proof (induction rs arbitrary: C)
  case (Cons q rs)
  obtain M W where C: "C = (M, W)" by (cases C)
  show ?case using Cons.IH [of "cache_step q C"] Cons.prems by (auto simp: cache_step_def C)
qed simp

lemma requests_all_answered_witness:
  "\<exists>event_of w0 w w' a b outs c. runs (act zeros event_of) [Arrive a (SetReq ''ab'' 0 0 ''x''), Arrive b (GetReq [''ab''])] [] w0
      = Some (Inr ([], w))
    \<and> runs (act zeros event_of) (all_turns 2) outs w = Some (Inr ([], w')) \<and> conns w' a = Some c \<and> conn_free c
    \<and> wire c = STORED"
proof -
  let ?C = "(Map.empty, \<lambda>_. []) :: cache" and ?s = "SetReq ''ab'' 0 0 ''x''" and ?g = "GetReq [''ab'']"
  obtain w0 acs event_of where w0: "distinct acs" "length acs = 2" "cache_related zeros event_of 2 (set acs) w0 ?C"
    using two_clients by blast
  obtain a b where ab: "acs = [a, b]" "a \<noteq> b" using w0(1,2) by (auto simp: numeral_2_eq_2 length_Suc_conv)
  let ?as = "[Arrive a ?s, Arrive b ?g]"
  have v: "values_fit (fst ?C)" by (simp add: values_fit_def)
  have ok: "all_ok (act_ok 2 (set acs)) abs_step ?as (?C, [])"
    using two_at_once_facts(1) [OF ab(2)] ab(1) by (simp add: two_at_once_def)
  obtain w where w: "runs (act zeros event_of) ?as [] w0 = Some (Inr ([], w))"
    "flying zeros event_of 2 (set acs) w (?C, [(a, ?s), (b, ?g)])"
    using turns.sequence [OF free_flying [OF w0(3) v] ok, of "[]"] by auto
  from requests_all_answered [OF this(2)] obtain w' outs rs where
    w': "runs (act zeros event_of) (all_turns 2) outs w = Some (Inr ([], w'))"
    "cache_related zeros event_of 2 (set acs) w' (fold cache_step rs ?C)" "\<forall>p. of_client p rs = of_client p [(a, ?s), (b, ?g)]"
    by (auto simp: numeral_2_eq_2)
  have "snd (fold cache_step rs ?C) a = STORED"
    using sent_to [where rs = rs and ac = a and C = ?C] w'(3) ab(2) by simp
  moreover have "a \<in> set acs" using ab(1) by simp
  ultimately obtain c where "conns w' a = Some c" "conn_free c" "wire c = STORED"
    using w'(2) by (fastforce simp: cache_related_def client_at_def)
  then show ?thesis using w(1) w'(1) by blast
qed

end
