(* ===== verification/Spec2Isabelle.thy ===== *)
theory Spec2Isabelle
  imports ThreadedQ KVRefine GetsEnd BusyRace Threads ClientThread Reuse Interleave
begin

text \<open>
  Verification of acached, a cache server that speaks the memcached text protocol.

  \<^bold>\<open>The program.\<close> The main thread accepts connections and hands them, one after the other, to the comm
  threads. A comm thread runs an event loop: \<open>commRead_cb\<close> reads a command of a connection with
  \<open>aConn::ProcessDataRecv\<close> (a header line, and for a SET a body) and posts it with
  \<open>aConn::Post2KVdataTSQ\<close> as messages to the workers, one for a SET and one for each key of a GET, by
  the hash of the key. A worker (\<open>threadKVdata.cpp\<close>) takes messages from its queue, works on the hash
  table (\<open>ahashtable.cpp\<close>), queues reply vectors in the connection (\<open>aConnReply.cpp\<close>) and sends them; the
  last one that answers a key of a GET sends END. A connection has one command in progress (\<open>Busy\<close>); the
  others wait in its \<open>PendingCmdQ\<close>, and the worker that ends a command signals the comm thread over a
  pipe to start the next. Messages and connections come from two pools.

  \<^bold>\<open>The model.\<close> A class is a record, an object has an address in a map of the \<open>server\<close> record, and a
  method is a function from the state to its value and the state after it. A crash (a NULL or dangling
  pointer, an access out of bounds, an assertion, an uninitialised read) is the left side of a \<open>result\<close>;
  where a loop may wait for ever, or the kernel's answers may run out, the value is \<open>None\<close> around it.
  Machine integers are words of their width wherever the code can wrap. What the kernel answers (the
  bytes of a \<open>read\<close>, the outcomes of \<open>sendmsg\<close> and \<open>select\<close>, the contents of a new block) is an argument.

  \<^item> \<open>Prelude\<close>: integer types, crashes, the two monads with their rules for postconditions (\<open>posts\<close>), lists
    and words.
  \<^item> \<open>JHash\<close> (hash.cpp): Jenkins' hash in all its builds, against one reference hash of a byte string.
  \<^item> \<open>Platform\<close> (platform.cpp): the atomic operations. \<open>Util\<close> (aUtil.cpp): numbers, byte order, \<open>select\<close>.
    \<open>Logging\<close> (adapt/adaptlog, the dumps of aUtil.cpp): which messages pass the level and the groups, and the
    mutex around them.
  \<^item> \<open>AdaptQ\<close>, \<open>Pools\<close>, \<open>ThreadedQ\<close> (adapt/): queues, the free/busy pools with their interface \<open>fb_pool\<close>,
    and the monitor between threads as a step relation over any number of threads. \<open>Threads\<close> (adapt/): thread
    objects, ports, threaded pools and \<open>adaptMsg\<close>.
  \<^item> \<open>KVTable\<close>, \<open>KVRefine\<close> (ahashtable.cpp): the table in an explicit store of blocks, and its refinement of
    a map from buckets to lists of entries (the interface \<open>bucket_store\<close>).
  \<^item> \<open>Conn\<close>, \<open>Msg\<close>, \<open>Server\<close>, \<open>SGA\<close> (aConn.cpp, aMsg.cpp, acacheSGA.cpp): connections, messages, the shared
    state, its constructor and pools.
  \<^item> \<open>ConnParse\<close>, \<open>ConnRecv\<close> (aConnParse.cpp): tokenizer, header and the receiving state machine.
    \<open>ConnReply\<close> (aConnReply.cpp): reply vectors and the loops that send them.
    \<open>ConnReq\<close> (aConnReq.cpp): from a command to messages. \<open>KVThread\<close> (threadKVdata.cpp): the handlers of a
    worker. \<open>CommThread\<close> (threadComm.cpp, acached.cpp): the callbacks and the accept loop. \<open>ClientThread\<close>
    (threadClient.cpp). \<open>Startup\<close> (acached.cpp, the sockets of aUtil.cpp): \<open>main\<close>.
  \<^item> \<open>KVSet\<close>, \<open>KVView\<close>, \<open>KVGet\<close>, \<open>KVServe\<close>: the handlers against the table seen as key-value pairs.
    \<open>Dispatch\<close>, \<open>Commands\<close>: comm thread and worker together, the order of the commands of a connection.
    \<open>Frame\<close>: what the receiver, the comm thread and the workers leave unchanged. \<open>Workers\<close>: the loop of a
    worker over its queue. \<open>Receive\<close>: the call of a comm thread that takes a request from the socket.
  \<^item> \<open>Simulation\<close>, \<open>Session\<close>: the whole server on a sequence of requests of several clients, as a simulation
    of an abstract cache (a map and the bytes sent to each client). \<open>Boot\<close>: from \<open>main\<close> to the first request.
    \<open>Interleave\<close>: the same for requests that are in progress at the same time, the turns of the comm threads
    and workers in any order.
    \<open>Reuse\<close>: a connection that is closed while a command of it is in progress.
  \<^item> \<open>GetsEnd\<close>, \<open>BusyRace\<close>: the two protocols in which threads meet on the counters of a connection (who
    sends END, who starts the next command), with each access as a step of its own, in any interleaving.

  \<^bold>\<open>The properties.\<close> The server: from its start it is a cache, for any sequence of SET and GET requests of
  its clients that come one after the other, and for requests of one key that several clients have in
  progress at once, in the order in which the workers take them; as many turns of the workers as there are
  requests answer them all. The commands: a SET or GET that was read whole gets its reply, a GET returns what was
  set, commands run in the order they came. The table: \<open>set\<close> and \<open>get\<close> terminate, are free of invalid
  accesses and refine the bucket specification. The receiver: a SET line is read back as it was printed,
  bodies that come in one or two reads are put together. The sender: all that was queued is sent, once
  and in order. Concurrency: mutual exclusion, no lost wake-up, one END behind all answers, and
  termination by rule induction and measures. Where the code does not do this (two workers can both send
  END, a command can be left waiting, a partial write can end a reply, a body in three pieces, a SET
  behind a GET, keys that are a prefix of another), the theorem states what it does instead.

  \<^bold>\<open>Bounds.\<close> The replies of a GET are taken as sent at its end: at most 126 KB are queued and fewer than
  the 500 vectors after which \<open>QReply\<close> sends at once. A line has fewer than \<open>2 ^ 32\<close> keys, so that the
  counters do not wrap. The dispatch is for a server made for two cores, the only number for which the
  constructor makes the queues it needs. In a session a request comes whole in one read of at most
  32 KB, the kernel takes a reply whole, and all keys have the same length, since the table takes a key for
  another one that it is a prefix of. At most 126 connections are accepted before the comm threads look
  into their pipes, since one read takes 63 announcements. In the interleavings a turn (a call of \<open>commRead_cb\<close>,
  a message handled by a worker) is one step; a GET has one key, since with several keys two workers can both
  send END, and a SET can free a value that is queued. No fuel is used: loops over memory end by structure or by a
  measure, those over the kernel's answers by the length of their list.

  \<^bold>\<open>Not modelled.\<close> libevent, which calls the callbacks; what \<open>printf\<close> makes of the texts that are logged, and
  the functions that only print; destructors with an empty body. The client thread, the ports, the threaded
  pools and \<open>adaptMsg\<close> are modelled though the program never uses them: the line that makes the queue of the
  client threads is a comment.
\<close>

end
